(* ===== verification/Wire_Prelude.thy ===== *)
theory Wire_Prelude
  imports Main "HOL-Library.Word"
begin

unbundle bit_operations_syntax

section \<open>Shared vocabulary of the eNode-go model\<close>

text \<open>
  What every component theory uses: the machine types of the Go source, the error values
  its functions return, the three-way outcome of a call (a value, an error, a run-time
  panic), little-endian encoding as \<^verbatim>\<open>encoding/binary\<close> does it, and list lemmas.

  Go's \<^verbatim>\<open>uint8\<close> to \<^verbatim>\<open>uint64\<close> are words of that width. Go's \<^verbatim>\<open>int\<close> is 64 bits
  wide on every platform the project builds for. Lengths and positions are \<^typ>\<open>nat\<close>;
  an \<^verbatim>\<open>int\<close> argument that may be negative is \<^typ>\<open>int\<close>. A Go \<^verbatim>\<open>string\<close> is a
  sequence of bytes, so it has the type of a byte slice.
\<close>

type_synonym u8 = "8 word"
type_synonym u16 = "16 word"
type_synonym u32 = "32 word"
type_synonym u64 = "64 word"
type_synonym bytes = "8 word list"

subsection \<open>Errors and outcomes\<close>

text \<open>
  The sentinel errors of the packages modelled. \<open>Wrapf\<close> is \<^verbatim>\<open>fmt.Errorf\<close> with
  a \<^verbatim>\<open>%w\<close> verb: the fixed text, the numbers formatted into it and the wrapped error.
  \<open>TagDecodeError\<close> is the struct of that name in \<^verbatim>\<open>ed2k/buffer.go\<close>: position,
  stage, tag type, tag code and the wrapped error. \<open>ErrNew\<close> is an anonymous
  \<^verbatim>\<open>errors.New\<close>.
\<close>

datatype gerror =
    ErrOutOfBounds
  | ErrInvalidHashLength
  | ErrUnsupportedTag
  | ErrPacketTooLarge
  | ErrInflatedTooLarge
  | ErrUnknownProtocol
  | ErrSearchTooManyLeaves
  | ErrNew string
  | Wrapf string "nat list" gerror
  | TagDecodeError nat string u8 u8 gerror

text \<open>\<^verbatim>\<open>errors.Is\<close> follows the \<^verbatim>\<open>Unwrap\<close> chain.\<close>

fun errors_Is :: "gerror \<Rightarrow> gerror \<Rightarrow> bool" where
  "errors_Is (Wrapf s ns e) t = (Wrapf s ns e = t \<or> errors_Is e t)"
| "errors_Is (TagDecodeError p s ty c e) t = (TagDecodeError p s ty c e = t \<or> errors_Is e t)"
| "errors_Is e t = (e = t)"

datatype 'a res = Ok 'a | Err gerror | Panic

fun map_res :: "('a \<Rightarrow> 'b) \<Rightarrow> 'a res \<Rightarrow> 'b res" where
  "map_res f (Ok x) = Ok (f x)"
| "map_res f (Err e) = Err e"
| "map_res f Panic = Panic"

fun bind_res :: "'a res \<Rightarrow> ('a \<Rightarrow> 'b res) \<Rightarrow> 'b res" where
  "bind_res (Ok x) f = f x"
| "bind_res (Err e) f = Err e"
| "bind_res Panic f = Panic"

lemma bind_res_eq_Ok [simp]:
  "bind_res r f = Ok y \<longleftrightarrow> (\<exists>x. r = Ok x \<and> f x = Ok y)"
  by (cases r) auto

lemma bind_res_assoc: "bind_res (bind_res r f) g = bind_res r (\<lambda>x. bind_res (f x) g)"
  by (cases r) auto

subsection \<open>Words\<close>

lemma unat_of_nat_lt: "n < 2 ^ LENGTH('a::len) \<Longrightarrow> unat (of_nat n :: 'a word) = n"
  by (simp add: unsigned_of_nat take_bit_nat_eq_self)

subsection \<open>Little-endian integers\<close>

text \<open>
  \<open>le_put n w\<close> writes the \<open>n\<close> low bytes of a word, least significant first
  (\<^verbatim>\<open>binary.LittleEndian.PutUint16/32/64\<close>); \<open>le_get\<close> reads them back
  (\<^verbatim>\<open>Uint16/32/64\<close>).
\<close>

fun le_put :: "nat \<Rightarrow> 'a::len word \<Rightarrow> bytes" where
  "le_put 0 w = []"
| "le_put (Suc n) w = ucast w # le_put n (drop_bit 8 w)"

fun le_get :: "bytes \<Rightarrow> 'a::len word" where
  "le_get [] = 0"
| "le_get (b # bs) = ucast b OR push_bit 8 (le_get bs)"

lemma length_le_put [simp]: "length (le_put n w) = n"
  by (induction n arbitrary: w) auto

lemma le_get_put_take: "le_get (le_put n w) = take_bit (8 * n) w"
proof (induction n arbitrary: w)
  case (Suc n)
  show ?case
    by (rule bit_eqI) (auto simp: Suc bit_simps)
qed simp

lemma le_get_put:
  fixes w :: "'a::len word"
  assumes "LENGTH('a) \<le> 8 * n"
  shows "le_get (le_put n w) = w"
  using assms by (simp add: le_get_put_take take_bit_word_eq_self)

lemma le_put_get:
  assumes "8 * length bs \<le> LENGTH('a::len)"
  shows "le_put (length bs) (le_get bs :: 'a word) = bs"
  using assms
proof (induction bs)
  case (Cons b bs)
  have lo: "ucast (ucast b OR push_bit 8 (le_get bs) :: 'a word) = b"
    using Cons.prems by (intro bit_eqI) (auto simp: bit_simps)
  have hi: "drop_bit 8 (ucast b OR push_bit 8 (le_get bs) :: 'a word)
      = take_bit (LENGTH('a) - 8) (le_get bs)"
    by (rule bit_eqI) (auto simp: bit_simps dest: bit_imp_le_length)
  have low: "le_put n (take_bit m w) = le_put n w" if "8 * n \<le> m" for n m and w :: "'a word"
    using that
  proof (induction n arbitrary: m w)
    case (Suc n)
    then have "ucast (take_bit m w) = (ucast w :: 8 word)"
      by (intro bit_eqI) (auto simp: bit_simps)
    moreover have "drop_bit 8 (take_bit m w) = take_bit (m - 8) (drop_bit 8 w)"
      by (simp add: drop_bit_take_bit)
    ultimately show ?case using Suc by simp
  qed simp
  have "le_put (length (b # bs)) (le_get (b # bs) :: 'a word)
      = b # le_put (length bs) (take_bit (LENGTH('a) - 8) (le_get bs :: 'a word))"
    by (simp only: le_get.simps length_Cons le_put.simps lo hi)
  then show ?case using Cons by (simp add: low)
qed simp

lemma le_get_append: "le_get (xs @ ys) = le_get xs OR push_bit (8 * length xs) (le_get ys)"
  by (induction xs) (simp_all add: or.assoc)

lemma bit_le_get_bound: "bit (le_get bs :: 'a::len word) n \<Longrightarrow> n < 8 * length bs"
proof (induction bs arbitrary: n)
  case (Cons b bs)
  then consider "bit b n" | "8 \<le> n" "bit (le_get bs :: 'a word) (n - 8)"
    by (auto simp: bit_simps)
  then show ?case
    by cases (use Cons.IH in \<open>fastforce dest: bit_imp_le_length\<close>)+
qed simp

lemma ucast_le_get:
  assumes "8 * length bs \<le> LENGTH('a::len)" "8 * length bs \<le> LENGTH('b::len)"
  shows "ucast (le_get bs :: 'a word) = (le_get bs :: 'b word)"
  using assms
proof (induction bs)
  case (Cons b bs)
  have "ucast (push_bit 8 (le_get bs :: 'a word)) = (push_bit 8 (ucast (le_get bs :: 'a word)) :: 'b word)"
    by (rule bit_eqI) (use Cons.prems in \<open>auto simp: bit_simps dest: bit_le_get_bound\<close>)
  moreover have "ucast (ucast b :: 'a word) = (ucast b :: 'b word)"
    by (rule bit_eqI) (use Cons.prems in \<open>auto simp: bit_simps dest: bit_imp_le_length\<close>)
  ultimately show ?case using Cons by (simp add: unsigned_or_eq)
qed simp

lemma le_get_halves:
  assumes "length bs = 8"
  shows "ucast (le_get (take 4 bs) :: u32) + ucast (le_get (drop 4 bs) :: u32) * 0x100000000
    = (le_get bs :: u64)"
proof -
  let ?lo = "le_get (take 4 bs) :: u64" and ?hi = "le_get (drop 4 bs) :: u64"
  have "le_get bs = ?lo OR push_bit 32 ?hi"
    using le_get_append [of "take 4 bs" "drop 4 bs"] assms by simp
  also have "\<dots> = ?lo + push_bit 32 ?hi"
    by (rule disjunctive_add_eq_or [symmetric], rule bit_eqI)
      (use assms in \<open>auto simp: bit_simps dest: bit_le_get_bound\<close>)
  also have "push_bit 32 ?hi = ?hi * 0x100000000"
    by (simp add: push_bit_eq_mult)
  finally show ?thesis using assms by (simp add: ucast_le_get)
qed

lemma le_put_get_length:
  "length bs = n \<Longrightarrow> 8 * n \<le> LENGTH('a::len) \<Longrightarrow> le_put n (le_get bs :: 'a word) = bs"
  using le_put_get by blast

text \<open>The value of little-endian bytes as a number.\<close>

fun le_nat :: "bytes \<Rightarrow> nat" where
  "le_nat [] = 0"
| "le_nat (b # bs) = unat b + 256 * le_nat bs"

lemma le_nat_less: "le_nat bs < 256 ^ length bs"
proof (induction bs)
  case (Cons b bs)
  have "unat b < 256" using unsigned_less [of b] by simp
  moreover have "256 * le_nat bs + 256 \<le> 256 * 256 ^ length bs" using Cons by simp
  ultimately show ?case by simp
qed simp

lemma le_get_Cons_add:
  "(le_get (b # bs) :: 'a::len word) = ucast b + 256 * le_get bs"
proof -
  have p: "push_bit 8 (le_get bs :: 'a word) = 256 * le_get bs"
    by (simp add: push_bit_eq_mult mult.commute)
  have "\<not> bit (ucast b :: 'a word) n \<or> \<not> bit (push_bit 8 (le_get bs :: 'a word)) n" for n
    using bit_imp_le_length [of b n] by (auto simp: bit_simps)
  then have "(ucast b :: 'a word) + push_bit 8 (le_get bs) = ucast b OR push_bit 8 (le_get bs)"
    by (rule disjunctive_add)
  then show ?thesis by (simp add: p [symmetric])
qed

lemma le_get_of_nat: "(le_get bs :: 'a::len word) = of_nat (le_nat bs)"
  by (induction bs) (simp_all only: le_get_Cons_add le_nat.simps le_get.simps, simp_all)

lemma unat_le_get:
  assumes "8 * length bs \<le> LENGTH('a::len)"
  shows "unat (le_get bs :: 'a word) = le_nat bs"
proof -
  have "(256 :: nat) ^ length bs = 2 ^ (8 * length bs)" by (simp add: power_mult)
  also have "\<dots> \<le> 2 ^ LENGTH('a)" using assms by (intro power_increasing) simp_all
  finally have "le_nat bs < 2 ^ LENGTH('a)" using le_nat_less [of bs] by simp
  then show ?thesis by (simp only: le_get_of_nat unat_of_nat_lt)
qed

subsection \<open>Casts and halves\<close>

lemma unat_ucast_up [simp]:
  "LENGTH('a) \<le> LENGTH('b) \<Longrightarrow> unat (ucast (w :: 'a::len word) :: 'b::len word) = unat w"
  by (simp add: unsigned_ucast_eq take_bit_nat_eq_self_iff)
    (meson less_le_trans one_le_numeral power_increasing unsigned_less)

lemma ucast_ucast_up [simp]:
  "LENGTH('a) \<le> LENGTH('b) \<Longrightarrow> ucast (ucast (w :: 'a::len word) :: 'b::len word) = w"
  by (rule ucast_up_ucast_id) (simp add: is_up)

lemma split_halves:
  fixes s :: u64
  shows "ucast (ucast (s mod 0x100000000) :: u32) = s mod 0x100000000"
    and "ucast (ucast (s div 0x100000000) :: u32) = s div 0x100000000"
proof -
  have lt: "unat s < 2 ^ 64" using unsigned_less [of s] by simp
  have m: "unat (s mod 0x100000000) = unat s mod 2 ^ 32" "unat (s div 0x100000000) = unat s div 2 ^ 32"
    by (simp_all add: unat_mod unat_div)
  have "unat (ucast (ucast (s mod 0x100000000) :: u32) :: u64) = unat (s mod 0x100000000)"
    using m by (simp add: unsigned_ucast_eq take_bit_eq_mod unat_mod)
  then show "ucast (ucast (s mod 0x100000000) :: u32) = s mod 0x100000000" by (simp only: word_unat_eq_iff)
  have "unat (ucast (ucast (s div 0x100000000) :: u32) :: u64) = unat (s div 0x100000000)"
    using m lt by (simp add: unsigned_ucast_eq take_bit_eq_mod unat_mod)
  then show "ucast (ucast (s div 0x100000000) :: u32) = s div 0x100000000" by (simp only: word_unat_eq_iff)
qed

lemma size_halves:
  fixes s :: u64
  shows "s mod 0x100000000 + (s div 0x100000000) * 0x100000000 = s"
  by (metis add.commute div_mult_mod_eq)

lemma size_no_hi: "\<not> (s :: u64) \<ge> 0x100000000 \<Longrightarrow> s mod 0x100000000 = s \<and> s div 0x100000000 = 0"
  by (simp add: word_unat_eq_iff unat_mod unat_div word_le_nat_alt)

end
