(* ===== verification/Wire_Buffer.thy ===== *)
theory Wire_Buffer
  imports Wire_Prelude
begin

section \<open>The wire buffer (ed2k/buffer.go)\<close>

text \<open>
  \<^verbatim>\<open>Buffer\<close> is a byte slice with a cursor. Every method is a function from the buffer
  to an outcome and the buffer afterwards: a method that fails half way leaves the cursor
  where it was when it failed, and the model keeps that. \<open>bind_io\<close> is the source's
  \<^verbatim>\<open>v, err := m(); if err != nil { return err }\<close>.

  The second half of the theory is the algebra the decoders and encoders are verified
  with: \<open>safe\<close> (a read never panics, never changes the bytes, never moves the cursor
  back or past the end), \<open>consumes\<close> (a successful read takes at least that many bytes),
  \<open>reads\<close> and \<open>emits\<close> (exactly which bytes a read accepts and a write produces), each
  closed under \<open>bind_io\<close>, and the locale \<open>wire_codec\<close>, the contract between a writer
  and the reader of the same field.
\<close>

record buffer =
  buf_data :: bytes
  buf_pointer :: nat

type_synonym 'a io = "buffer \<Rightarrow> 'a res \<times> buffer"

definition ret :: "'a \<Rightarrow> 'a io" where
  "ret x b = (Ok x, b)"

definition fail :: "gerror \<Rightarrow> 'a io" where
  "fail e b = (Err e, b)"

definition bind_io :: "'a io \<Rightarrow> ('a \<Rightarrow> 'b io) \<Rightarrow> 'b io" where
  "bind_io m f b =
     (case m b of
        (Ok x, b') \<Rightarrow> f x b'
      | (Err e, b') \<Rightarrow> (Err e, b')
      | (Panic, b') \<Rightarrow> (Panic, b'))"

text \<open>\<open>wrap_err g m\<close>: \<^verbatim>\<open>if err != nil { return g(err) }\<close>.\<close>

definition wrap_err :: "(gerror \<Rightarrow> gerror) \<Rightarrow> 'a io \<Rightarrow> 'a io" where
  "wrap_err g m b =
     (case m b of
        (Ok x, b') \<Rightarrow> (Ok x, b')
      | (Err e, b') \<Rightarrow> (Err (g e), b')
      | (Panic, b') \<Rightarrow> (Panic, b'))"

subsection \<open>Construction and the cursor\<close>

definition NewBuffer :: "nat \<Rightarrow> buffer" where
  "NewBuffer n = \<lparr>buf_data = replicate n 0, buf_pointer = 0\<rparr>"

definition NewBufferFromBytes :: "bytes \<Rightarrow> buffer" where
  "NewBufferFromBytes bs = \<lparr>buf_data = bs, buf_pointer = 0\<rparr>"

definition Pos :: "nat io" where
  "Pos b = (Ok (buf_pointer b), b)"

definition SetPos :: "int \<Rightarrow> buffer \<Rightarrow> buffer" where
  "SetPos pos b =
     (let p = (if pos < 0 then 0 else pos) in
      b\<lparr>buf_pointer := (if p > int (length (buf_data b)) then length (buf_data b) else nat p)\<rparr>)"

definition Remaining :: "buffer \<Rightarrow> nat" where
  "Remaining b =
     (if buf_pointer b \<ge> length (buf_data b) then 0 else length (buf_data b) - buf_pointer b)"

lemma Remaining_eq: "Remaining b = length (buf_data b) - buf_pointer b"
  by (simp add: Remaining_def)

definition require :: "nat \<Rightarrow> unit io" where
  "require n b =
     (if buf_pointer b + n > length (buf_data b) then (Err ErrOutOfBounds, b) else (Ok (), b))"

subsection \<open>Fixed-width integers\<close>

text \<open>
  \<open>peek\<close> and \<open>poke\<close> are the slice accesses \<^verbatim>\<open>b.data[b.pointer:]\<close> together with the
  cursor advance that follows them; the source only reaches them after \<open>require\<close>.
\<close>

definition peek :: "nat \<Rightarrow> bytes io" where
  "peek n b = (Ok (take n (drop (buf_pointer b) (buf_data b))), b\<lparr>buf_pointer := buf_pointer b + n\<rparr>)"

definition overwrite :: "bytes \<Rightarrow> nat \<Rightarrow> bytes \<Rightarrow> bytes" where
  "overwrite d p src = take p d @ src @ drop (p + length src) d"

definition poke :: "bytes \<Rightarrow> unit io" where
  "poke src b = (Ok (), b\<lparr>buf_data := overwrite (buf_data b) (buf_pointer b) src,
                          buf_pointer := buf_pointer b + length src\<rparr>)"

definition GetUInt8 :: "u8 io" where
  "GetUInt8 = bind_io (require 1) (\<lambda>_. bind_io (peek 1) (\<lambda>bs. ret (le_get bs)))"

definition PutUInt8 :: "u8 \<Rightarrow> unit io" where
  "PutUInt8 n = bind_io (require 1) (\<lambda>_. poke (le_put 1 n))"

definition GetUInt16LE :: "u16 io" where
  "GetUInt16LE = bind_io (require 2) (\<lambda>_. bind_io (peek 2) (\<lambda>bs. ret (le_get bs)))"

definition PutUInt16LE :: "u16 \<Rightarrow> unit io" where
  "PutUInt16LE n = bind_io (require 2) (\<lambda>_. poke (le_put 2 n))"

definition GetUInt32LE :: "u32 io" where
  "GetUInt32LE = bind_io (require 4) (\<lambda>_. bind_io (peek 4) (\<lambda>bs. ret (le_get bs)))"

definition PutUInt32LE :: "u32 \<Rightarrow> unit io" where
  "PutUInt32LE n = bind_io (require 4) (\<lambda>_. poke (le_put 4 n))"

text \<open>The 64-bit read is assembled from two 32-bit halves, as the source does.\<close>

definition GetUInt64LE :: "u64 io" where
  "GetUInt64LE =
     bind_io (require 8) (\<lambda>_.
     bind_io (peek 4) (\<lambda>los.
     bind_io (peek 4) (\<lambda>his.
       let lo = (le_get los :: u32); hi = (le_get his :: u32)
       in ret (ucast lo + ucast hi * 0x100000000))))"

definition PutUInt64LE :: "u64 \<Rightarrow> unit io" where
  "PutUInt64LE n = bind_io (require 8) (\<lambda>_. poke (le_put 8 n))"

subsection \<open>Byte runs and strings\<close>

text \<open>
  \<open>Get n\<close> truncates to what is left; a cursor past the end or a negative length makes
  the slice expression panic. \<open>GetAll\<close> is \<open>Get()\<close> without an argument.
\<close>

definition Get :: "int \<Rightarrow> bytes io" where
  "Get n b =
     (if n = 0 then (Ok [], b)
      else let e = int (buf_pointer b) + n;
               e = (if e > int (length (buf_data b)) then int (length (buf_data b)) else e)
           in if e < int (buf_pointer b) then (Panic, b)
              else (Ok (take (nat e - buf_pointer b) (drop (buf_pointer b) (buf_data b))),
                    b\<lparr>buf_pointer := nat e\<rparr>))"

definition GetAll :: "bytes io" where
  "GetAll b =
     (if buf_pointer b > length (buf_data b) then (Panic, b)
      else (Ok (drop (buf_pointer b) (buf_data b)), b\<lparr>buf_pointer := length (buf_data b)\<rparr>))"

definition GetStringN :: "int \<Rightarrow> bytes io" where
  "GetStringN l b = (if l < 0 \<or> int (Remaining b) < l then (Err ErrOutOfBounds, b) else Get l b)"

definition GetString :: "bytes io" where
  "GetString = bind_io GetUInt16LE (\<lambda>v. GetStringN (int (unat v)))"

definition PutString :: "bytes \<Rightarrow> unit io" where
  "PutString s =
     bind_io (PutUInt16LE (of_nat (length s))) (\<lambda>_.
     bind_io (require (length s)) (\<lambda>_. poke s))"

definition PutBuffer :: "bytes \<Rightarrow> unit io" where
  "PutBuffer src b =
     (if buf_pointer b > length (buf_data b) then (Panic, b)
      else poke (take (length (buf_data b) - buf_pointer b) src) b)"

definition PutHash :: "bytes \<Rightarrow> unit io" where
  "PutHash hash = (if length hash \<noteq> 16 then fail ErrInvalidHashLength else PutBuffer hash)"

subsection \<open>Reading safely\<close>

definition wf_buf :: "buffer \<Rightarrow> bool" where
  "wf_buf b \<longleftrightarrow> buf_pointer b \<le> length (buf_data b)"

definition safe :: "'a io \<Rightarrow> bool" where
  "safe m \<longleftrightarrow> (\<forall>b. wf_buf b \<longrightarrow>
     fst (m b) \<noteq> Panic \<and> wf_buf (snd (m b)) \<and>
     buf_data (snd (m b)) = buf_data b \<and> buf_pointer b \<le> buf_pointer (snd (m b)))"

definition consumes :: "nat \<Rightarrow> 'a io \<Rightarrow> bool" where
  "consumes k m \<longleftrightarrow> (\<forall>b v b'. wf_buf b \<longrightarrow> m b = (Ok v, b') \<longrightarrow> buf_pointer b + k \<le> buf_pointer b')"

named_theorems safe_intros \<open>a reader is safe\<close>
named_theorems consumes_intros \<open>how much a reader consumes\<close>

lemma bind_io_cases:
  assumes "bind_io m f b = (r, b'')"
  obtains (ok) x b' where "m b = (Ok x, b')" "f x b' = (r, b'')"
    | (err) e where "m b = (Err e, b'')" "r = Err e"
    | (panic) "m b = (Panic, b'')" "r = Panic"
  using assms by (auto simp: bind_io_def split: prod.splits res.splits)

lemma bind_io_Ok:
  "bind_io m f b = (Ok y, b'') \<longleftrightarrow> (\<exists>x b'. m b = (Ok x, b') \<and> f x b' = (Ok y, b''))"
  by (auto simp: bind_io_def split: prod.splits res.splits)

lemma bind_io_ret [simp]: "bind_io (ret x) f = f x"
  by (rule ext) (simp add: bind_io_def ret_def)

text \<open>
  Evaluation of a reader on concrete bytes: the definitions in \<open>io_eval\<close>, with a weak
  congruence that keeps the simplifier out of a continuation until its argument is known.
\<close>

named_theorems io_eval \<open>unfolding readers on concrete bytes\<close>

lemmas [io_eval] = bind_io_def ret_def fail_def wrap_err_def require_def peek_def GetUInt8_def
  GetUInt16LE_def GetUInt32LE_def Pos_def NewBufferFromBytes_def Get_def GetStringN_def GetString_def
  Remaining_def

lemma bind_io_weak_cong: "m = m' \<Longrightarrow> bind_io m f = bind_io m' f"
  by simp

lemma safeI:
  assumes "\<And>b. wf_buf b \<Longrightarrow> fst (m b) \<noteq> Panic \<and> wf_buf (snd (m b)) \<and>
     buf_data (snd (m b)) = buf_data b \<and> buf_pointer b \<le> buf_pointer (snd (m b))"
  shows "safe m"
  using assms by (simp add: safe_def)

lemma safeD:
  assumes "safe m" "wf_buf b" "m b = (r, b')"
  shows "r \<noteq> Panic" "wf_buf b'" "buf_data b' = buf_data b" "buf_pointer b \<le> buf_pointer b'"
  using assms unfolding safe_def by force+

lemma safeD':
  assumes "safe m" "wf_buf b"
  shows "fst (m b) \<noteq> Panic \<and> buf_data (snd (m b)) = buf_data b \<and> buf_pointer b \<le> buf_pointer (snd (m b))
    \<and> buf_pointer (snd (m b)) \<le> length (buf_data b)"
  using assms unfolding safe_def wf_buf_def by force

lemma safe_ret [safe_intros]: "safe (ret x)"
  by (simp add: safe_def ret_def)

lemma safe_fail [safe_intros]: "safe (fail e)"
  by (simp add: safe_def fail_def)

lemma safe_bind:
  assumes "safe m" "\<And>x b b'. wf_buf b \<Longrightarrow> m b = (Ok x, b') \<Longrightarrow> safe (f x)"
  shows "safe (bind_io m f)"
proof (rule safeI)
  fix b assume wf: "wf_buf b"
  obtain r b'' where r: "bind_io m f b = (r, b'')" by fastforce
  then show "fst (bind_io m f b) \<noteq> Panic \<and> wf_buf (snd (bind_io m f b)) \<and>
     buf_data (snd (bind_io m f b)) = buf_data b \<and> buf_pointer b \<le> buf_pointer (snd (bind_io m f b))"
  proof (cases rule: bind_io_cases)
    case (ok x b')
    note m = safeD [OF assms(1) wf ok(1)]
    have "safe (f x)" using assms(2) wf ok(1) by blast
    note f = safeD [OF this m(2) ok(2)]
    show ?thesis using m f r by auto
  next
    case (err e)
    then show ?thesis using safeD [OF assms(1) wf err(1)] r by auto
  next
    case panic
    then show ?thesis using safeD [OF assms(1) wf panic(1)] by auto
  qed
qed

lemma safe_bind_io [safe_intros]: "safe m \<Longrightarrow> (\<And>x. safe (f x)) \<Longrightarrow> safe (bind_io m f)"
  by (rule safe_bind)

lemma safe_wrap_err [safe_intros]: "safe m \<Longrightarrow> safe (wrap_err g m)"
  unfolding safe_def wrap_err_def by (simp add: case_prod_beta split: res.splits) blast

lemma safe_if [safe_intros]: "(c \<Longrightarrow> safe m) \<Longrightarrow> (\<not> c \<Longrightarrow> safe m') \<Longrightarrow> safe (if c then m else m')"
  by simp

lemma safe_Let [safe_intros]: "safe (f x) \<Longrightarrow> safe (Let x f)"
  by simp

text \<open>A bounds check followed by a slice access of that length is safe as a whole.\<close>

lemma require_Ok [simp]:
  "require n b = (Ok u, b') \<longleftrightarrow> b' = b \<and> buf_pointer b + n \<le> length (buf_data b)"
  by (auto simp: require_def)

lemma safe_require [safe_intros]: "safe (require n)"
  by (simp add: safe_def require_def)

lemma safe_require_peek:
  assumes "\<And>x. safe (f x)"
  shows "safe (bind_io (require n) (\<lambda>_. bind_io (peek n) f))"
proof (rule safeI)
  fix b :: buffer
  let ?m = "bind_io (require n) (\<lambda>_. bind_io (peek n) f)"
  assume wf: "wf_buf b"
  show "fst (?m b) \<noteq> Panic \<and> wf_buf (snd (?m b)) \<and>
     buf_data (snd (?m b)) = buf_data b \<and> buf_pointer b \<le> buf_pointer (snd (?m b))"
  proof (cases "buf_pointer b + n > length (buf_data b)")
    case True
    then show ?thesis using wf by (simp add: bind_io_def require_def)
  next
    case False
    let ?b = "b\<lparr>buf_pointer := buf_pointer b + n\<rparr>"
    let ?x = "take n (drop (buf_pointer b) (buf_data b))"
    have "wf_buf ?b" using False by (simp add: wf_buf_def)
    moreover have "?m b = f ?x ?b" using False by (simp add: bind_io_def require_def peek_def)
    ultimately show ?thesis
      using safeD [OF assms, of ?b ?x "fst (f ?x ?b)" "snd (f ?x ?b)"] by simp
  qed
qed

lemma safe_GetUInt8 [safe_intros]: "safe GetUInt8"
  unfolding GetUInt8_def by (intro safe_require_peek safe_intros)

lemma safe_GetUInt16LE [safe_intros]: "safe GetUInt16LE"
  unfolding GetUInt16LE_def by (intro safe_require_peek safe_intros)

lemma safe_GetUInt32LE [safe_intros]: "safe GetUInt32LE"
  unfolding GetUInt32LE_def by (intro safe_require_peek safe_intros)

lemma safe_Pos [safe_intros]: "safe Pos"
  by (simp add: safe_def Pos_def)

lemma GetUInt64LE_unfold:
  "GetUInt64LE = bind_io (require 8) (\<lambda>_. bind_io (peek 8) (\<lambda>bs.
     ret (ucast (le_get (take 4 bs) :: u32) + ucast (le_get (drop 4 bs) :: u32) * 0x100000000)))"
proof
  fix b :: buffer
  have "take 4 (drop (4 + buf_pointer b) (buf_data b)) = drop 4 (take 8 (drop (buf_pointer b) (buf_data b)))"
    by (simp add: drop_take add.commute)
  then show "GetUInt64LE b = bind_io (require 8) (\<lambda>_. bind_io (peek 8) (\<lambda>bs.
     ret (ucast (le_get (take 4 bs) :: u32) + ucast (le_get (drop 4 bs) :: u32) * 0x100000000))) b"
    by (simp add: GetUInt64LE_def bind_io_def require_def peek_def ret_def Let_def add.commute)
qed

lemma safe_GetUInt64LE [safe_intros]: "safe GetUInt64LE"
  unfolding GetUInt64LE_unfold by (intro safe_require_peek safe_intros)

lemma safe_Get [safe_intros]: "0 \<le> n \<Longrightarrow> safe (Get n)"
  by (rule safeI) (auto simp: Get_def wf_buf_def Let_def)

lemma safe_GetAll [safe_intros]: "safe GetAll"
  by (rule safeI) (auto simp: GetAll_def wf_buf_def)

lemma safe_GetStringN [safe_intros]: "safe (GetStringN n)"
  by (rule safeI) (auto simp: GetStringN_def Get_def wf_buf_def Let_def)

lemma safe_GetString [safe_intros]: "safe GetString"
  unfolding GetString_def by (intro safe_intros)

subsection \<open>How much a successful read consumes\<close>

lemma consumesD: "consumes k m \<Longrightarrow> wf_buf b \<Longrightarrow> m b = (Ok v, b') \<Longrightarrow> buf_pointer b + k \<le> buf_pointer b'"
  by (simp add: consumes_def)

lemma consumes_safe: "safe m \<Longrightarrow> consumes 0 m"
  unfolding consumes_def using safeD(4) by fastforce

lemma consumes_mono: "consumes k m \<Longrightarrow> j \<le> k \<Longrightarrow> consumes j m"
  unfolding consumes_def by fastforce

lemma consumes_bind:
  assumes "safe m" "consumes k m" "\<And>x. consumes l (f x)"
  shows "consumes (k + l) (bind_io m f)"
  unfolding consumes_def
proof (intro allI impI)
  fix b v b''
  assume wf: "wf_buf b" and "bind_io m f b = (Ok v, b'')"
  then obtain x b' where m: "m b = (Ok x, b')" and f: "f x b' = (Ok v, b'')"
    by (auto simp: bind_io_Ok)
  have "buf_pointer b + k \<le> buf_pointer b'" using consumesD [OF assms(2) wf m] .
  moreover have "buf_pointer b' + l \<le> buf_pointer b''"
    using consumesD [OF assms(3) safeD(2) [OF assms(1) wf m] f] .
  ultimately show "buf_pointer b + (k + l) \<le> buf_pointer b''" by simp
qed

lemma consumes_bind_head:
  assumes "safe m" "consumes k m" "\<And>x. safe (f x)"
  shows "consumes k (bind_io m f)"
  using consumes_bind [OF assms(1,2) consumes_safe [OF assms(3)]] by simp

lemma consumes_fail [consumes_intros]: "consumes k (fail e)"
  by (simp add: consumes_def fail_def)

lemma wrap_err_Ok [simp]: "wrap_err g m b = (Ok v, b') \<longleftrightarrow> m b = (Ok v, b')"
  by (simp add: wrap_err_def split: prod.splits res.splits)

lemma consumes_wrap_err [consumes_intros]: "consumes k m \<Longrightarrow> consumes k (wrap_err g m)"
  by (simp add: consumes_def)

lemma consumes_if [consumes_intros]:
  "(c \<Longrightarrow> consumes k m) \<Longrightarrow> (\<not> c \<Longrightarrow> consumes k m') \<Longrightarrow> consumes k (if c then m else m')"
  by simp

lemma consumes_require_peek:
  assumes "\<And>x. safe (f x)"
  shows "consumes n (bind_io (require n) (\<lambda>_. bind_io (peek n) f))"
  unfolding consumes_def
proof (intro allI impI)
  fix b v b'
  assume "bind_io (require n) (\<lambda>_. bind_io (peek n) f) b = (Ok v, b')"
  then have wf: "wf_buf (b\<lparr>buf_pointer := buf_pointer b + n\<rparr>)"
    and f: "f (take n (drop (buf_pointer b) (buf_data b))) (b\<lparr>buf_pointer := buf_pointer b + n\<rparr>) = (Ok v, b')"
    by (auto simp: bind_io_Ok peek_def wf_buf_def)
  show "buf_pointer b + n \<le> buf_pointer b'" using safeD(4) [OF assms wf f] by simp
qed

lemma consumes_GetUInt8 [consumes_intros]: "consumes 1 GetUInt8"
  unfolding GetUInt8_def by (intro consumes_require_peek safe_intros)

lemma consumes_GetUInt16LE [consumes_intros]: "consumes 2 GetUInt16LE"
  unfolding GetUInt16LE_def by (intro consumes_require_peek safe_intros)

lemma consumes_GetUInt32LE [consumes_intros]: "consumes 4 GetUInt32LE"
  unfolding GetUInt32LE_def by (intro consumes_require_peek safe_intros)

subsection \<open>Exactly which bytes a read accepts and a write produces\<close>

abbreviation buf_at :: "bytes \<Rightarrow> bytes \<Rightarrow> buffer" where
  "buf_at pre rest \<equiv> \<lparr>buf_data = pre @ rest, buf_pointer = length pre\<rparr>"

definition reads :: "'a io \<Rightarrow> bytes \<Rightarrow> 'a \<Rightarrow> bool" where
  "reads m xs v \<longleftrightarrow> (\<forall>pre post. m (buf_at pre (xs @ post)) = (Ok v, buf_at (pre @ xs) post))"

definition emits :: "unit io \<Rightarrow> bytes \<Rightarrow> bool" where
  "emits m xs \<longleftrightarrow> (\<forall>pre hole post. length hole = length xs \<longrightarrow>
     m (buf_at pre (hole @ post)) = (Ok (), buf_at (pre @ xs) post))"

named_theorems reads_intros \<open>the bytes a reader accepts\<close>
named_theorems emits_intros \<open>the bytes a writer produces\<close>

lemma readsD: "reads m xs v \<Longrightarrow> m (buf_at pre (xs @ post)) = (Ok v, buf_at (pre @ xs) post)"
  unfolding reads_def by blast

lemma emitsD:
  "emits m xs \<Longrightarrow> length hole = length xs \<Longrightarrow>
   m (buf_at pre (hole @ post)) = (Ok (), buf_at (pre @ xs) post)"
  unfolding emits_def by blast

lemma reads_ret [reads_intros]: "reads (ret v) [] v"
  by (simp add: reads_def ret_def)

lemma reads_bind [reads_intros]:
  assumes "reads m xs v" "reads (f v) ys w"
  shows "reads (bind_io m f) (xs @ ys) w"
  unfolding reads_def
proof (intro allI)
  fix pre post
  have "m (buf_at pre (xs @ ys @ post)) = (Ok v, buf_at (pre @ xs) (ys @ post))"
    by (rule readsD [OF assms(1)])
  moreover have "f v (buf_at (pre @ xs) (ys @ post)) = (Ok w, buf_at ((pre @ xs) @ ys) post)"
    by (rule readsD [OF assms(2)])
  ultimately show "bind_io m f (buf_at pre ((xs @ ys) @ post)) = (Ok w, buf_at (pre @ xs @ ys) post)"
    by (simp add: bind_io_def)
qed

text \<open>Where the cursor stands only shows in error values, so it may be read in between.\<close>

lemma reads_bind_Pos [reads_intros]: "(\<And>p. reads (f p) xs v) \<Longrightarrow> reads (bind_io Pos f) xs v"
  by (simp add: reads_def bind_io_def Pos_def)

lemma reads_wrap_err [reads_intros]: "reads m xs v \<Longrightarrow> reads (wrap_err g m) xs v"
  by (simp add: reads_def wrap_err_def)

lemma emits_ret [emits_intros]: "emits (ret ()) []"
  by (simp add: emits_def ret_def)

lemma emits_bind [emits_intros]:
  assumes "emits m xs" "emits m' ys"
  shows "emits (bind_io m (\<lambda>_. m')) (xs @ ys)"
  unfolding emits_def
proof (intro allI impI)
  fix pre hole post :: bytes
  assume len: "length hole = length (xs @ ys)"
  define h1 h2 where "h1 = take (length xs) hole" and "h2 = drop (length xs) hole"
  then have h: "hole = h1 @ h2" "length h1 = length xs" "length h2 = length ys"
    using len by auto
  have "m (buf_at pre (h1 @ h2 @ post)) = (Ok (), buf_at (pre @ xs) (h2 @ post))"
    by (rule emitsD [OF assms(1) h(2)])
  moreover have "m' (buf_at (pre @ xs) (h2 @ post)) = (Ok (), buf_at ((pre @ xs) @ ys) post)"
    by (rule emitsD [OF assms(2) h(3)])
  ultimately show "bind_io m (\<lambda>_. m') (buf_at pre (hole @ post)) = (Ok (), buf_at (pre @ xs @ ys) post)"
    by (simp add: bind_io_def h(1))
qed

lemma reads_require_peek:
  "reads (bind_io (require (length xs)) (\<lambda>_. bind_io (peek (length xs)) (\<lambda>bs. ret (f bs)))) xs (f xs)"
  by (simp add: reads_def bind_io_def require_def peek_def ret_def)

lemma emits_require_poke: "emits (bind_io (require (length xs)) (\<lambda>_. poke xs)) xs"
  by (simp add: emits_def bind_io_def require_def poke_def overwrite_def)

lemma reads_LE:
  fixes n :: "'a::len word"
  assumes "LENGTH('a) = 8 * k"
  shows "reads (bind_io (require k) (\<lambda>_. bind_io (peek k) (\<lambda>bs. ret (le_get bs)))) (le_put k n) n"
  using reads_require_peek [of "le_put k n" "le_get :: bytes \<Rightarrow> 'a word"] assms by (simp add: le_get_put)

lemma reads_GetUInt8 [reads_intros]: "reads GetUInt8 (le_put 1 n) n"
  unfolding GetUInt8_def by (rule reads_LE) simp

lemma reads_GetUInt16LE [reads_intros]: "reads GetUInt16LE (le_put 2 n) n"
  unfolding GetUInt16LE_def by (rule reads_LE) simp

lemma reads_GetUInt32LE [reads_intros]: "reads GetUInt32LE (le_put 4 n) n"
  unfolding GetUInt32LE_def by (rule reads_LE) simp

text \<open>Reading the two 32-bit halves gives the 64-bit little-endian value.\<close>

lemma GetUInt64LE_eq:
  "GetUInt64LE = bind_io (require 8) (\<lambda>_. bind_io (peek 8) (\<lambda>bs. ret (le_get bs)))"
proof
  fix b :: buffer
  show "GetUInt64LE b = bind_io (require 8) (\<lambda>_. bind_io (peek 8) (\<lambda>bs. ret (le_get bs))) b"
  proof (cases "buf_pointer b + 8 > length (buf_data b)")
    case True
    then show ?thesis by (simp add: GetUInt64LE_unfold bind_io_def require_def)
  next
    case False
    define bs where "bs = take 8 (drop (buf_pointer b) (buf_data b))"
    with False have "length bs = 8" by simp
    then have "ucast (le_get (take 4 bs) :: u32) + ucast (le_get (drop 4 bs) :: u32) * 0x100000000 = (le_get bs :: u64)"
      by (rule le_get_halves)
    with False show ?thesis
      by (simp add: GetUInt64LE_unfold bind_io_def require_def peek_def ret_def del: take_take flip: bs_def)
  qed
qed

lemma reads_GetUInt64LE [reads_intros]: "reads GetUInt64LE (le_put 8 n) n"
  unfolding GetUInt64LE_eq by (rule reads_LE) simp

lemma emits_PutUInt8 [emits_intros]: "emits (PutUInt8 n) (le_put 1 n)"
  using emits_require_poke [of "le_put 1 n"] by (simp add: PutUInt8_def)

lemma emits_PutUInt16LE [emits_intros]: "emits (PutUInt16LE n) (le_put 2 n)"
  using emits_require_poke [of "le_put 2 n"] by (simp add: PutUInt16LE_def)

lemma emits_PutUInt32LE [emits_intros]: "emits (PutUInt32LE n) (le_put 4 n)"
  using emits_require_poke [of "le_put 4 n"] by (simp add: PutUInt32LE_def)

lemma emits_PutUInt64LE [emits_intros]: "emits (PutUInt64LE n) (le_put 8 n)"
  using emits_require_poke [of "le_put 8 n"] by (simp add: PutUInt64LE_def)

lemma reads_Get [reads_intros]: "reads (Get (int (length xs))) xs xs"
  by (cases "xs = []") (simp_all add: reads_def Get_def Let_def nat_add_distrib)

lemma reads_Get16 [reads_intros]: "length h = 16 \<Longrightarrow> reads (Get 16) h h"
  using reads_Get [of h] by simp

lemma reads_GetStringN [reads_intros]: "reads (GetStringN (int (length xs))) xs xs"
  using reads_Get [of xs] by (simp add: reads_def GetStringN_def Remaining_def)

definition enc_string :: "bytes \<Rightarrow> bytes" where
  "enc_string s = le_put 2 (of_nat (length s) :: u16) @ s"

lemma reads_GetString [reads_intros]:
  assumes "length s < 2 ^ 16"
  shows "reads GetString (enc_string s) s"
  unfolding GetString_def enc_string_def
  by (rule reads_bind [OF reads_GetUInt16LE])
    (use reads_GetStringN [of s] assms in \<open>simp add: unat_of_nat_lt\<close>)

text \<open>
  \<open>PutString\<close> writes the low 16 bits of the length and then every byte: the bytes it
  produces are those of \<open>enc_string\<close> whatever the length, but only a string shorter
  than 65536 bytes can be read back.
\<close>

lemma emits_PutString [emits_intros]: "emits (PutString s) (enc_string s)"
  unfolding PutString_def enc_string_def
  by (intro emits_bind emits_PutUInt16LE emits_require_poke)

lemma emits_PutBuffer: "emits (PutBuffer xs) xs"
  by (auto simp: emits_def PutBuffer_def poke_def overwrite_def)

lemma emits_PutHash [emits_intros]: "length h = 16 \<Longrightarrow> emits (PutHash h) h"
  using emits_PutBuffer [of h] by (simp add: PutHash_def)

subsection \<open>The contract between a writer and its reader\<close>

text \<open>
  A field of the protocol is written by one function and read by another. The contract:
  on a value the field can carry (\<open>ok\<close>) the writer produces exactly \<open>enc v\<close>, and the
  reader, at those bytes, returns \<open>view v\<close> and stops right behind them. Everything a
  client needs about round trips and about sequences of fields follows from it once.
\<close>

locale wire_codec =
  fixes put :: "'a \<Rightarrow> unit io"
    and get :: "'b io"
    and enc :: "'a \<Rightarrow> bytes"
    and view :: "'a \<Rightarrow> 'b"
    and ok :: "'a \<Rightarrow> bool"
  assumes put_emits: "ok v \<Longrightarrow> emits (put v) (enc v)"
    and get_reads: "ok v \<Longrightarrow> reads get (enc v) (view v)"
begin

lemma put_get:
  assumes "ok v" and "length hole = length (enc v)"
  shows "\<exists>b. put v (buf_at pre (hole @ post)) = (Ok (), b)
    \<and> buf_pointer b = length pre + length (enc v)
    \<and> get (b\<lparr>buf_pointer := length pre\<rparr>) = (Ok (view v), b)"
proof -
  have w: "put v (buf_at pre (hole @ post)) = (Ok (), buf_at (pre @ enc v) post)"
    using emitsD [OF put_emits [OF assms(1)] assms(2)] .
  have r: "get (buf_at pre (enc v @ post)) = (Ok (view v), buf_at (pre @ enc v) post)"
    using readsD [OF get_reads [OF assms(1)]] .
  show ?thesis using r by (simp add: w)
qed

lemma enc_view_unique:
  assumes "ok v" "ok w" "enc v = enc w"
  shows "view v = view w"
  using readsD [OF get_reads [OF assms(1)], of "[]" "[]"]
    readsD [OF get_reads [OF assms(2)], of "[]" "[]"] assms(3) by simp

end

interpretation codec_u8: wire_codec PutUInt8 GetUInt8 "le_put 1" "\<lambda>n. n" "\<lambda>_. True"
  by unfold_locales (rule emits_intros reads_intros)+

interpretation codec_u16: wire_codec PutUInt16LE GetUInt16LE "le_put 2" "\<lambda>n. n" "\<lambda>_. True"
  by unfold_locales (rule emits_intros reads_intros)+

interpretation codec_u32: wire_codec PutUInt32LE GetUInt32LE "le_put 4" "\<lambda>n. n" "\<lambda>_. True"
  by unfold_locales (rule emits_intros reads_intros)+

interpretation codec_u64: wire_codec PutUInt64LE GetUInt64LE "le_put 8" "\<lambda>n. n" "\<lambda>_. True"
  by unfold_locales (rule emits_intros reads_intros)+

interpretation codec_string: wire_codec PutString GetString enc_string "\<lambda>s. s" "\<lambda>s. length s < 2 ^ 16"
  by unfold_locales (auto intro: emits_intros reads_intros)

interpretation codec_hash: wire_codec PutHash "Get 16" "\<lambda>h. h" "\<lambda>h. h" "\<lambda>h. length h = 16"
  by unfold_locales (auto intro: emits_intros reads_intros)

end
