(* ===== verification/Wire_Constants.thy ===== *)
theory Wire_Constants
  imports Wire_Prelude
begin

section \<open>Protocol constants (ed2k/constants.go)\<close>

text \<open>
  The protocol bytes, opcodes, tag types, tag codes, flags and packet states, in the order
  and at the width of the source. They unfold by simplification.
\<close>

definition PrED2K :: u8 where [simp]: "PrED2K = 0xe3"
definition PrEMule :: u8 where [simp]: "PrEMule = 0xc5"
definition PrZlib :: u8 where [simp]: "PrZlib = 0xd4"
definition PrNat :: u8 where [simp]: "PrNat = 0xf1"
definition PrKad :: u8 where [simp]: "PrKad = 0xe4"
definition PrKadZlib :: u8 where [simp]: "PrKadZlib = 0xe5"
definition OpLoginRequest :: u8 where [simp]: "OpLoginRequest = 0x01"
definition OpHello :: u8 where [simp]: "OpHello = 0x01"
definition OpHelloAnswer :: u8 where [simp]: "OpHelloAnswer = 0x4c"
definition OpServerMessage :: u8 where [simp]: "OpServerMessage = 0x38"
definition OpServerStatus :: u8 where [simp]: "OpServerStatus = 0x34"
definition OpIDChange :: u8 where [simp]: "OpIDChange = 0x40"
definition OpGetServerList :: u8 where [simp]: "OpGetServerList = 0x14"
definition OpOfferFiles :: u8 where [simp]: "OpOfferFiles = 0x15"
definition OpServerList :: u8 where [simp]: "OpServerList = 0x32"
definition OpServerIdent :: u8 where [simp]: "OpServerIdent = 0x41"
definition OpGetSources :: u8 where [simp]: "OpGetSources = 0x19"
definition OpFoundSources :: u8 where [simp]: "OpFoundSources = 0x42"
definition OpSearchRequest :: u8 where [simp]: "OpSearchRequest = 0x16"
definition OpSearchResult :: u8 where [simp]: "OpSearchResult = 0x33"
definition OpCallbackRequest :: u8 where [simp]: "OpCallbackRequest = 0x1c"
definition OpCallbackReqd :: u8 where [simp]: "OpCallbackReqd = 0x35"
definition OpCallbackFailed :: u8 where [simp]: "OpCallbackFailed = 0x36"
definition OpGetSourcesObfu :: u8 where [simp]: "OpGetSourcesObfu = 0x23"
definition OpFoundSourcesObfu :: u8 where [simp]: "OpFoundSourcesObfu = 0x44"
definition OpGlobSearchReq3 :: u8 where [simp]: "OpGlobSearchReq3 = 0x90"
definition OpGlobSearchReq2 :: u8 where [simp]: "OpGlobSearchReq2 = 0x92"
definition OpGlobGetSources2 :: u8 where [simp]: "OpGlobGetSources2 = 0x94"
definition OpGlobServStatReq :: u8 where [simp]: "OpGlobServStatReq = 0x96"
definition OpGlobServStatRes :: u8 where [simp]: "OpGlobServStatRes = 0x97"
definition OpGlobSearchReq :: u8 where [simp]: "OpGlobSearchReq = 0x98"
definition OpGlobSearchRes :: u8 where [simp]: "OpGlobSearchRes = 0x99"
definition OpGlobGetSources :: u8 where [simp]: "OpGlobGetSources = 0x9a"
definition OpGlobFoundSources :: u8 where [simp]: "OpGlobFoundSources = 0x9b"
definition OpServerDescReq :: u8 where [simp]: "OpServerDescReq = 0xa2"
definition OpServerDescRes :: u8 where [simp]: "OpServerDescRes = 0xa3"
definition OpDisconnect :: u8 where [simp]: "OpDisconnect = 0x18"
definition OpQueryMoreResult :: u8 where [simp]: "OpQueryMoreResult = 0x21"
definition OpServerListReq :: u8 where [simp]: "OpServerListReq = 0xa0"
definition OpServerListRes :: u8 where [simp]: "OpServerListRes = 0xa1"
definition OpServerListReq2 :: u8 where [simp]: "OpServerListReq2 = 0xa4"
definition OpServerListReqIPv6 :: u8 where [simp]: "OpServerListReqIPv6 = 0xa7"
definition OpServerListResIPv6 :: u8 where [simp]: "OpServerListResIPv6 = 0xa8"
definition OpGetSourcesIPv6 :: u8 where [simp]: "OpGetSourcesIPv6 = 0x24"
definition OpFoundSourcesIPv6 :: u8 where [simp]: "OpFoundSourcesIPv6 = 0x25"
definition OpGlobGetSourcesIPv6 :: u8 where [simp]: "OpGlobGetSourcesIPv6 = 0xa5"
definition OpGlobFoundSourcesIPv6 :: u8 where [simp]: "OpGlobFoundSourcesIPv6 = 0xa6"
definition OpNatCallbackRequest :: u8 where [simp]: "OpNatCallbackRequest = 0xa6"
definition OpNatCallbackRequestedUDP :: u8 where [simp]: "OpNatCallbackRequestedUDP = 0xa7"
definition OpNatCallbackRequested :: u8 where [simp]: "OpNatCallbackRequested = 0x37"
definition OpNatKeepalive :: u8 where [simp]: "OpNatKeepalive = 0x9f"
definition OpNatWake :: u8 where [simp]: "OpNatWake = 0x46"
definition OpCallbackReqdIPv6 :: u8 where [simp]: "OpCallbackReqdIPv6 = 0x26"
definition SentinelIPv6ID :: u32 where [simp]: "SentinelIPv6ID = 0xffffffff"
definition OpNatSync :: u8 where [simp]: "OpNatSync = 0xe1"
definition OpNatPing :: u8 where [simp]: "OpNatPing = 0xe2"
definition OpNatRegisterEx :: u8 where [simp]: "OpNatRegisterEx = 0xe3"
definition OpNatRegister :: u8 where [simp]: "OpNatRegister = 0xe4"
definition OpNatFailed :: u8 where [simp]: "OpNatFailed = 0xe5"
definition OpNatKeepAlive :: u8 where [simp]: "OpNatKeepAlive = 0xe6"
definition OpNatSyncEx :: u8 where [simp]: "OpNatSyncEx = 0xe7"
definition OpNatReping :: u8 where [simp]: "OpNatReping = 0xe8"
definition OpNatSync2 :: u8 where [simp]: "OpNatSync2 = 0xe9"
definition OpNatData :: u8 where [simp]: "OpNatData = 0xea"
definition OpNatAck :: u8 where [simp]: "OpNatAck = 0xeb"
definition OpNatRst :: u8 where [simp]: "OpNatRst = 0xef"
definition OpNatRegisterIPv6 :: u8 where [simp]: "OpNatRegisterIPv6 = 0xec"
definition OpNatSyncIPv6 :: u8 where [simp]: "OpNatSyncIPv6 = 0xed"
definition TypeHash :: u8 where [simp]: "TypeHash = 0x01"
definition TypeString :: u8 where [simp]: "TypeString = 0x02"
definition TypeUint32 :: u8 where [simp]: "TypeUint32 = 0x03"
definition TypeFloat :: u8 where [simp]: "TypeFloat = 0x04"
definition TypeBool :: u8 where [simp]: "TypeBool = 0x05"
definition TypeBoolArray :: u8 where [simp]: "TypeBoolArray = 0x06"
definition TypeBlob :: u8 where [simp]: "TypeBlob = 0x07"
definition TypeUint16 :: u8 where [simp]: "TypeUint16 = 0x08"
definition TypeUint8 :: u8 where [simp]: "TypeUint8 = 0x09"
definition TypeBsob :: u8 where [simp]: "TypeBsob = 0x0a"
definition TypeUint64 :: u8 where [simp]: "TypeUint64 = 0x0b"
definition TypeTags :: u8 where [simp]: "TypeTags = 0x0f"
definition PsNew :: nat where [simp]: "PsNew = 1"
definition PsReady :: nat where [simp]: "PsReady = 2"
definition PsWaitingData :: nat where [simp]: "PsWaitingData = 3"
definition PsCryptNegotiating :: nat where [simp]: "PsCryptNegotiating = 4"
definition MaxTCPPacketSize :: nat where [simp]: "MaxTCPPacketSize = 2000000"
definition CsNone :: nat where [simp]: "CsNone = 0"
definition CsUnknown :: nat where [simp]: "CsUnknown = 1"
definition CsNegotiating :: nat where [simp]: "CsNegotiating = 4"
definition CsEncrypting :: nat where [simp]: "CsEncrypting = 5"
definition TagName :: u8 where [simp]: "TagName = 0x01"
definition TagSize :: u8 where [simp]: "TagSize = 0x02"
definition TagType :: u8 where [simp]: "TagType = 0x03"
definition TagFormat :: u8 where [simp]: "TagFormat = 0x04"
definition TagVersion :: u8 where [simp]: "TagVersion = 0x11"
definition TagVersion2 :: u8 where [simp]: "TagVersion2 = 0x91"
definition TagPort :: u8 where [simp]: "TagPort = 0x0f"
definition TagDescription :: u8 where [simp]: "TagDescription = 0x0b"
definition TagDynIP :: u8 where [simp]: "TagDynIP = 0x85"
definition TagSources :: u8 where [simp]: "TagSources = 0x15"
definition TagCompleteSources :: u8 where [simp]: "TagCompleteSources = 0x30"
definition TagMuleVersion :: u8 where [simp]: "TagMuleVersion = 0xfb"
definition TagFlags :: u8 where [simp]: "TagFlags = 0x20"
definition TagRating :: u8 where [simp]: "TagRating = 0xf7"
definition TagSizeHi :: u8 where [simp]: "TagSizeHi = 0x3a"
definition TagMediaArtist :: u8 where [simp]: "TagMediaArtist = 0xd0"
definition TagMediaAlbum :: u8 where [simp]: "TagMediaAlbum = 0xd1"
definition TagMediaTitle :: u8 where [simp]: "TagMediaTitle = 0xd2"
definition TagMediaLength :: u8 where [simp]: "TagMediaLength = 0xd3"
definition TagMediaBitrate :: u8 where [simp]: "TagMediaBitrate = 0xd4"
definition TagMediaCodec :: u8 where [simp]: "TagMediaCodec = 0xd5"
definition TagSearchTree :: u8 where [simp]: "TagSearchTree = 0x0e"
definition TagEmuleUDPPorts :: u8 where [simp]: "TagEmuleUDPPorts = 0xf9"
definition TagEmuleOptions1 :: u8 where [simp]: "TagEmuleOptions1 = 0xfa"
definition TagEmuleOptions2 :: u8 where [simp]: "TagEmuleOptions2 = 0xfe"
definition TagAuxPortsList :: u8 where [simp]: "TagAuxPortsList = 0x93"
definition TagModVersion :: u8 where [simp]: "TagModVersion = 0x55"
definition TagModIPv6 :: u8 where [simp]: "TagModIPv6 = 0xae"
definition TagModSvrIPv6 :: u8 where [simp]: "TagModSvrIPv6 = 0xaf"
definition TagModYourIP :: u8 where [simp]: "TagModYourIP = 0xad"
definition TagNatPort :: u8 where [simp]: "TagNatPort = 0x9d"
definition TagIPv6Status :: u8 where [simp]: "TagIPv6Status = 0xab"
definition TagServerUDPFlags :: u8 where [simp]: "TagServerUDPFlags = 0x92"
definition TagNatToken :: u8 where [simp]: "TagNatToken = 0xac"
definition TagNatProof :: u8 where [simp]: "TagNatProof = 0xa9"
definition TagMetaAPIFingerprint :: u8 where [simp]: "TagMetaAPIFingerprint = 0x9c"
definition TagMetaAPI :: u8 where [simp]: "TagMetaAPI = 0x9e"
definition TagMetaAPIVersion :: u8 where [simp]: "TagMetaAPIVersion = 0x9f"
definition TagServerSearch :: u8 where [simp]: "TagServerSearch = 0xa0"
definition TagServerSearchFingerprint :: u8 where [simp]: "TagServerSearchFingerprint = 0xa1"
definition TagEd3k :: u8 where [simp]: "TagEd3k = 0xe3"
definition TagMetaKind :: u8 where [simp]: "TagMetaKind = 0x60"
definition TagMetaVersion :: u8 where [simp]: "TagMetaVersion = 0x61"
definition TagMetaFileIndex :: u8 where [simp]: "TagMetaFileIndex = 0x62"
definition TagMetaFilePath :: u8 where [simp]: "TagMetaFilePath = 0x63"
definition TagMetaTotalSize :: u8 where [simp]: "TagMetaTotalSize = 0x64"
definition TagMetaID :: u8 where [simp]: "TagMetaID = 0x65"
definition TagMetaSeeders :: u8 where [simp]: "TagMetaSeeders = 0x67"
definition TagMetaPeers :: u8 where [simp]: "TagMetaPeers = 0x68"
definition TagMetaAge :: u8 where [simp]: "TagMetaAge = 0x69"
definition TagMetaIndexer :: u8 where [simp]: "TagMetaIndexer = 0x6a"
definition TagMetaFlags :: u8 where [simp]: "TagMetaFlags = 0x6b"
definition TagMetaMagnet :: u8 where [simp]: "TagMetaMagnet = 0x6c"
definition TagMetaNetwork :: u8 where [simp]: "TagMetaNetwork = 0x6d"
definition MetaNetworkKad :: u8 where [simp]: "MetaNetworkKad = 3"
definition MetaNetworkWeb :: u8 where [simp]: "MetaNetworkWeb = 5"
definition IPv6StatusHave :: u8 where [simp]: "IPv6StatusHave = 0x01"
definition IPv6StatusReachable :: u8 where [simp]: "IPv6StatusReachable = 0x02"
definition IPv6StatusProbed :: u8 where [simp]: "IPv6StatusProbed = 0x04"
definition ValPartialID :: u32 where [simp]: "ValPartialID = 0xfcfcfcfc"
definition ValPartialPort :: u16 where [simp]: "ValPartialPort = 0xfcfc"
definition ValCompleteID :: u32 where [simp]: "ValCompleteID = 0xfbfbfbfb"
definition ValCompletePort :: u16 where [simp]: "ValCompletePort = 0xfbfb"
definition FlagZlib :: u32 where [simp]: "FlagZlib = 0x0001"
definition FlagIPInLogin :: u32 where [simp]: "FlagIPInLogin = 0x0002"
definition FlagAuxPort :: u32 where [simp]: "FlagAuxPort = 0x0004"
definition FlagNewTags :: u32 where [simp]: "FlagNewTags = 0x0008"
definition FlagUnicode :: u32 where [simp]: "FlagUnicode = 0x0010"
definition FlagRelatedSearch :: u32 where [simp]: "FlagRelatedSearch = 0x0040"
definition FlagLargeFiles :: u32 where [simp]: "FlagLargeFiles = 0x0100"
definition FlagSupportCrypt :: u32 where [simp]: "FlagSupportCrypt = 0x0200"
definition FlagRequestCrypt :: u32 where [simp]: "FlagRequestCrypt = 0x0400"
definition FlagRequireCrypt :: u32 where [simp]: "FlagRequireCrypt = 0x0800"
definition FlagUdpExtSources :: u32 where [simp]: "FlagUdpExtSources = 0x0001"
definition FlagUdpExtFiles :: u32 where [simp]: "FlagUdpExtFiles = 0x0002"
definition FlagUdpExtSrc2 :: u32 where [simp]: "FlagUdpExtSrc2 = 0x0020"
definition FlagUdpObfusc :: u32 where [simp]: "FlagUdpObfusc = 0x0200"
definition FlagTcpObfusc :: u32 where [simp]: "FlagTcpObfusc = 0x0400"
definition FlagIPv6 :: u32 where [simp]: "FlagIPv6 = 0x4000"
definition FlagNatCallback :: u32 where [simp]: "FlagNatCallback = 0x1000"
definition FlagNatRendezvous :: u32 where [simp]: "FlagNatRendezvous = 0x40000"
definition FlagNatWake :: u32 where [simp]: "FlagNatWake = 0x200000"
definition FlagForeignCallback :: u32 where [simp]: "FlagForeignCallback = 0x100000"
definition FlagMetaSearch :: u32 where [simp]: "FlagMetaSearch = 0x10000"
definition FlagServerSearch :: u32 where [simp]: "FlagServerSearch = 0x80000"
definition SrvCapMetaSearch :: u32 where [simp]: "SrvCapMetaSearch = 0x10000"
definition SrvCapUDPMetaSearch :: u32 where [simp]: "SrvCapUDPMetaSearch = 0x02"
definition SrvCapUDPNoMeta :: u32 where [simp]: "SrvCapUDPNoMeta = 0x04"
definition SrvCapNatTraversal :: u32 where [simp]: "SrvCapNatTraversal = 0x1000"
definition SrvCapNatWake :: u32 where [simp]: "SrvCapNatWake = 0x200000"
definition SrvCapHolePunchExt :: u32 where [simp]: "SrvCapHolePunchExt = 0x100000"

end
