(* ===== verification/Wire_Tags.thy ===== *)
theory Wire_Tags
  imports Wire_Buffer Wire_Constants
begin

section \<open>Tags and file lists (ed2k/buffer.go)\<close>

text \<open>
  An eD2K packet carries most of its fields as tags: a type byte, a name (a one-byte code,
  or a string) and a value. This theory holds the tag writer, the tag reader in its long
  and short forms, and the file-list reader of \<^verbatim>\<open>OP_OFFERFILES\<close> and
  \<^verbatim>\<open>OP_SEARCHRESULT\<close> built on it.

  Shown here: the readers are safe on every input; every tag and every file record takes
  at least the number of bytes that \<open>checkWireCount\<close> divides by, so the check refuses no
  list that would have decoded; \<open>TagsLength\<close> is exactly what \<open>PutTags\<close> writes; and tags
  written by \<open>PutTags\<close> read back.
\<close>

subsection \<open>Go strings\<close>

definition str :: "string \<Rightarrow> bytes" where
  "str s = map of_char s"

lemma str_eq_iff [simp]: "str s = str t \<longleftrightarrow> s = t"
proof -
  have "inj (of_char :: char \<Rightarrow> u8)"
  proof (rule injI)
    fix c d :: char
    assume "(of_char c :: u8) = of_char d"
    then have "(of_nat (of_char c) :: u8) = of_nat (of_char d)" by (simp add: of_nat_of_char)
    then have "unat (of_nat (of_char c) :: u8) = unat (of_nat (of_char d) :: u8)" by simp
    then have "(of_char c :: nat) = of_char d" by (simp add: unat_of_nat_lt)
    then show "c = d" by simp
  qed
  then show ?thesis unfolding str_def by (metis inj_map_eq_map)
qed

lemma length_str [simp]: "length (str s) = length s"
  by (simp add: str_def)

lemma str_append: "str (s @ t) = str s @ str t"
  by (simp add: str_def)

subsection \<open>Dynamic values, tags, records\<close>

text \<open>
  A Go \<^verbatim>\<open>any\<close> restricted to the dynamic types the package stores in one. A
  \<^verbatim>\<open>float32\<close> is kept as its bit pattern, which is what \<^verbatim>\<open>math.Float32frombits\<close>
  is given.
\<close>

datatype any =
    ANil
  | AString bytes
  | ABytes bytes
  | AUint8 u8
  | AUint16 u16
  | AUint32 u32
  | AUint64 u64
  | AInt int
  | AFloat32 u32
  | ABool bool

record tag =
  tag_Type :: u8
  tag_Code :: u8
  tag_Data :: any

record named_tag =
  nt_Name :: bytes
  nt_Value :: any
  nt_Type :: u8

record file_record =
  fr_Hash :: bytes
  fr_Complete :: bool
  fr_ID :: u32
  fr_Port :: u16
  fr_SizeLo :: u32
  fr_SizeHi :: u32
  fr_Size :: u64
  fr_Name :: bytes
  fr_Type :: bytes
  fr_Sources :: u32
  fr_Title :: bytes
  fr_Artist :: bytes
  fr_Album :: bytes
  fr_Length :: u32
  fr_Bitrate :: u32
  fr_Codec :: bytes
  fr_Extra :: "named_tag list"
  fr_sizeLo :: u64
  fr_sizeHi :: u64

definition minTagBytes :: nat where [simp]: "minTagBytes = 2"
definition minFileRecordBytes :: nat where [simp]: "minFileRecordBytes = 26"

subsection \<open>Writing tags\<close>

text \<open>One step of \<open>TagsLength\<close>: what a tag adds to the length.\<close>

definition tagLength :: "tag \<Rightarrow> nat res" where
  "tagLength t =
     (if tag_Type t = TypeString then
        (case tag_Data t of AString v \<Rightarrow> Ok (4 + (2 + length v)) | _ \<Rightarrow> Err ErrUnsupportedTag)
      else if tag_Type t = TypeHash then Ok (4 + 16)
      else if tag_Type t = TypeUint8 then Ok (4 + 1)
      else if tag_Type t = TypeUint16 then Ok (4 + 2)
      else if tag_Type t = TypeUint32 then Ok (4 + 4)
      else if tag_Type t = TypeUint64 then Ok (4 + 8)
      else Err (Wrapf ''0x%x'' [unat (tag_Type t)] ErrUnsupportedTag))"

fun tagsLength_loop :: "nat \<Rightarrow> tag list \<Rightarrow> nat res" where
  "tagsLength_loop len [] = Ok len"
| "tagsLength_loop len (t # ts) = bind_res (tagLength t) (\<lambda>n. tagsLength_loop (len + n) ts)"

definition TagsLength :: "tag list \<Rightarrow> nat res" where
  "TagsLength tags = tagsLength_loop 4 tags"

definition PutTag :: "tag \<Rightarrow> unit io" where
  "PutTag t =
     bind_io (PutUInt8 (tag_Type t)) (\<lambda>_.
     bind_io (PutUInt16LE 1) (\<lambda>_.
     bind_io (PutUInt8 (tag_Code t)) (\<lambda>_.
       if tag_Type t = TypeString then
         (case tag_Data t of AString v \<Rightarrow> PutString v | _ \<Rightarrow> fail ErrUnsupportedTag)
       else if tag_Type t = TypeHash then
         (case tag_Data t of ABytes v \<Rightarrow> PutHash v | _ \<Rightarrow> fail ErrUnsupportedTag)
       else if tag_Type t = TypeUint8 then
         (case tag_Data t of AUint8 v \<Rightarrow> PutUInt8 v
          | AInt v \<Rightarrow> PutUInt8 (of_int v) | _ \<Rightarrow> fail ErrUnsupportedTag)
       else if tag_Type t = TypeUint16 then
         (case tag_Data t of AUint16 v \<Rightarrow> PutUInt16LE v
          | AInt v \<Rightarrow> PutUInt16LE (of_int v) | _ \<Rightarrow> fail ErrUnsupportedTag)
       else if tag_Type t = TypeUint32 then
         (case tag_Data t of AUint32 v \<Rightarrow> PutUInt32LE v
          | AInt v \<Rightarrow> PutUInt32LE (of_int v) | _ \<Rightarrow> fail ErrUnsupportedTag)
       else if tag_Type t = TypeUint64 then
         (case tag_Data t of AUint64 v \<Rightarrow> PutUInt64LE v
          | AInt v \<Rightarrow> PutUInt64LE (of_int v) | _ \<Rightarrow> fail ErrUnsupportedTag)
       else fail (Wrapf ''0x%x'' [unat (tag_Type t)] ErrUnsupportedTag))))"

fun putTags_loop :: "tag list \<Rightarrow> unit io" where
  "putTags_loop [] = ret ()"
| "putTags_loop (t # ts) = bind_io (PutTag t) (\<lambda>_. putTags_loop ts)"

definition PutTags :: "tag list \<Rightarrow> unit io" where
  "PutTags tags = bind_io (PutUInt32LE (of_nat (length tags))) (\<lambda>_. putTags_loop tags)"

subsection \<open>Reading tags\<close>

definition guard_remaining :: "nat \<Rightarrow> unit io" where
  "guard_remaining n b = (if Remaining b < n then (Err ErrOutOfBounds, b) else (Ok (), b))"

definition GetTagValue :: "u8 \<Rightarrow> any io" where
  "GetTagValue typ =
     (if typ = TypeString then bind_io GetString (\<lambda>s. ret (AString s))
      else if typ = TypeUint8 then bind_io GetUInt8 (\<lambda>v. ret (AUint64 (ucast v)))
      else if typ = TypeUint16 then bind_io GetUInt16LE (\<lambda>v. ret (AUint64 (ucast v)))
      else if typ = TypeUint32 then bind_io GetUInt32LE (\<lambda>v. ret (AUint64 (ucast v)))
      else if typ = TypeUint64 then bind_io GetUInt64LE (\<lambda>v. ret (AUint64 v))
      else if typ = TypeHash then
        bind_io (guard_remaining 16) (\<lambda>_. bind_io (Get 16) (\<lambda>v. ret (ABytes v)))
      else if typ = TypeFloat then
        bind_io (guard_remaining 4) (\<lambda>_. bind_io (Get 4) (\<lambda>v. ret (AFloat32 (le_get v))))
      else if typ = TypeBool then bind_io GetUInt8 (\<lambda>v. ret (ABool (v \<noteq> 0)))
      else if typ = TypeBlob then
        bind_io GetUInt32LE (\<lambda>n. bind_io (guard_remaining (unat n)) (\<lambda>_.
          bind_io (Get (int (unat n))) (\<lambda>v. ret (ABytes v))))
      else if typ = TypeBsob then
        bind_io GetUInt8 (\<lambda>n. bind_io (guard_remaining (unat n)) (\<lambda>_.
          bind_io (Get (int (unat n))) (\<lambda>v. ret (ABytes v))))
      else if typ = TypeBoolArray then
        bind_io GetUInt16LE (\<lambda>n. bind_io (guard_remaining (unat n div 8 + 1)) (\<lambda>_.
          bind_io (Get (int (unat n div 8 + 1))) (\<lambda>_. ret ANil)))
      else if typ \<ge> 0x11 \<and> typ \<le> 0x20 then
        bind_io (GetStringN (int (unat (typ - 0x10)))) (\<lambda>s. ret (AString s))
      else fail (Wrapf ''0x%x'' [unat typ] ErrUnsupportedTag))"

text \<open>\<^verbatim>\<open>fmt.Sprintf("0x%x", code)\<close> of a byte: no leading zero.\<close>

definition hexDigit :: "nat \<Rightarrow> char" where
  "hexDigit n = (if n < 10 then char_of (48 + n) else char_of (87 + n))"

definition hexByte :: "u8 \<Rightarrow> string" where
  "hexByte c =
     (if unat c < 16 then [hexDigit (unat c)] else [hexDigit (unat c div 16), hexDigit (unat c mod 16)])"

definition tagName :: "u8 \<Rightarrow> bytes" where
  "tagName code = str (
     if code = TagName then ''name'' else if code = TagSize then ''size''
     else if code = TagSizeHi then ''sizehi'' else if code = TagType then ''type''
     else if code = TagFormat then ''format'' else if code = TagDescription then ''description''
     else if code = TagVersion then ''version'' else if code = TagPort then ''port2''
     else if code = TagSources then ''sources'' else if code = TagMuleVersion then ''muleversion''
     else if code = TagModVersion then ''modversion'' else if code = TagFlags then ''flags''
     else if code = TagRating then ''rating'' else if code = TagMediaArtist then ''artist''
     else if code = TagMediaAlbum then ''album'' else if code = TagMediaTitle then ''title''
     else if code = TagMediaLength then ''length'' else if code = TagMediaBitrate then ''bitrate''
     else if code = TagMediaCodec then ''codec'' else if code = TagSearchTree then ''searchtree''
     else if code = TagEmuleUDPPorts then ''udpports'' else if code = TagEmuleOptions1 then ''options1''
     else if code = TagEmuleOptions2 then ''options2'' else if code = TagModIPv6 then ''ipv6''
     else if code = TagModSvrIPv6 then ''svripv6'' else if code = TagNatPort then ''natport''
     else if code = TagModYourIP then ''yourip'' else if code = TagIPv6Status then ''ipv6status''
     else if code = TagMetaAPI then ''metaapi'' else if code = TagMetaAPIVersion then ''metaapiver''
     else if code = TagMetaAPIFingerprint then ''metaapifp'' else if code = TagEd3k then ''ed3k''
     else ''0x'' @ hexByte code)"

text \<open>The tail of \<open>GetTag\<close>: STR1-16 types are reported as \<open>TypeString\<close>.\<close>

definition namedTag :: "bytes \<Rightarrow> u8 \<Rightarrow> any \<Rightarrow> named_tag" where
  "namedTag name typ v =
     \<lparr>nt_Name = name, nt_Value = v,
      nt_Type = (if typ \<ge> 0x11 \<and> typ \<le> 0x20 then TypeString else typ)\<rparr>"

definition GetTag :: "named_tag io" where
  "GetTag =
     bind_io Pos (\<lambda>startPos.
     bind_io GetUInt8 (\<lambda>orig.
       let err = (\<lambda>stage code e. TagDecodeError startPos stage orig code e);
           value = (\<lambda>typ code. wrap_err (err ''read-value'' code) (GetTagValue typ))
       in if orig AND 0x80 \<noteq> 0 then
            bind_io (wrap_err (err ''read-short-code'' 0) GetUInt8) (\<lambda>code.
              let typ = orig AND 0x7f in
              if typ \<ge> 0x10 then
                bind_io (wrap_err (err ''read-short-string'' code) (GetStringN (int (unat (typ - 0x10)))))
                  (\<lambda>s. ret (namedTag (tagName code) TypeString (AString s)))
              else bind_io (value typ code) (\<lambda>v. ret (namedTag (tagName code) typ v)))
          else
            bind_io (wrap_err (err ''read-name-len'' 0) GetUInt16LE) (\<lambda>l.
              if l = 1 then
                bind_io (wrap_err (err ''read-name-code'' 0) GetUInt8) (\<lambda>code.
                bind_io (value orig code) (\<lambda>v. ret (namedTag (tagName code) orig v)))
              else
                bind_io (wrap_err (err ''read-name-string'' 0) (guard_remaining (unat l))) (\<lambda>_.
                bind_io (Get (int (unat l))) (\<lambda>name.
                bind_io (value orig 0) (\<lambda>v. ret (namedTag name orig v)))))))"

definition checkWireCount :: "u32 \<Rightarrow> nat \<Rightarrow> nat \<Rightarrow> unit io" where
  "checkWireCount cnt remaining minBytesEach =
     (if unat cnt > remaining div minBytesEach
      then fail (Wrapf ''count exceeds remaining bytes'' [unat cnt, remaining] ErrOutOfBounds)
      else ret ())"

fun getTags_loop :: "nat \<Rightarrow> nat \<Rightarrow> nat \<Rightarrow> named_tag list io" where
  "getTags_loop startPos i 0 = ret []"
| "getTags_loop startPos i (Suc n) =
     bind_io (wrap_err (Wrapf ''tags decode failed'' [startPos, i]) GetTag) (\<lambda>t.
     bind_io (getTags_loop startPos (Suc i) n) (\<lambda>ts. ret (t # ts)))"

definition remaining_io :: "nat io" where
  "remaining_io b = (Ok (Remaining b), b)"

definition GetTags :: "named_tag list io" where
  "GetTags =
     bind_io Pos (\<lambda>startPos.
     bind_io GetUInt32LE (\<lambda>cnt.
     bind_io remaining_io (\<lambda>rem.
     bind_io (checkWireCount cnt rem minTagBytes) (\<lambda>_.
       getTags_loop startPos 0 (unat cnt)))))"

subsection \<open>Reading file lists\<close>

definition as_string :: "any \<Rightarrow> bytes" where
  "as_string v = (case v of AString s \<Rightarrow> s | _ \<Rightarrow> [])"

definition as_uint64 :: "any \<Rightarrow> u64" where
  "as_uint64 v = (case v of AUint64 n \<Rightarrow> n | _ \<Rightarrow> 0)"

definition tagUint32 :: "any \<Rightarrow> u32" where
  "tagUint32 v =
     (case v of AUint64 n \<Rightarrow> (if n > 0xffffffff then 0xffffffff else ucast n) | _ \<Rightarrow> 0)"

definition SetTag :: "bytes \<Rightarrow> any \<Rightarrow> file_record \<Rightarrow> file_record \<times> bool" where
  "SetTag name v r =
     (if name = str ''name'' then (r\<lparr>fr_Name := as_string v\<rparr>, True)
      else if name = str ''type'' then (r\<lparr>fr_Type := as_string v\<rparr>, True)
      else if name = str ''title'' then (r\<lparr>fr_Title := as_string v\<rparr>, True)
      else if name = str ''artist'' then (r\<lparr>fr_Artist := as_string v\<rparr>, True)
      else if name = str ''album'' then (r\<lparr>fr_Album := as_string v\<rparr>, True)
      else if name = str ''codec'' then (r\<lparr>fr_Codec := as_string v\<rparr>, True)
      else if name = str ''sources'' then (r\<lparr>fr_Sources := tagUint32 v\<rparr>, True)
      else if name = str ''length'' then (r\<lparr>fr_Length := tagUint32 v\<rparr>, True)
      else if name = str ''bitrate'' then (r\<lparr>fr_Bitrate := tagUint32 v\<rparr>, True)
      else if name = str ''size'' then
        (let lo = as_uint64 v in
         (r\<lparr>fr_sizeLo := lo, fr_SizeLo := ucast lo, fr_Size := lo + fr_sizeHi r * 0x100000000\<rparr>, True))
      else if name = str ''sizehi'' then
        (let hi = as_uint64 v in
         (r\<lparr>fr_sizeHi := hi, fr_SizeHi := ucast hi, fr_Size := fr_sizeLo r + hi * 0x100000000\<rparr>, True))
      else (r, False))"

text \<open>One tag into the record: its field, or \<open>Extra\<close> when those are kept.\<close>

definition storeTag :: "bool \<Rightarrow> named_tag \<Rightarrow> file_record \<Rightarrow> file_record" where
  "storeTag keepExtra t r =
     (let (r', known) = SetTag (nt_Name t) (nt_Value t) r
      in if \<not> known \<and> keepExtra then r'\<lparr>fr_Extra := fr_Extra r' @ [t]\<rparr> else r')"

text \<open>\<open>FileRecord.Tag\<close>: the value of the last \<open>Extra\<close> tag of a name.\<close>

definition record_Tag :: "file_record \<Rightarrow> bytes \<Rightarrow> any" where
  "record_Tag r name =
     (case find (\<lambda>t. nt_Name t = name) (rev (fr_Extra r)) of None \<Rightarrow> ANil | Some t \<Rightarrow> nt_Value t)"

fun getFileTags_loop :: "bool \<Rightarrow> nat \<Rightarrow> nat \<Rightarrow> nat \<Rightarrow> file_record \<Rightarrow> file_record io" where
  "getFileTags_loop keepExtra startPos i 0 r = ret r"
| "getFileTags_loop keepExtra startPos i (Suc n) r =
     bind_io (wrap_err (Wrapf ''tags decode failed'' [startPos, i]) GetTag) (\<lambda>t.
       getFileTags_loop keepExtra startPos (Suc i) n (storeTag keepExtra t r))"

definition getFileTags :: "bool \<Rightarrow> file_record \<Rightarrow> file_record io" where
  "getFileTags keepExtra r =
     bind_io Pos (\<lambda>startPos.
     bind_io GetUInt32LE (\<lambda>cnt.
     bind_io remaining_io (\<lambda>rem.
     bind_io (checkWireCount cnt rem minTagBytes) (\<lambda>_.
       getFileTags_loop keepExtra startPos 0 (unat cnt) r))))"

definition newFileRecord :: "bytes \<Rightarrow> u32 \<Rightarrow> u16 \<Rightarrow> file_record" where
  "newFileRecord hash fid port =
     \<lparr>fr_Hash = hash, fr_Complete = (\<not> (fid = ValPartialID \<and> port = ValPartialPort)),
      fr_ID = fid, fr_Port = port, fr_SizeLo = 0, fr_SizeHi = 0, fr_Size = 0, fr_Name = [],
      fr_Type = [], fr_Sources = 0, fr_Title = [], fr_Artist = [], fr_Album = [], fr_Length = 0,
      fr_Bitrate = 0, fr_Codec = [], fr_Extra = [], fr_sizeLo = 0, fr_sizeHi = 0\<rparr>"

definition getFileRecord :: "bool \<Rightarrow> nat \<Rightarrow> file_record io" where
  "getFileRecord keepExtra i =
     bind_io (Get 16) (\<lambda>hash.
       if length hash \<noteq> 16 then fail ErrOutOfBounds
       else bind_io GetUInt32LE (\<lambda>fid.
            bind_io GetUInt16LE (\<lambda>port.
              wrap_err (Wrapf ''filelist decode failed'' [i, unat fid, unat port])
                (getFileTags keepExtra (newFileRecord hash fid port)))))"

fun getFileList_loop :: "bool \<Rightarrow> nat \<Rightarrow> nat \<Rightarrow> file_record list io" where
  "getFileList_loop keepExtra i 0 = ret []"
| "getFileList_loop keepExtra i (Suc n) =
     bind_io (getFileRecord keepExtra i) (\<lambda>r.
     bind_io (getFileList_loop keepExtra (Suc i) n) (\<lambda>rs. ret (r # rs)))"

definition getFileList :: "bool \<Rightarrow> file_record list io" where
  "getFileList keepExtra =
     bind_io GetUInt32LE (\<lambda>cnt.
     bind_io remaining_io (\<lambda>rem.
     bind_io (checkWireCount cnt rem minFileRecordBytes) (\<lambda>_.
       getFileList_loop keepExtra 0 (unat cnt))))"

definition GetFileList :: "file_record list io" where
  "GetFileList = getFileList True"

definition GetOfferedFiles :: "file_record list io" where
  "GetOfferedFiles = getFileList False"

subsection \<open>The readers are safe and consume what the wire counts assume\<close>

lemmas [io_eval] = GetTag_def GetTagValue_def remaining_io_def checkWireCount_def guard_remaining_def
  getFileList_def getFileRecord_def getFileTags_def namedTag_def tagName_def storeTag_def SetTag_def
  as_uint64_def word_le_nat_alt nat_add_distrib

lemma getFileTags_loop_2 [io_eval]:
  "getFileTags_loop k p i 2 r = getFileTags_loop k p i (Suc (Suc 0)) r"
  by (simp add: numeral_2_eq_2)

lemma safe_guard_remaining [safe_intros]: "safe (guard_remaining n)"
  by (simp add: safe_def guard_remaining_def)

lemma safe_remaining_io [safe_intros]: "safe remaining_io"
  by (simp add: safe_def remaining_io_def)

lemma safe_checkWireCount [safe_intros]: "safe (checkWireCount c r k)"
  unfolding checkWireCount_def by (intro safe_intros)

lemma safe_GetTagValue [safe_intros]: "safe (GetTagValue typ)"
  unfolding GetTagValue_def by (intro safe_intros) simp_all

lemma safe_GetTag [safe_intros]: "safe GetTag"
  unfolding GetTag_def by (intro safe_intros) simp_all

lemma consumes_GetTag [consumes_intros]: "consumes minTagBytes GetTag"
proof -
  have short: "consumes 1 (bind_io (wrap_err g GetUInt8) f)" if "\<And>x. safe (f x)" for g and f :: "u8 \<Rightarrow> 'z io"
    by (intro consumes_bind_head safe_intros consumes_intros that)
  have long: "consumes 1 (bind_io (wrap_err g GetUInt16LE) f)" if "\<And>x. safe (f x)" for g and f :: "u16 \<Rightarrow> 'z io"
    by (rule consumes_mono [of 2]) (intro consumes_bind_head safe_intros consumes_intros that, simp)
  have "consumes (0 + (1 + 1)) GetTag"
    unfolding GetTag_def Let_def
    by (intro consumes_bind consumes_if short long safe_intros consumes_intros consumes_safe) simp_all
  then show ?thesis by (simp add: numeral_2_eq_2)
qed

lemma safe_getTags_loop [safe_intros]: "safe (getTags_loop p i n)"
  by (induction n arbitrary: i) (auto intro!: safe_intros)

lemma safe_GetTags [safe_intros]: "safe GetTags"
  unfolding GetTags_def by (intro safe_intros)

lemma consumes_getTags_loop: "consumes (minTagBytes * n) (getTags_loop p i n)"
proof (induction n arbitrary: i)
  case 0
  show ?case by (simp add: consumes_safe safe_ret)
next
  case (Suc n)
  have "consumes (minTagBytes + minTagBytes * n) (getTags_loop p i (Suc n))"
    unfolding getTags_loop.simps
    by (intro consumes_bind consumes_bind_head safe_intros consumes_intros Suc)
  then show ?case by simp
qed

lemma length_getTags_loop: "getTags_loop p i n b = (Ok ts, b') \<Longrightarrow> length ts = n"
  by (induction n arbitrary: i b ts) (auto simp: ret_def bind_io_Ok)

lemma safe_getFileTags_loop [safe_intros]: "safe (getFileTags_loop k p i n r)"
  by (induction n arbitrary: i r) (auto intro!: safe_intros)

lemma safe_getFileTags [safe_intros]: "safe (getFileTags k r)"
  unfolding getFileTags_def by (intro safe_intros)

lemma safe_getFileRecord [safe_intros]: "safe (getFileRecord k i)"
  unfolding getFileRecord_def by (intro safe_intros) simp

lemma safe_getFileList_loop [safe_intros]: "safe (getFileList_loop k i n)"
  by (induction n arbitrary: i) (auto intro!: safe_intros)

lemma safe_getFileList [safe_intros]: "safe (getFileList k)"
  unfolding getFileList_def by (intro safe_intros)

lemma consumes_getFileTags: "consumes 4 (getFileTags k r)"
  unfolding getFileTags_def
  using consumes_bind [OF safe_Pos consumes_safe [OF safe_Pos]] consumes_bind_head [OF safe_GetUInt32LE consumes_GetUInt32LE]
  by (metis (no_types, lifting) add_0 safe_bind_io safe_checkWireCount safe_getFileTags_loop safe_remaining_io)

text \<open>
  The hash read is the one place where a short read is not an error of the reader itself:
  \<open>Get\<close> truncates, and the record is refused on the length of what came back.
\<close>

lemma Get_full:
  assumes "wf_buf b" "Get (int n) b = (Ok xs, b')" "length xs = n"
  shows "buf_pointer b + n \<le> buf_pointer b'"
  using assms by (auto simp: Get_def wf_buf_def Let_def split: if_splits)

lemma consumes_getFileRecord: "consumes minFileRecordBytes (getFileRecord k i)"
  unfolding consumes_def
proof (intro allI impI)
  fix b v b''
  assume wf: "wf_buf b" and "getFileRecord k i b = (Ok v, b'')"
  then obtain hash b' where h: "Get 16 b = (Ok hash, b')" "length hash = 16"
    and rest: "bind_io GetUInt32LE (\<lambda>fid. bind_io GetUInt16LE (\<lambda>port.
              wrap_err (Wrapf ''filelist decode failed'' [i, unat fid, unat port])
                (getFileTags k (newFileRecord hash fid port)))) b' = (Ok v, b'')"
    by (auto simp: getFileRecord_def bind_io_Ok fail_def split: if_splits)
  have wf': "wf_buf b'" using safeD(2) [OF safe_Get wf h(1)] by simp
  have "buf_pointer b + 16 \<le> buf_pointer b'" using Get_full [of b 16] wf h by simp
  moreover have "consumes (4 + (2 + 4)) (bind_io GetUInt32LE (\<lambda>fid. bind_io GetUInt16LE (\<lambda>port.
              wrap_err (Wrapf ''filelist decode failed'' [i, unat fid, unat port])
                (getFileTags k (newFileRecord hash fid port)))))"
    by (intro consumes_bind safe_intros consumes_intros consumes_getFileTags)
  then have "buf_pointer b' + 10 \<le> buf_pointer b''" using wf' rest by (fastforce dest: consumesD)
  ultimately show "buf_pointer b + minFileRecordBytes \<le> buf_pointer b''" by simp
qed

lemma consumes_getFileList_loop: "consumes (minFileRecordBytes * n) (getFileList_loop k i n)"
proof (induction n arbitrary: i)
  case 0
  show ?case by (simp add: consumes_safe safe_ret)
next
  case (Suc n)
  have "consumes (minFileRecordBytes + minFileRecordBytes * n) (getFileList_loop k i (Suc n))"
    unfolding getFileList_loop.simps
    by (intro consumes_bind consumes_bind_head safe_intros consumes_getFileRecord Suc)
  then show ?case by simp
qed

lemma checkWireCount_room:
  assumes "unat c * k \<le> r" "0 < k"
  shows "checkWireCount c r k = ret ()"
proof -
  have "unat c \<le> r div k" using assms by (simp add: less_eq_div_iff_mult_less_eq)
  then show ?thesis by (simp add: checkWireCount_def)
qed

text \<open>
  A loop that consumes \<open>k\<close> bytes per element and succeeds \<open>n\<close> times had room for \<open>n\<close>
  elements: the count check before it cannot have refused it.
\<close>

lemma checkWireCount_complete:
  assumes "0 < k" "wf_buf b" "safe m" "consumes (k * unat c) m" "m b = (Ok v, b')"
  shows "checkWireCount c (Remaining b) k = ret ()"
proof -
  have "buf_pointer b + k * unat c \<le> length (buf_data b)"
    using consumesD [OF assms(4,2,5)] safeD(2,3) [OF assms(3,2,5)] by (simp add: wf_buf_def)
  then have "k * unat c \<le> Remaining b" by (simp add: Remaining_eq)
  then show ?thesis using assms(1) by (intro checkWireCount_room) (simp_all add: mult.commute)
qed

subsection \<open>What is written is what is read\<close>

text \<open>
  \<open>tag_typed\<close>: the dynamic type of \<open>Data\<close> is one the tag type takes, and a hash has 16
  bytes. \<open>tag_ok\<close> adds that a string fits its 16-bit length prefix.
\<close>

definition tag_typed :: "tag \<Rightarrow> bool" where
  "tag_typed t =
     (if tag_Type t = TypeString then (case tag_Data t of AString v \<Rightarrow> True | _ \<Rightarrow> False)
      else if tag_Type t = TypeHash then (case tag_Data t of ABytes v \<Rightarrow> length v = 16 | _ \<Rightarrow> False)
      else if tag_Type t = TypeUint8 then (case tag_Data t of AUint8 v \<Rightarrow> True | AInt v \<Rightarrow> True | _ \<Rightarrow> False)
      else if tag_Type t = TypeUint16 then (case tag_Data t of AUint16 v \<Rightarrow> True | AInt v \<Rightarrow> True | _ \<Rightarrow> False)
      else if tag_Type t = TypeUint32 then (case tag_Data t of AUint32 v \<Rightarrow> True | AInt v \<Rightarrow> True | _ \<Rightarrow> False)
      else if tag_Type t = TypeUint64 then (case tag_Data t of AUint64 v \<Rightarrow> True | AInt v \<Rightarrow> True | _ \<Rightarrow> False)
      else False)"

definition tag_ok :: "tag \<Rightarrow> bool" where
  "tag_ok t \<longleftrightarrow> tag_typed t \<and> (case tag_Data t of AString v \<Rightarrow> length v < 2 ^ 16 | _ \<Rightarrow> True)"

definition enc_value :: "tag \<Rightarrow> bytes" where
  "enc_value t =
     (case tag_Data t of
        AString v \<Rightarrow> enc_string v
      | ABytes v \<Rightarrow> v
      | AUint8 v \<Rightarrow> le_put 1 v
      | AUint16 v \<Rightarrow> le_put 2 v
      | AUint32 v \<Rightarrow> le_put 4 v
      | AUint64 v \<Rightarrow> le_put 8 v
      | AInt v \<Rightarrow> (if tag_Type t = TypeUint8 then le_put 1 (of_int v :: u8)
                 else if tag_Type t = TypeUint16 then le_put 2 (of_int v :: u16)
                 else if tag_Type t = TypeUint32 then le_put 4 (of_int v :: u32)
                 else le_put 8 (of_int v :: u64))
      | _ \<Rightarrow> [])"

definition enc_tag :: "tag \<Rightarrow> bytes" where
  "enc_tag t = le_put 1 (tag_Type t) @ le_put 2 (1 :: u16) @ le_put 1 (tag_Code t) @ enc_value t"

text \<open>The value a reader gets: every integer width comes back as a \<^verbatim>\<open>uint64\<close>.\<close>

definition tag_value :: "tag \<Rightarrow> any" where
  "tag_value t =
     (case tag_Data t of
        AUint8 v \<Rightarrow> AUint64 (ucast v)
      | AUint16 v \<Rightarrow> AUint64 (ucast v)
      | AUint32 v \<Rightarrow> AUint64 (ucast v)
      | AInt v \<Rightarrow> (if tag_Type t = TypeUint8 then AUint64 (ucast (of_int v :: u8))
                 else if tag_Type t = TypeUint16 then AUint64 (ucast (of_int v :: u16))
                 else if tag_Type t = TypeUint32 then AUint64 (ucast (of_int v :: u32))
                 else AUint64 (of_int v))
      | d \<Rightarrow> d)"

definition tag_view :: "tag \<Rightarrow> named_tag" where
  "tag_view t = namedTag (tagName (tag_Code t)) (tag_Type t) (tag_value t)"

definition enc_tags :: "tag list \<Rightarrow> bytes" where
  "enc_tags ts = le_put 4 (of_nat (length ts) :: u32) @ concat (map enc_tag ts)"

lemma tag_typed_cases:
  assumes "tag_typed t"
  obtains (string) v where "tag_Type t = TypeString" "tag_Data t = AString v"
    | (hash) v where "tag_Type t = TypeHash" "tag_Data t = ABytes v" "length v = 16"
    | (u8) v where "tag_Type t = TypeUint8" "tag_Data t = AUint8 v \<or> (\<exists>i. tag_Data t = AInt i \<and> v = of_int i)"
    | (u16) v where "tag_Type t = TypeUint16" "tag_Data t = AUint16 v \<or> (\<exists>i. tag_Data t = AInt i \<and> v = of_int i)"
    | (u32) v where "tag_Type t = TypeUint32" "tag_Data t = AUint32 v \<or> (\<exists>i. tag_Data t = AInt i \<and> v = of_int i)"
    | (u64) v where "tag_Type t = TypeUint64" "tag_Data t = AUint64 v \<or> (\<exists>i. tag_Data t = AInt i \<and> v = of_int i)"
  using assms unfolding tag_typed_def
  by (auto split: if_splits any.splits)

lemma reads_guard_remaining [reads_intros]:
  assumes "n \<le> length xs" "reads (f ()) xs v"
  shows "reads (bind_io (guard_remaining n) f) xs v"
  using assms by (simp add: reads_def bind_io_def guard_remaining_def Remaining_eq)

lemma reads_bind_remaining:
  assumes "\<And>r. length xs \<le> r \<Longrightarrow> reads (f r) xs v"
  shows "reads (bind_io remaining_io f) xs v"
  using assms by (simp add: reads_def bind_io_def remaining_io_def Remaining_eq)

lemma reads_bind_ret:
  "reads m xs v \<Longrightarrow> w = f v \<Longrightarrow> reads (bind_io m (\<lambda>x. ret (f x))) xs w"
  using reads_bind [OF _ reads_ret] by fastforce

lemma reads_GetTagValue:
  assumes "tag_ok t"
  shows "reads (GetTagValue (tag_Type t)) (enc_value t) (tag_value t)"
proof -
  have "tag_typed t" using assms by (simp add: tag_ok_def)
  then show ?thesis
  proof (cases rule: tag_typed_cases)
    case (string v)
    then show ?thesis using assms
      by (auto simp: GetTagValue_def enc_value_def tag_value_def tag_ok_def
          intro!: reads_bind_ret [OF reads_GetString])
  next
    case (hash v)
    then show ?thesis
      by (auto simp: GetTagValue_def enc_value_def tag_value_def
          intro!: reads_guard_remaining reads_bind_ret [OF reads_Get16])
  next
    case (u8 v)
    then show ?thesis
      by (auto simp: GetTagValue_def enc_value_def tag_value_def simp del: le_put.simps One_nat_def
          intro!: reads_bind_ret [OF reads_GetUInt8])
  next
    case (u16 v)
    then show ?thesis
      by (auto simp: GetTagValue_def enc_value_def tag_value_def
          intro!: reads_bind_ret [OF reads_GetUInt16LE])
  next
    case (u32 v)
    then show ?thesis
      by (auto simp: GetTagValue_def enc_value_def tag_value_def
          intro!: reads_bind_ret [OF reads_GetUInt32LE])
  next
    case (u64 v)
    then show ?thesis
      by (auto simp: GetTagValue_def enc_value_def tag_value_def
          intro!: reads_bind_ret [OF reads_GetUInt64LE])
  qed
qed

lemma tag_typed_Type:
  assumes "tag_typed t"
  shows "tag_Type t AND 0x80 = 0" "\<not> (0x11 \<le> tag_Type t \<and> tag_Type t \<le> 0x20)"
  using assms by (auto elim!: tag_typed_cases simp: word_le_nat_alt)

lemma reads_GetTag:
  assumes "tag_ok t"
  shows "reads GetTag (enc_tag t) (tag_view t)"
proof -
  have short: "tag_Type t AND 0x80 = 0" using assms tag_typed_Type(1) by (simp add: tag_ok_def)
  have val: "reads (bind_io (wrap_err g (GetTagValue (tag_Type t)))
       (\<lambda>v. ret (namedTag (tagName (tag_Code t)) (tag_Type t) v))) (enc_value t) (tag_view t)" for g
    by (rule reads_bind_ret [OF reads_wrap_err [OF reads_GetTagValue [OF assms]]]) (simp add: tag_view_def)
  show ?thesis
    unfolding GetTag_def enc_tag_def Let_def
    by (intro reads_bind_Pos reads_bind [OF reads_GetUInt8])
      (simp add: short del: One_nat_def, intro reads_bind [OF reads_wrap_err, OF reads_GetUInt16LE],
        simp del: One_nat_def, intro reads_bind [OF reads_wrap_err, OF reads_GetUInt8] val)
qed

lemma emits_PutTag:
  assumes "tag_typed t"
  shows "emits (PutTag t) (enc_tag t)"
  unfolding PutTag_def enc_tag_def
proof (intro emits_bind emits_PutUInt8 emits_PutUInt16LE)
  show "emits (if tag_Type t = TypeString then
         (case tag_Data t of AString v \<Rightarrow> PutString v | _ \<Rightarrow> fail ErrUnsupportedTag)
       else if tag_Type t = TypeHash then
         (case tag_Data t of ABytes v \<Rightarrow> PutHash v | _ \<Rightarrow> fail ErrUnsupportedTag)
       else if tag_Type t = TypeUint8 then
         (case tag_Data t of AUint8 v \<Rightarrow> PutUInt8 v
          | AInt v \<Rightarrow> PutUInt8 (of_int v) | _ \<Rightarrow> fail ErrUnsupportedTag)
       else if tag_Type t = TypeUint16 then
         (case tag_Data t of AUint16 v \<Rightarrow> PutUInt16LE v
          | AInt v \<Rightarrow> PutUInt16LE (of_int v) | _ \<Rightarrow> fail ErrUnsupportedTag)
       else if tag_Type t = TypeUint32 then
         (case tag_Data t of AUint32 v \<Rightarrow> PutUInt32LE v
          | AInt v \<Rightarrow> PutUInt32LE (of_int v) | _ \<Rightarrow> fail ErrUnsupportedTag)
       else if tag_Type t = TypeUint64 then
         (case tag_Data t of AUint64 v \<Rightarrow> PutUInt64LE v
          | AInt v \<Rightarrow> PutUInt64LE (of_int v) | _ \<Rightarrow> fail ErrUnsupportedTag)
       else fail (Wrapf ''0x%x'' [unat (tag_Type t)] ErrUnsupportedTag)) (enc_value t)"
    using assms
    by (cases rule: tag_typed_cases)
      (auto simp: enc_value_def simp del: le_put.simps One_nat_def intro: emits_intros)
qed

interpretation codec_tag: wire_codec PutTag GetTag enc_tag tag_view tag_ok
  by unfold_locales (auto simp: tag_ok_def intro: emits_PutTag reads_GetTag)

lemma emits_putTags_loop: "list_all tag_typed ts \<Longrightarrow> emits (putTags_loop ts) (concat (map enc_tag ts))"
  by (induction ts) (auto intro!: emits_intros emits_PutTag)

lemma emits_PutTags: "list_all tag_typed ts \<Longrightarrow> emits (PutTags ts) (enc_tags ts)"
  unfolding PutTags_def enc_tags_def by (intro emits_bind emits_PutUInt32LE emits_putTags_loop)

lemma reads_getTags_loop:
  "list_all tag_ok ts \<Longrightarrow> reads (getTags_loop p i (length ts)) (concat (map enc_tag ts)) (map tag_view ts)"
proof (induction ts arbitrary: i)
  case (Cons t ts)
  then show ?case
    by (auto intro!: reads_bind reads_wrap_err codec_tag.get_reads reads_bind_ret)
qed (simp add: reads_ret)

lemma length_enc_tag: "length (enc_tag t) = 4 + length (enc_value t)"
  by (simp add: enc_tag_def)

lemma length_concat_enc_tag: "minTagBytes * length ts \<le> length (concat (map enc_tag ts))"
  by (induction ts) (simp_all add: length_enc_tag)

lemma reads_GetTags:
  assumes "list_all tag_ok ts" "length ts < 2 ^ 32"
  shows "reads GetTags (enc_tags ts) (map tag_view ts)"
proof -
  have n: "unat (of_nat (length ts) :: u32) = length ts" using assms(2) by (simp add: unat_of_nat_lt)
  have "reads (bind_io (checkWireCount (of_nat (length ts)) r minTagBytes) (\<lambda>_. getTags_loop p 0 (length ts)))
      (concat (map enc_tag ts)) (map tag_view ts)"
    if "length (concat (map enc_tag ts)) \<le> r" for r p
  proof -
    have "length ts \<le> r div minTagBytes" using that length_concat_enc_tag [of ts] by simp
    then have "checkWireCount (of_nat (length ts)) r minTagBytes = ret ()"
      by (simp add: checkWireCount_def n)
    then show ?thesis using reads_getTags_loop [OF assms(1)] by simp
  qed
  then show ?thesis
    unfolding GetTags_def enc_tags_def
    by (intro reads_bind_Pos reads_bind [OF reads_GetUInt32LE] reads_bind_remaining) (simp add: n)
qed

interpretation codec_tags:
  wire_codec PutTags GetTags enc_tags "map tag_view" "\<lambda>ts. list_all tag_ok ts \<and> length ts < 2 ^ 32"
  by unfold_locales
    (auto simp: tag_ok_def list_all_iff intro!: emits_PutTags reads_GetTags)

lemma tagLength_typed: "tag_typed t \<Longrightarrow> tagLength t = Ok (length (enc_tag t))"
  by (erule tag_typed_cases)
    (auto simp: tagLength_def length_enc_tag enc_value_def enc_string_def simp del: le_put.simps One_nat_def)

lemma tagsLength_loop_typed:
  "list_all tag_typed ts \<Longrightarrow> tagsLength_loop n ts = Ok (n + length (concat (map enc_tag ts)))"
  by (induction ts arbitrary: n) (simp_all add: tagLength_typed)

lemma TagsLength_typed: "list_all tag_typed ts \<Longrightarrow> TagsLength ts = Ok (length (enc_tags ts))"
  by (simp add: TagsLength_def tagsLength_loop_typed enc_tags_def)

lemma reads_getFileTags_loop:
  "list_all tag_ok ts \<Longrightarrow>
   reads (getFileTags_loop k p i (length ts) r) (concat (map enc_tag ts)) (fold (storeTag k) (map tag_view ts) r)"
proof (induction ts arbitrary: i r)
  case (Cons t ts)
  then show ?case
    by (auto intro!: reads_bind reads_wrap_err codec_tag.get_reads)
qed (simp add: reads_ret)

lemma reads_getFileTags:
  assumes "list_all tag_ok ts" "length ts < 2 ^ 32"
  shows "reads (getFileTags k r) (enc_tags ts) (fold (storeTag k) (map tag_view ts) r)"
proof -
  have n: "unat (of_nat (length ts) :: u32) = length ts" using assms(2) by (simp add: unat_of_nat_lt)
  show ?thesis
    unfolding getFileTags_def enc_tags_def
    by (intro reads_bind_Pos reads_bind [OF reads_GetUInt32LE] reads_bind_remaining)
      (use length_concat_enc_tag [of ts] reads_getFileTags_loop [OF assms(1)] in
       \<open>simp add: n checkWireCount_room [where k = minTagBytes, simplified]\<close>)
qed

subsection \<open>The size of an offered file\<close>

text \<open>
  The two size tags arrive in either order. \<open>SetTag\<close> keeps both halves, so that after
  any sequence of tags the size is the combination of the last value of each.
\<close>

definition size_inv :: "file_record \<Rightarrow> bool" where
  "size_inv r \<longleftrightarrow> fr_Size r = fr_sizeLo r + fr_sizeHi r * 0x100000000
     \<and> fr_SizeLo r = ucast (fr_sizeLo r) \<and> fr_SizeHi r = ucast (fr_sizeHi r)"

lemma size_inv_SetTag: "size_inv r \<Longrightarrow> size_inv (fst (SetTag n v r))"
  by (simp add: size_inv_def SetTag_def Let_def)

lemma size_inv_storeTag: "size_inv r \<Longrightarrow> size_inv (storeTag k t r)"
  using size_inv_SetTag [of r "nt_Name t" "nt_Value t"]
  by (simp add: storeTag_def case_prod_beta Let_def size_inv_def)

lemma SetTag_frame [simp]:
  "fr_Hash (fst (SetTag n v r)) = fr_Hash r" "fr_ID (fst (SetTag n v r)) = fr_ID r"
  "fr_Port (fst (SetTag n v r)) = fr_Port r" "fr_Complete (fst (SetTag n v r)) = fr_Complete r"
  by (simp_all add: SetTag_def Let_def)

lemma storeTag_frame [simp]:
  "fr_Hash (storeTag k t r) = fr_Hash r" "fr_ID (storeTag k t r) = fr_ID r"
  "fr_Port (storeTag k t r) = fr_Port r" "fr_Complete (storeTag k t r) = fr_Complete r"
  by (simp_all add: storeTag_def case_prod_beta Let_def)

lemma getFileTags_loop_inv:
  assumes "getFileTags_loop k p i n r b = (Ok r', b')" "size_inv r"
  shows "size_inv r' \<and> fr_Hash r' = fr_Hash r \<and> fr_ID r' = fr_ID r \<and> fr_Port r' = fr_Port r
    \<and> fr_Complete r' = fr_Complete r"
  using assms
proof (induction n arbitrary: i r b)
  case (Suc n)
  then obtain t b1 where "getFileTags_loop k p (Suc i) n (storeTag k t r) b1 = (Ok r', b')"
    by (auto simp: bind_io_Ok)
  from Suc.IH [OF this size_inv_storeTag [OF Suc.prems(2)]] show ?case by simp
qed (simp add: ret_def)

lemma getFileRecord_inv:
  assumes "getFileRecord k i b = (Ok r, b')"
  shows "size_inv r \<and> length (fr_Hash r) = 16
    \<and> (fr_Complete r \<longleftrightarrow> \<not> (fr_ID r = ValPartialID \<and> fr_Port r = ValPartialPort))"
proof -
  from assms obtain hash fid port b1 p n b2 where "length hash = 16"
    and "getFileTags_loop k p 0 n (newFileRecord hash fid port) b1 = (Ok r, b2)"
    by (auto simp: getFileRecord_def getFileTags_def bind_io_Ok fail_def split: if_splits)
  from this(1) getFileTags_loop_inv [OF this(2)] show ?thesis
    by (simp add: newFileRecord_def size_inv_def)
qed

lemma getFileList_loop_inv:
  assumes "getFileList_loop k i n b = (Ok rs, b')"
  shows "length rs = n \<and> (\<forall>r\<in>set rs. size_inv r \<and> length (fr_Hash r) = 16
    \<and> (fr_Complete r \<longleftrightarrow> \<not> (fr_ID r = ValPartialID \<and> fr_Port r = ValPartialPort)))"
  using assms
proof (induction n arbitrary: i b rs)
  case (Suc n)
  then obtain r rs' b1 where r: "getFileRecord k i b = (Ok r, b1)"
    and rs: "getFileList_loop k (Suc i) n b1 = (Ok rs', b')" "rs = r # rs'"
    by (auto simp: bind_io_Ok ret_def)
  show ?case using getFileRecord_inv [OF r] Suc.IH [OF rs(1)] rs(2) by simp
qed (simp add: ret_def)

subsection \<open>Properties\<close>



text \<open>C27: The count check refuses nothing that would have decoded. If the decoding loop
  succeeds for the count a tag list or a file list declares, then the decoder, which first
  compares that count with the bytes left, returns exactly what the loop returns.\<close>

theorem wire_count_complete:
  assumes "wf_buf b" "GetUInt32LE b = (Ok c, b1)"
  shows "(getTags_loop (buf_pointer b) 0 (unat c) b1 = (Ok ts, b2) \<longrightarrow> GetTags b = (Ok ts, b2)) \<and>
    (getFileList_loop k 0 (unat c) b1 = (Ok rs, b3) \<longrightarrow> getFileList k b = (Ok rs, b3))"
proof (intro conjI impI)
  have wf1: "wf_buf b1" using safeD(2) [OF safe_GetUInt32LE assms] .
  { assume l: "getTags_loop (buf_pointer b) 0 (unat c) b1 = (Ok ts, b2)"
    have "checkWireCount c (Remaining b1) minTagBytes = ret ()"
      by (rule checkWireCount_complete [OF _ wf1 safe_getTags_loop consumes_getTags_loop l]) simp
    then show "GetTags b = (Ok ts, b2)"
      using l assms(2) by (simp add: GetTags_def bind_io_def Pos_def remaining_io_def ret_def del: minTagBytes_def) }
  assume l: "getFileList_loop k 0 (unat c) b1 = (Ok rs, b3)"
  have "checkWireCount c (Remaining b1) minFileRecordBytes = ret ()"
    by (rule checkWireCount_complete [OF _ wf1 safe_getFileList_loop consumes_getFileList_loop l]) simp
  then show "getFileList k b = (Ok rs, b3)"
    using l assms(2) by (simp add: getFileList_def bind_io_def remaining_io_def ret_def del: minFileRecordBytes_def)
qed

definition one_tag_wire :: bytes where
  "one_tag_wire = [1, 0, 0, 0, 0x89, 1, 5]"

theorem wire_count_complete_witness:
  "let b = NewBufferFromBytes one_tag_wire; b1 = b\<lparr>buf_pointer := 4\<rparr>; b2 = b\<lparr>buf_pointer := 7\<rparr>;
       ts = [\<lparr>nt_Name = str ''name'', nt_Value = AUint64 5, nt_Type = TypeUint8\<rparr>]
   in wf_buf b \<and> GetUInt32LE b = (Ok 1, b1) \<and> getTags_loop 0 0 1 b1 = (Ok ts, b2) \<and> GetTags b = (Ok ts, b2)"
proof -
  let ?b = "NewBufferFromBytes one_tag_wire"
  let ?ts = "[\<lparr>nt_Name = str ''name'', nt_Value = AUint64 5, nt_Type = TypeUint8\<rparr>]"
  have h: "wf_buf ?b" "GetUInt32LE ?b = (Ok 1, ?b\<lparr>buf_pointer := 4\<rparr>)"
    "getTags_loop (buf_pointer ?b) 0 (unat (1::u32)) (?b\<lparr>buf_pointer := 4\<rparr>) = (Ok ?ts, ?b\<lparr>buf_pointer := 7\<rparr>)"
    by (simp_all add: io_eval one_tag_wire_def wf_buf_def cong: bind_io_weak_cong)
  then show ?thesis using wire_count_complete [OF h(1,2)] by (simp add: NewBufferFromBytes_def)
qed


definition one_file_wire :: bytes where
  "one_file_wire = [1, 0, 0, 0] @ replicate 16 7 @ [0xfb, 0xfb, 0xfb, 0xfb, 0xfb, 0xfb] @
     [2, 0, 0, 0] @ [0x89, 0x3a, 2] @ [0x89, 0x02, 5]"


text \<open>C17: Tag lists round trip. \<open>TagsLength\<close> is the exact length of what \<open>PutTags\<close>
  writes, so a buffer of that size is filled to its last byte, and \<open>GetTags\<close> reads back
  the tags that were written: names from their codes, integers widened to 64 bits.\<close>

theorem tags_round_trip:
  assumes "list_all tag_ok ts" "length ts < 2 ^ 32"
  shows "\<exists>n b. TagsLength ts = Ok n \<and> PutTags ts (NewBuffer n) = (Ok (), b) \<and> Remaining b = 0 \<and>
    GetTags (SetPos 0 b) = (Ok (map tag_view ts), b)"
proof -
  have typed: "list_all tag_typed ts" using assms(1) by (simp add: list_all_iff tag_ok_def)
  have "PutTags ts (NewBuffer (length (enc_tags ts))) = (Ok (), buf_at (enc_tags ts) [])"
    using emitsD [OF emits_PutTags [OF typed], of "replicate (length (enc_tags ts)) 0" "[]" "[]"]
    by (simp add: NewBuffer_def)
  moreover have "GetTags (SetPos 0 (buf_at (enc_tags ts) [])) = (Ok (map tag_view ts), buf_at (enc_tags ts) [])"
    using readsD [OF codec_tags.get_reads, of ts "[]" "[]"] assms by (simp add: SetPos_def)
  ultimately show ?thesis using TagsLength_typed [OF typed] by (auto simp: Remaining_eq)
qed

definition sample_tags :: "tag list" where
  "sample_tags = [\<lparr>tag_Type = TypeString, tag_Code = TagName, tag_Data = AString (str ''a.avi'')\<rparr>,
     \<lparr>tag_Type = TypeUint32, tag_Code = TagSize, tag_Data = AInt 700\<rparr>,
     \<lparr>tag_Type = TypeHash, tag_Code = TagModIPv6, tag_Data = ABytes (replicate 16 1)\<rparr>]"

theorem tags_round_trip_witness:
  "list_all tag_ok sample_tags \<and> (\<exists>n b. TagsLength sample_tags = Ok n \<and> n = 43 \<and>
     PutTags sample_tags (NewBuffer n) = (Ok (), b) \<and> Remaining b = 0 \<and>
     GetTags (SetPos 0 b) = (Ok (map tag_view sample_tags), b))"
proof -
  have ok: "list_all tag_ok sample_tags" "length sample_tags < 2 ^ 32" "TagsLength sample_tags = Ok 43"
    by (simp_all add: sample_tags_def tag_ok_def tag_typed_def TagsLength_def tagLength_def)
  from tags_round_trip [OF ok(1,2)] show ?thesis using ok by auto
qed

end
