(* ===== verification/Packets.thy ===== *)
theory Packets
  imports Wire_Tags
begin

section \<open>Packets (ed2k/packet.go)\<close>

text \<open>
  Building a packet from a list of typed items, the zlib form of a TCP packet, the file
  entry of a search result, and the receiving side: a header parsed by \<open>Init\<close> and a
  payload gathered chunk by chunk by \<open>Append\<close>.

  The zlib codec is not part of the repository: the compressor and the bounded
  decompressor are arguments of the definitions that use them.
\<close>

subsection \<open>Data\<close>

datatype item_value = IVal any | ITags "tag list"

record packet_item =
  pi_Type :: u8
  pi_Value :: item_value

record meta_info =
  mi_Kind :: u8
  mi_Version :: u8
  mi_FileIndex :: u32
  mi_FilePath :: bytes
  mi_TotalSize :: u64
  mi_CatalogID :: bytes
  mi_Seeders :: u32
  mi_Peers :: u32
  mi_AgeDays :: u32
  mi_Indexer :: bytes
  mi_Flags :: u32
  mi_Magnet :: bytes
  mi_Network :: u8

definition MetaKindED2K :: u8 where [simp]: "MetaKindED2K = 4"
definition storage_MetaNetworkWeb :: u8 where [simp]: "storage_MetaNetworkWeb = 5"

definition Native :: "meta_info option \<Rightarrow> bool" where
  "Native m = (case m of None \<Rightarrow> False | Some i \<Rightarrow> mi_Kind i = MetaKindED2K)"

record shared_file =
  sf_Name :: bytes
  sf_Size :: u64
  sf_Type :: bytes
  sf_Sources :: u32
  sf_Completed :: u32
  sf_Title :: bytes
  sf_Artist :: bytes
  sf_Album :: bytes
  sf_Runtime :: u32
  sf_Bitrate :: u32
  sf_Codec :: bytes
  sf_Hash :: bytes
  sf_SourceID :: u32
  sf_SourcePort :: u16
  sf_Meta :: "meta_info option"

record packet =
  pk_Protocol :: u8
  pk_Size :: u32
  pk_Code :: u8
  pk_Status :: nat
  pk_Data :: buffer
  pk_HasExcess :: bool
  pk_Excess :: bytes
  pk_recv :: bytes

definition PacketHeaderSize :: nat where [simp]: "PacketHeaderSize = 6"
definition itemTagsU8 :: u8 where [simp]: "itemTagsU8 = 0xfe"

definition NewPacket :: packet where
  "NewPacket = \<lparr>pk_Protocol = 0, pk_Size = 0, pk_Code = 0, pk_Status = PsNew,
     pk_Data = NewBuffer 0, pk_HasExcess = False, pk_Excess = [], pk_recv = []\<rparr>"

subsection \<open>Building packets\<close>

definition itemSize :: "packet_item \<Rightarrow> nat res" where
  "itemSize it =
     (if pi_Type it = TypeUint8 then Ok 1
      else if pi_Type it = TypeUint16 then Ok 2
      else if pi_Type it = TypeUint32 then Ok 4
      else if pi_Type it = TypeString then
        (case pi_Value it of IVal (AString v) \<Rightarrow> Ok (2 + length v) | _ \<Rightarrow> Err ErrUnsupportedTag)
      else if pi_Type it = TypeHash then Ok 16
      else if pi_Type it = TypeTags then
        (case pi_Value it of ITags v \<Rightarrow> TagsLength v | _ \<Rightarrow> Err ErrUnsupportedTag)
      else if pi_Type it = itemTagsU8 then
        (case pi_Value it of ITags v \<Rightarrow> map_res (\<lambda>n. n - 3) (TagsLength v) | _ \<Rightarrow> Err ErrUnsupportedTag)
      else Err (Wrapf ''0x%x'' [unat (pi_Type it)] ErrUnsupportedTag))"

definition putItem :: "packet_item \<Rightarrow> unit io" where
  "putItem it =
     (if pi_Type it = TypeUint8 then
        (case pi_Value it of IVal (AUint8 v) \<Rightarrow> PutUInt8 v
         | IVal (AInt v) \<Rightarrow> PutUInt8 (of_int v) | _ \<Rightarrow> fail ErrUnsupportedTag)
      else if pi_Type it = TypeUint16 then
        (case pi_Value it of IVal (AUint16 v) \<Rightarrow> PutUInt16LE v
         | IVal (AInt v) \<Rightarrow> PutUInt16LE (of_int v) | _ \<Rightarrow> fail ErrUnsupportedTag)
      else if pi_Type it = TypeUint32 then
        (case pi_Value it of IVal (AUint32 v) \<Rightarrow> PutUInt32LE v
         | IVal (AInt v) \<Rightarrow> PutUInt32LE (of_int v) | _ \<Rightarrow> fail ErrUnsupportedTag)
      else if pi_Type it = TypeString then
        (case pi_Value it of IVal (AString v) \<Rightarrow> PutString v | _ \<Rightarrow> fail ErrUnsupportedTag)
      else if pi_Type it = TypeHash then
        (case pi_Value it of IVal (ABytes v) \<Rightarrow> PutHash v | _ \<Rightarrow> fail ErrUnsupportedTag)
      else if pi_Type it = TypeTags then
        (case pi_Value it of ITags v \<Rightarrow> PutTags v | _ \<Rightarrow> fail ErrUnsupportedTag)
      else if pi_Type it = itemTagsU8 then
        (case pi_Value it of
           ITags v \<Rightarrow> bind_io (PutUInt8 (of_nat (length v))) (\<lambda>_. putTags_loop v)
         | _ \<Rightarrow> fail ErrUnsupportedTag)
      else fail ErrUnsupportedTag)"

fun itemsSize :: "nat \<Rightarrow> packet_item list \<Rightarrow> nat res" where
  "itemsSize sz [] = Ok sz"
| "itemsSize sz (it # its) = bind_res (itemSize it) (\<lambda>l. itemsSize (sz + l) its)"

fun putItems :: "packet_item list \<Rightarrow> unit io" where
  "putItems [] = ret ()"
| "putItems (it # its) = bind_io (putItem it) (\<lambda>_. putItems its)"

text \<open>
  \<open>runPut\<close> runs the writers on a fresh buffer and rewinds it (\<open>buf.Pos(0)\<close>), as both
  builders end.
\<close>

definition runPut :: "unit io \<Rightarrow> buffer \<Rightarrow> buffer res" where
  "runPut m b =
     (case m b of (Ok _, b') \<Rightarrow> Ok (SetPos 0 b') | (Err e, _) \<Rightarrow> Err e | (Panic, _) \<Rightarrow> Panic)"

definition MakePacket :: "u8 \<Rightarrow> packet_item list \<Rightarrow> buffer res" where
  "MakePacket protocol items =
     bind_res (itemsSize 0 items) (\<lambda>sz.
       runPut (bind_io (PutUInt8 protocol) (\<lambda>_.
               bind_io (PutUInt32LE (of_nat sz)) (\<lambda>_. putItems items)))
         (NewBuffer (5 + sz)))"

definition MakeUDPPacket :: "u8 \<Rightarrow> packet_item list \<Rightarrow> buffer res" where
  "MakeUDPPacket protocol items =
     bind_res (itemsSize 0 items) (\<lambda>sz.
       runPut (bind_io (PutUInt8 protocol) (\<lambda>_. putItems items)) (NewBuffer (1 + sz)))"

subsection \<open>Compression\<close>

definition MaybeCompressTCPPacket :: "(bytes \<Rightarrow> bytes) \<Rightarrow> buffer option \<Rightarrow> nat \<Rightarrow> buffer res" where
  "MaybeCompressTCPPacket deflate p minPayloadLen =
     (case p of None \<Rightarrow> Err ErrOutOfBounds
      | Some packet \<Rightarrow>
        let raw = buf_data packet in
        if length raw < 6 then Ok packet
        else if raw ! 0 \<noteq> PrED2K \<and> raw ! 0 \<noteq> PrEMule then Ok packet
        else let payload = drop 6 raw in
          if length payload < minPayloadLen then Ok packet
          else let compressed = deflate payload in
            if length compressed \<ge> length payload then Ok packet
            else runPut (bind_io (PutUInt8 PrZlib) (\<lambda>_.
                         bind_io (PutUInt32LE (of_nat (length compressed + 1))) (\<lambda>_.
                         bind_io (PutUInt8 (raw ! 5)) (\<lambda>_. PutBuffer compressed))))
                   (NewBuffer (6 + length compressed)))"

definition InflateZlibPayload :: "(nat \<Rightarrow> bytes \<Rightarrow> gerror + bytes) \<Rightarrow> bytes \<Rightarrow> bytes res" where
  "InflateZlibPayload inflate_upto payload =
     (case inflate_upto (MaxTCPPacketSize + 1) payload of
        Inl e \<Rightarrow> Err e
      | Inr out \<Rightarrow>
          if length out > MaxTCPPacketSize
          then Err (Wrapf ''inflated'' [MaxTCPPacketSize, MaxTCPPacketSize] ErrInflatedTooLarge)
          else Ok out)"

subsection \<open>Items\<close>

text \<open>The item literals the builders write.\<close>

definition item8 :: "u8 \<Rightarrow> packet_item" where
  "item8 v = \<lparr>pi_Type = TypeUint8, pi_Value = IVal (AUint8 v)\<rparr>"
definition item16 :: "u16 \<Rightarrow> packet_item" where
  "item16 v = \<lparr>pi_Type = TypeUint16, pi_Value = IVal (AUint16 v)\<rparr>"
definition item32 :: "u32 \<Rightarrow> packet_item" where
  "item32 v = \<lparr>pi_Type = TypeUint32, pi_Value = IVal (AUint32 v)\<rparr>"
definition itemHash :: "bytes \<Rightarrow> packet_item" where
  "itemHash h = \<lparr>pi_Type = TypeHash, pi_Value = IVal (ABytes h)\<rparr>"
definition itemString :: "bytes \<Rightarrow> packet_item" where
  "itemString s = \<lparr>pi_Type = TypeString, pi_Value = IVal (AString s)\<rparr>"
definition itemTags :: "tag list \<Rightarrow> packet_item" where
  "itemTags ts = \<lparr>pi_Type = TypeTags, pi_Value = ITags ts\<rparr>"
definition itemTags8 :: "tag list \<Rightarrow> packet_item" where
  "itemTags8 ts = \<lparr>pi_Type = itemTagsU8, pi_Value = ITags ts\<rparr>"

subsection \<open>File entries\<close>

definition mkTag :: "u8 \<Rightarrow> u8 \<Rightarrow> any \<Rightarrow> tag" where
  "mkTag typ code d = \<lparr>tag_Type = typ, tag_Code = code, tag_Data = d\<rparr>"

definition metaNetworkOf :: "meta_info \<Rightarrow> u8" where
  "metaNetworkOf m = (if mi_Network m = storage_MetaNetworkWeb then MetaNetworkWeb else MetaNetworkKad)"

definition appendMetaTags :: "tag list \<Rightarrow> meta_info \<Rightarrow> tag list" where
  "appendMetaTags tags m = tags @
     [mkTag TypeUint8 TagMetaKind (AUint8 (mi_Kind m)),
      mkTag TypeUint8 TagMetaVersion (AUint8 (mi_Version m)),
      mkTag TypeUint32 TagMetaFileIndex (AUint32 (mi_FileIndex m))] @
     (if mi_FilePath m \<noteq> [] then [mkTag TypeString TagMetaFilePath (AString (mi_FilePath m))] else []) @
     (if mi_TotalSize m > 0 then [mkTag TypeUint64 TagMetaTotalSize (AUint64 (mi_TotalSize m))] else []) @
     [mkTag TypeString TagMetaID (AString (mi_CatalogID m)),
      mkTag TypeUint32 TagMetaSeeders (AUint32 (mi_Seeders m)),
      mkTag TypeUint32 TagMetaPeers (AUint32 (mi_Peers m)),
      mkTag TypeUint32 TagMetaAge (AUint32 (mi_AgeDays m))] @
     (if mi_Indexer m \<noteq> [] then [mkTag TypeString TagMetaIndexer (AString (mi_Indexer m))] else []) @
     [mkTag TypeUint32 TagMetaFlags (AUint32 (mi_Flags m))] @
     (if mi_Magnet m \<noteq> [] then [mkTag TypeString TagMetaMagnet (AString (mi_Magnet m))] else [])"

definition baseTags :: "shared_file \<Rightarrow> tag list" where
  "baseTags f =
        [mkTag TypeString TagName (AString (sf_Name f)),
         mkTag TypeUint32 TagSize (AUint32 (ucast (sf_Size f mod 0x100000000))),
         mkTag TypeString TagType (AString (sf_Type f)),
         mkTag TypeUint32 TagSources (AUint32 (sf_Sources f)),
         mkTag TypeUint32 TagCompleteSources (AUint32 (sf_Completed f))] @
        (if sf_Size f \<ge> 0x100000000
         then [mkTag TypeUint32 TagSizeHi (AUint32 (ucast (sf_Size f div 0x100000000)))] else []) @
        (if sf_Title f \<noteq> [] then [mkTag TypeString TagMediaTitle (AString (sf_Title f))] else []) @
        (if sf_Artist f \<noteq> [] then [mkTag TypeString TagMediaArtist (AString (sf_Artist f))] else []) @
        (if sf_Album f \<noteq> [] then [mkTag TypeString TagMediaAlbum (AString (sf_Album f))] else []) @
        (if sf_Runtime f > 0 then [mkTag TypeUint32 TagMediaLength (AUint32 (sf_Runtime f))] else []) @
        (if sf_Bitrate f > 0 then [mkTag TypeUint32 TagMediaBitrate (AUint32 (sf_Bitrate f))] else []) @
        (if sf_Codec f \<noteq> [] then [mkTag TypeString TagMediaCodec (AString (sf_Codec f))] else [])"

definition fileTags :: "shared_file \<Rightarrow> tag list" where
  "fileTags f =
     (case sf_Meta f of
        None \<Rightarrow> baseTags f
      | Some m \<Rightarrow>
          if Native (sf_Meta f) then baseTags f @ [mkTag TypeUint8 TagMetaNetwork (AUint8 (metaNetworkOf m))]
          else appendMetaTags (baseTags f) m)"

definition AddFile :: "packet_item list \<Rightarrow> shared_file \<Rightarrow> packet_item list" where
  "AddFile pack f = pack @
     [itemHash (sf_Hash f), item32 (sf_SourceID f), item16 (sf_SourcePort f), itemTags (fileTags f)]"

subsection \<open>Receiving packets\<close>

text \<open>
  \<open>Append\<close> takes at most what is missing; \<^verbatim>\<open>int(p.Size)-len(p.recv)\<close> is an \<^verbatim>\<open>int\<close>, and
  a negative slice bound would panic.
\<close>

definition Append :: "bytes \<Rightarrow> packet \<Rightarrow> packet res" where
  "Append chunk p =
     (let tk = min (int (unat (pk_Size p)) - int (length (pk_recv p))) (int (length chunk)) in
      if tk < 0 then Panic
      else let p = p\<lparr>pk_recv := pk_recv p @ take (nat tk) chunk\<rparr> in
        if length (pk_recv p) < unat (pk_Size p) then
          Ok (p\<lparr>pk_Status := PsWaitingData, pk_HasExcess := False\<rparr>)
        else
          Ok (p\<lparr>pk_Data := NewBufferFromBytes (pk_recv p), pk_recv := [], pk_Status := PsReady,
                pk_HasExcess := (nat tk < length chunk),
                pk_Excess := (if nat tk < length chunk then drop (nat tk) chunk else pk_Excess p)\<rparr>))"

definition Init :: "buffer \<Rightarrow> packet \<Rightarrow> unit res \<times> packet" where
  "Init b p =
     (let p = p\<lparr>pk_HasExcess := False\<rparr> in
      (case GetUInt8 b of
         (Err e, _) \<Rightarrow> (Err e, p)
       | (Panic, _) \<Rightarrow> (Panic, p)
       | (Ok protocol, b) \<Rightarrow>
          (let p = p\<lparr>pk_Protocol := protocol\<rparr> in
           if protocol = PrED2K \<or> protocol = PrZlib \<or> protocol = PrEMule then
             (case GetUInt32LE b of
                (Err e, _) \<Rightarrow> (Err e, p)
              | (Panic, _) \<Rightarrow> (Panic, p)
              | (Ok sz, b) \<Rightarrow>
                  if sz = 0 then (Err ErrOutOfBounds, p)
                  else if unat (sz - 1) > MaxTCPPacketSize
                    then (Err (Wrapf ''declared'' [unat (sz - 1), MaxTCPPacketSize] ErrPacketTooLarge), p)
                  else
                    (let p = p\<lparr>pk_Size := sz - 1\<rparr> in
                     (case GetUInt8 b of
                        (Err e, _) \<Rightarrow> (Err e, p)
                      | (Panic, _) \<Rightarrow> (Panic, p)
                      | (Ok code, b) \<Rightarrow>
                          (let p = p\<lparr>pk_Code := code, pk_recv := [], pk_Data := NewBuffer 0\<rparr> in
                           (case GetAll b of
                              (Err e, _) \<Rightarrow> (Err e, p)
                            | (Panic, _) \<Rightarrow> (Panic, p)
                            | (Ok rest, _) \<Rightarrow>
                                (case Append rest p of
                                   Ok p' \<Rightarrow> (Ok (), p')
                                 | Err e \<Rightarrow> (Err e, p)
                                 | Panic \<Rightarrow> (Panic, p)))))))
           else (Err (Wrapf ''0x%x'' [unat protocol] ErrUnknownProtocol), p))))"

definition release :: "packet \<Rightarrow> packet" where
  "release p = p\<lparr>pk_Data := NewBuffer 0\<rparr>"

subsection \<open>A packet is exactly its header and its encoded items\<close>

definition item_typed :: "packet_item \<Rightarrow> bool" where
  "item_typed it =
     (if pi_Type it = TypeUint8 then (case pi_Value it of IVal (AUint8 v) \<Rightarrow> True | IVal (AInt v) \<Rightarrow> True | _ \<Rightarrow> False)
      else if pi_Type it = TypeUint16 then (case pi_Value it of IVal (AUint16 v) \<Rightarrow> True | IVal (AInt v) \<Rightarrow> True | _ \<Rightarrow> False)
      else if pi_Type it = TypeUint32 then (case pi_Value it of IVal (AUint32 v) \<Rightarrow> True | IVal (AInt v) \<Rightarrow> True | _ \<Rightarrow> False)
      else if pi_Type it = TypeString then (case pi_Value it of IVal (AString v) \<Rightarrow> True | _ \<Rightarrow> False)
      else if pi_Type it = TypeHash then (case pi_Value it of IVal (ABytes v) \<Rightarrow> length v = 16 | _ \<Rightarrow> False)
      else if pi_Type it = TypeTags \<or> pi_Type it = itemTagsU8 then
        (case pi_Value it of ITags v \<Rightarrow> list_all tag_typed v | _ \<Rightarrow> False)
      else False)"

definition enc_item :: "packet_item \<Rightarrow> bytes" where
  "enc_item it =
     (case pi_Value it of
        IVal (AUint8 v) \<Rightarrow> le_put 1 v
      | IVal (AUint16 v) \<Rightarrow> le_put 2 v
      | IVal (AUint32 v) \<Rightarrow> le_put 4 v
      | IVal (AInt v) \<Rightarrow> (if pi_Type it = TypeUint8 then le_put 1 (of_int v :: u8)
                        else if pi_Type it = TypeUint16 then le_put 2 (of_int v :: u16)
                        else le_put 4 (of_int v :: u32))
      | IVal (AString v) \<Rightarrow> enc_string v
      | IVal (ABytes v) \<Rightarrow> v
      | ITags v \<Rightarrow> (if pi_Type it = TypeTags then enc_tags v
                   else le_put 1 (of_nat (length v) :: u8) @ concat (map enc_tag v))
      | _ \<Rightarrow> [])"

abbreviation enc_items :: "packet_item list \<Rightarrow> bytes" where
  "enc_items its \<equiv> concat (map enc_item its)"

lemma item_typed_simps [simp]:
  "item_typed (item8 v8)" "item_typed (item16 v16)" "item_typed (item32 v32)"
  "item_typed (itemHash h) \<longleftrightarrow> length h = 16" "item_typed (itemString s)"
  "item_typed (itemTags ts) \<longleftrightarrow> list_all tag_typed ts"
  "item_typed (itemTags8 ts) \<longleftrightarrow> list_all tag_typed ts"
  by (simp_all add: item_typed_def item8_def item16_def item32_def itemHash_def itemString_def itemTags_def itemTags8_def)

lemma enc_item_simps [simp]:
  "enc_item (item8 v8) = le_put 1 v8" "enc_item (item16 v16) = le_put 2 v16" "enc_item (item32 v32) = le_put 4 v32"
  "enc_item (itemHash h) = h" "enc_item (itemString s) = enc_string s"
  "enc_item (itemTags ts) = enc_tags ts"
  "enc_item (itemTags8 ts) = le_put 1 (of_nat (length ts) :: u8) @ concat (map enc_tag ts)"
  by (simp_all add: enc_item_def item8_def item16_def item32_def itemHash_def itemString_def itemTags_def itemTags8_def)

lemma emits_putItem: "item_typed it \<Longrightarrow> emits (putItem it) (enc_item it)"
  unfolding item_typed_def putItem_def enc_item_def
  by (auto simp del: le_put.simps One_nat_def split: if_splits item_value.splits any.splits
      intro: emits_intros emits_PutTags emits_bind [OF emits_PutUInt8 emits_putTags_loop])

lemma itemSize_typed: "item_typed it \<Longrightarrow> itemSize it = Ok (length (enc_item it))"
  unfolding item_typed_def itemSize_def enc_item_def
  by (auto simp: TagsLength_typed enc_tags_def enc_string_def simp del: le_put.simps One_nat_def
      split: if_splits item_value.splits any.splits)

lemma itemsSize_typed: "list_all item_typed its \<Longrightarrow> itemsSize n its = Ok (n + length (enc_items its))"
  by (induction its arbitrary: n) (simp_all add: itemSize_typed)

lemma emits_putItems: "list_all item_typed its \<Longrightarrow> emits (putItems its) (enc_items its)"
  by (induction its) (auto intro!: emits_intros emits_putItem)

lemma runPut_emits:
  assumes "emits m xs" "length xs = n"
  shows "runPut m (NewBuffer n) = Ok (NewBufferFromBytes xs)"
  using emitsD [OF assms(1), of "replicate n 0" "[]" "[]"] assms(2)
  by (simp add: runPut_def NewBuffer_def NewBufferFromBytes_def SetPos_def)

lemma MakePacket_typed:
  assumes "list_all item_typed its"
  shows "MakePacket pr its =
    Ok (NewBufferFromBytes (le_put 1 pr @ le_put 4 (of_nat (length (enc_items its)) :: u32) @ enc_items its))"
  using runPut_emits [OF emits_bind [OF emits_PutUInt8 emits_bind [OF emits_PutUInt32LE emits_putItems [OF assms]]]]
  by (simp add: MakePacket_def itemsSize_typed [OF assms] del: le_put.simps One_nat_def)

lemma MakeUDPPacket_typed:
  assumes "list_all item_typed its"
  shows "MakeUDPPacket pr its = Ok (NewBufferFromBytes (le_put 1 pr @ enc_items its))"
  using runPut_emits [OF emits_bind [OF emits_PutUInt8 emits_putItems [OF assms]]]
  by (simp add: MakeUDPPacket_def itemsSize_typed [OF assms] del: le_put.simps One_nat_def)

subsection \<open>The header and the payload of a received packet\<close>

definition enc_header :: "u8 \<Rightarrow> u32 \<Rightarrow> u8 \<Rightarrow> bytes" where
  "enc_header pr sz code = le_put 1 pr @ le_put 4 sz @ le_put 1 code"

lemma length_enc_header [simp]: "length (enc_header pr sz code) = PacketHeaderSize"
  by (simp add: enc_header_def)

lemma Append_room:
  fixes chunk :: bytes and p :: packet
  assumes "length (pk_recv p) \<le> unat (pk_Size p)"
  defines "k \<equiv> min (unat (pk_Size p) - length (pk_recv p)) (length chunk)"
  shows "Append chunk p =
    (if length (pk_recv p) + length chunk < unat (pk_Size p)
     then Ok (p\<lparr>pk_recv := pk_recv p @ chunk, pk_Status := PsWaitingData, pk_HasExcess := False\<rparr>)
     else Ok (p\<lparr>pk_Data := NewBufferFromBytes (pk_recv p @ take k chunk), pk_recv := [], pk_Status := PsReady,
          pk_HasExcess := (k < length chunk), pk_Excess := (if k < length chunk then drop k chunk else pk_Excess p)\<rparr>))"
proof -
  have "min (int s - int r) (int c) = int (min (s - r) c)" if "r \<le> s" for s r c :: nat
    using that by simp
  from this [OF assms(1)]
  have "min (int (unat (pk_Size p)) - int (length (pk_recv p))) (int (length chunk)) = int k"
    unfolding k_def by blast
  then show ?thesis
    using assms(1) by (simp only: Append_def Let_def nat_int of_nat_less_0_iff if_False) (auto simp: k_def)
qed

definition accepts :: "u8 \<Rightarrow> u32 \<Rightarrow> bool" where
  "accepts pr sz \<longleftrightarrow> (pr = PrED2K \<or> pr = PrZlib \<or> pr = PrEMule) \<and> sz \<noteq> 0 \<and> unat (sz - 1) \<le> MaxTCPPacketSize"

lemma GetAll_at: "GetAll (buf_at pre rest) = (Ok rest, buf_at (pre @ rest) [])"
  by (simp add: GetAll_def)

lemma Init_header:
  assumes "accepts pr sz"
  shows "Init (NewBufferFromBytes (enc_header pr sz code @ rest)) p =
    (case Append rest (p\<lparr>pk_HasExcess := False, pk_Protocol := pr, pk_Size := sz - 1, pk_Code := code,
                          pk_recv := [], pk_Data := NewBuffer 0\<rparr>) of
       Ok p' \<Rightarrow> (Ok (), p')
     | Err e \<Rightarrow> (Err e, p\<lparr>pk_HasExcess := False, pk_Protocol := pr, pk_Size := sz - 1, pk_Code := code,
                          pk_recv := [], pk_Data := NewBuffer 0\<rparr>)
     | Panic \<Rightarrow> (Panic, p\<lparr>pk_HasExcess := False, pk_Protocol := pr, pk_Size := sz - 1, pk_Code := code,
                          pk_recv := [], pk_Data := NewBuffer 0\<rparr>))"
proof -
  have r: "NewBufferFromBytes (enc_header pr sz code @ rest) = buf_at [] (le_put 1 pr @ le_put 4 sz @ le_put 1 code @ rest)"
    by (simp add: NewBufferFromBytes_def enc_header_def)
  show ?thesis
    using assms unfolding r Init_def Let_def accepts_def
    by (simp only: readsD [OF reads_GetUInt8] readsD [OF reads_GetUInt32LE] prod.case res.case GetAll_at)
     simp
qed

lemma Append_split:
  assumes "length (pk_recv p) \<le> unat (pk_Size p)" "Append xs p = Ok p1" "pk_Status p1 = PsWaitingData"
  shows "Append ys p1 = Append (xs @ ys) p"
proof -
  have w: "length (pk_recv p) + length xs < unat (pk_Size p)"
    "p1 = p\<lparr>pk_recv := pk_recv p @ xs, pk_Status := PsWaitingData, pk_HasExcess := False\<rparr>"
    using assms by (auto simp: Append_room split: if_splits)
  define k where "k = unat (pk_Size p) - length (pk_recv p) - length xs"
  have k: "unat (pk_Size p) - (length (pk_recv p) + length xs) = k"
     "unat (pk_Size p) - length (pk_recv p) = length xs + k" using w(1) by (simp_all add: k_def)
  show ?thesis
  proof (cases "length (pk_recv p) + length (xs @ ys) < unat (pk_Size p)")
    case True
    then show ?thesis using w by (simp add: Append_room)
  next
    case False
    then have "length ys \<ge> k" by (simp add: k_def)
    then show ?thesis using w(1) False by (simp add: Append_room w(2) k min_def)
  qed
qed

definition packet_inv :: "packet \<Rightarrow> bool" where
  "packet_inv p \<longleftrightarrow> pk_Status p \<in> {PsNew, PsReady, PsWaitingData} \<and> unat (pk_Size p) \<le> MaxTCPPacketSize \<and>
     (pk_Status p = PsWaitingData \<longrightarrow> length (pk_recv p) < unat (pk_Size p))"

lemma Append_inv:
  assumes "length (pk_recv p) \<le> unat (pk_Size p)" "unat (pk_Size p) \<le> MaxTCPPacketSize"
  shows "\<exists>p'. Append chunk p = Ok p' \<and> packet_inv p' \<and> pk_Status p' \<noteq> PsNew
     \<and> pk_Size p' = pk_Size p \<and> pk_Code p' = pk_Code p \<and> pk_Protocol p' = pk_Protocol p
     \<and> (pk_Status p' = PsReady \<longrightarrow> length (buf_data (pk_Data p')) = unat (pk_Size p))"
  using assms by (auto simp: Append_room packet_inv_def NewBufferFromBytes_def)

text \<open>Six bytes or more start with a header; fewer never pass \<open>Init\<close>.\<close>

lemma header_bytes:
  assumes "PacketHeaderSize \<le> length bs"
  obtains pr sz code where "bs = enc_header pr sz code @ drop PacketHeaderSize bs"
proof -
  define pr sz code where "pr = (le_get (take 1 bs) :: u8)" "sz = (le_get (take 4 (drop 1 bs)) :: u32)"
    "code = (le_get (take 1 (drop 5 bs)) :: u8)"
  have "take 1 bs = le_put 1 pr" "take 4 (drop 1 bs) = le_put 4 sz" "take 1 (drop 5 bs) = le_put 1 code"
    using assms unfolding pr_sz_code_def by (intro le_put_get_length [symmetric]; simp)+
  then have "enc_header pr sz code = take 1 bs @ take 4 (drop 1 bs) @ take 1 (drop 5 bs)"
    by (simp add: enc_header_def del: le_put.simps)
  also have "\<dots> @ drop 6 bs = bs"
    using append_take_drop_id [of 1 bs] append_take_drop_id [of 4 "drop 1 bs"] append_take_drop_id [of 1 "drop 5 bs"]
    by (simp del: append_take_drop_id One_nat_def)
  finally have "bs = enc_header pr sz code @ drop PacketHeaderSize bs" by simp
  then show ?thesis by (rule that)
qed

lemma Init_reject:
  assumes "\<not> accepts pr sz"
  shows "\<exists>e p'. Init (NewBufferFromBytes (enc_header pr sz code @ rest)) p = (Err e, p') \<and>
    pk_Status p' = pk_Status p \<and> \<not> pk_HasExcess p' \<and> pk_Excess p' = pk_Excess p \<and> pk_recv p' = pk_recv p"
proof -
  have r: "NewBufferFromBytes (enc_header pr sz code @ rest) = buf_at [] (le_put 1 pr @ le_put 4 sz @ le_put 1 code @ rest)"
    by (simp add: NewBufferFromBytes_def enc_header_def)
  show ?thesis
    using assms unfolding r Init_def Let_def accepts_def
    by (simp only: readsD [OF reads_GetUInt8] readsD [OF reads_GetUInt32LE] prod.case res.case GetAll_at)
     (auto simp: not_le)
qed

lemma Init_accept:
  assumes "accepts pr sz"
  shows "\<exists>p'. Init (NewBufferFromBytes (enc_header pr sz code @ rest)) p = (Ok (), p') \<and> packet_inv p' \<and> pk_Status p' \<noteq> PsNew
     \<and> pk_Size p' = sz - 1 \<and> pk_Code p' = code \<and> pk_Protocol p' = pr
     \<and> (pk_Status p' = PsReady \<longrightarrow> length (buf_data (pk_Data p')) = unat (sz - 1))"
  using assms Append_inv [of "p\<lparr>pk_HasExcess := False, pk_Protocol := pr, pk_Size := sz - 1, pk_Code := code,
                          pk_recv := [], pk_Data := NewBuffer 0\<rparr>" rest]
  by (auto simp: Init_header accepts_def)

lemma accepts_length:
  assumes "pr = PrED2K \<or> pr = PrZlib \<or> pr = PrEMule" "n \<le> MaxTCPPacketSize"
  shows "accepts pr (of_nat (n + 1))" "unat (of_nat (n + 1) - 1 :: u32) = n"
proof -
  have u: "unat (of_nat (n + 1) - 1 :: u32) = n" using assms(2) by (simp add: unat_of_nat_lt)
  have "(of_nat (n + 1) :: u32) \<noteq> 0" using unat_of_nat_lt [of "n + 1", where 'a = 32] assms(2) by force
  then show "accepts pr (of_nat (n + 1))" using assms u by (simp add: accepts_def)
  show "unat (of_nat (n + 1) - 1 :: u32) = n" by (rule u)
qed

lemma MakePacket_bytes:
  assumes "list_all item_typed its"
  shows "MakePacket pr (item8 code # its) =
    Ok (NewBufferFromBytes (enc_header pr (of_nat (length (enc_items its) + 1)) code @ enc_items its))"
  using MakePacket_typed [of "item8 code # its"] assms
  by (simp add: enc_header_def add.commute del: le_put.simps One_nat_def of_nat_Suc)

lemma MakePacket_Init:
  assumes "list_all item_typed its" "pr = PrED2K \<or> pr = PrZlib \<or> pr = PrEMule"
    "length (enc_items its) \<le> MaxTCPPacketSize"
  shows "\<exists>b p'. MakePacket pr (item8 code # its) = Ok b \<and> Init b p = (Ok (), p') \<and>
    pk_Status p' = PsReady \<and> \<not> pk_HasExcess p' \<and> pk_Protocol p' = pr \<and> pk_Code p' = code \<and>
    unat (pk_Size p') = length (enc_items its) \<and> pk_Data p' = NewBufferFromBytes (enc_items its)"
  using accepts_length [OF assms(2,3)] assms(1)
  by (simp add: MakePacket_bytes Init_header Append_room del: of_nat_add of_nat_Suc)

subsection \<open>A file entry is read back as it was written\<close>

definition enc_file :: "shared_file \<Rightarrow> bytes" where
  "enc_file f = sf_Hash f @ le_put 4 (sf_SourceID f) @ le_put 2 (sf_SourcePort f) @ enc_tags (fileTags f)"

definition file_ok :: "shared_file \<Rightarrow> bool" where
  "file_ok f \<longleftrightarrow> length (sf_Hash f) = 16 \<and> list_all tag_ok (fileTags f)"

definition sent_record :: "bool \<Rightarrow> shared_file \<Rightarrow> file_record" where
  "sent_record k f =
     fold (storeTag k) (map tag_view (fileTags f)) (newFileRecord (sf_Hash f) (sf_SourceID f) (sf_SourcePort f))"

lemma length_optional: "length (if c then [x] else []) \<le> 1"
  by simp

lemma length_fileTags: "length (fileTags f) \<le> 25"
proof -
  have b: "length (baseTags f) \<le> 5 + (1 + (1 + (1 + (1 + (1 + (1 + 1))))))"
    unfolding baseTags_def length_append by (intro add_mono length_optional) simp
  have m: "length (appendMetaTags ts m) \<le> length ts + (3 + (1 + (1 + (4 + (1 + (1 + 1))))))" for ts m
    unfolding appendMetaTags_def length_append by (intro add_mono length_optional) simp_all
  show ?thesis using b m [of "baseTags f" "the (sf_Meta f)"] by (auto simp: fileTags_def split: option.splits)
qed

lemma reads_getFileRecord:
  assumes "file_ok f"
  shows "reads (getFileRecord k i) (enc_file f) (sent_record k f)"
proof -
  have "length (fileTags f) < 2 ^ 32" using length_fileTags [of f] by simp
  with assms show ?thesis
    unfolding getFileRecord_def enc_file_def sent_record_def file_ok_def
    by (intro reads_bind [OF reads_Get16]) (simp_all,
      intro reads_bind [OF reads_GetUInt32LE] reads_bind [OF reads_GetUInt16LE] reads_wrap_err reads_getFileTags, simp_all)
qed

lemma reads_getFileList_loop:
  "list_all file_ok fs \<Longrightarrow>
   reads (getFileList_loop k i (length fs)) (concat (map enc_file fs)) (map (sent_record k) fs)"
proof (induction fs arbitrary: i)
  case (Cons f fs)
  then show ?case by (auto intro!: reads_bind reads_getFileRecord reads_bind_ret)
qed (simp add: reads_ret)

lemma length_enc_file: "length (sf_Hash f) = 16 \<Longrightarrow> minFileRecordBytes \<le> length (enc_file f)"
  by (simp add: enc_file_def enc_tags_def)

lemma length_concat_enc_file:
  "list_all file_ok fs \<Longrightarrow> length fs * minFileRecordBytes \<le> length (concat (map enc_file fs))"
  by (induction fs) (use length_enc_file in \<open>fastforce simp: file_ok_def\<close>)+

lemma reads_getFileList:
  assumes "list_all file_ok fs" "length fs < 2 ^ 32"
  shows "reads (getFileList k) (le_put 4 (of_nat (length fs) :: u32) @ concat (map enc_file fs)) (map (sent_record k) fs)"
proof -
  have n: "unat (of_nat (length fs) :: u32) = length fs" using assms(2) by (simp add: unat_of_nat_lt)
  show ?thesis
    unfolding getFileList_def
    by (intro reads_bind [OF reads_GetUInt32LE] reads_bind_remaining)
      (use length_concat_enc_file [OF assms(1)] reads_getFileList_loop [OF assms(1)] in
       \<open>simp add: n checkWireCount_room [where k = minFileRecordBytes, simplified]\<close>)
qed

definition known_names :: "bytes list" where
  "known_names = map str [''name'', ''type'', ''title'', ''artist'', ''album'', ''codec'', ''sources'',
     ''length'', ''bitrate'', ''size'', ''sizehi'']"

lemma storeTag_unknown:
  assumes "nt_Name t \<notin> set known_names"
  shows "storeTag k t r = (if k then r\<lparr>fr_Extra := fr_Extra r @ [t]\<rparr> else r)"
  using assms by (simp add: storeTag_def SetTag_def known_names_def)

lemma fold_storeTag_unknown:
  "list_all (\<lambda>t. tagName (tag_Code t) \<notin> set known_names) ts \<Longrightarrow>
   fold (storeTag k) (map tag_view ts) r = r\<lparr>fr_Extra := fr_Extra r @ (if k then map tag_view ts else [])\<rparr>"
  by (induction ts arbitrary: r) (simp_all add: storeTag_unknown tag_view_def namedTag_def)

lemma storeTag_known:
  "storeTag k (tag_view (mkTag TypeString TagName (AString s))) r = r\<lparr>fr_Name := s\<rparr>"
  "storeTag k (tag_view (mkTag TypeString TagType (AString s))) r = r\<lparr>fr_Type := s\<rparr>"
  "storeTag k (tag_view (mkTag TypeString TagMediaTitle (AString s))) r = r\<lparr>fr_Title := s\<rparr>"
  "storeTag k (tag_view (mkTag TypeString TagMediaArtist (AString s))) r = r\<lparr>fr_Artist := s\<rparr>"
  "storeTag k (tag_view (mkTag TypeString TagMediaAlbum (AString s))) r = r\<lparr>fr_Album := s\<rparr>"
  "storeTag k (tag_view (mkTag TypeString TagMediaCodec (AString s))) r = r\<lparr>fr_Codec := s\<rparr>"
  by (simp_all add: storeTag_def SetTag_def tag_view_def namedTag_def mkTag_def tagName_def tag_value_def as_string_def)

lemma ucast_u32_le: "(ucast (n :: u32) :: u64) \<le> 0xffffffff"
proof -
  have "unat n < 2 ^ 32" using unsigned_less [of n] by simp
  then show ?thesis by (simp add: word_le_nat_alt)
qed

lemma tagUint32_u32 [simp]: "tagUint32 (AUint64 (ucast (n :: u32))) = n"
  using leD [OF ucast_u32_le [of n]] by (simp add: tagUint32_def)

lemma storeTag_known_u32:
  "storeTag k (tag_view (mkTag TypeUint32 TagSources (AUint32 n))) r = r\<lparr>fr_Sources := n\<rparr>"
  "storeTag k (tag_view (mkTag TypeUint32 TagMediaLength (AUint32 n))) r = r\<lparr>fr_Length := n\<rparr>"
  "storeTag k (tag_view (mkTag TypeUint32 TagMediaBitrate (AUint32 n))) r = r\<lparr>fr_Bitrate := n\<rparr>"
  "storeTag k (tag_view (mkTag TypeUint32 TagSize (AUint32 n))) r =
     r\<lparr>fr_sizeLo := ucast n, fr_SizeLo := n, fr_Size := ucast n + fr_sizeHi r * 0x100000000\<rparr>"
  "storeTag k (tag_view (mkTag TypeUint32 TagSizeHi (AUint32 n))) r =
     r\<lparr>fr_sizeHi := ucast n, fr_SizeHi := n, fr_Size := fr_sizeLo r + ucast n * 0x100000000\<rparr>"
  by (simp_all add: storeTag_def SetTag_def tag_view_def namedTag_def mkTag_def tagName_def tag_value_def as_uint64_def
      Let_def)

lemma storeTag_CompleteSources:
  "storeTag k (tag_view (mkTag TypeUint32 TagCompleteSources d)) r =
     r\<lparr>fr_Extra := fr_Extra r @ (if k then [tag_view (mkTag TypeUint32 TagCompleteSources d)] else [])\<rparr>"
proof -
  have "nt_Name (tag_view (mkTag TypeUint32 TagCompleteSources d)) \<notin> set known_names"
    by (simp add: tag_view_def namedTag_def mkTag_def tagName_def known_names_def hexByte_def)
  from storeTag_unknown [OF this] show ?thesis by simp
qed

lemma store_optional_string:
  "fr_Title r = [] \<Longrightarrow> fold (storeTag k) (map tag_view (if x \<noteq> [] then [mkTag TypeString TagMediaTitle (AString x)] else [])) r = r\<lparr>fr_Title := x\<rparr>"
  "fr_Artist r = [] \<Longrightarrow> fold (storeTag k) (map tag_view (if x \<noteq> [] then [mkTag TypeString TagMediaArtist (AString x)] else [])) r = r\<lparr>fr_Artist := x\<rparr>"
  "fr_Album r = [] \<Longrightarrow> fold (storeTag k) (map tag_view (if x \<noteq> [] then [mkTag TypeString TagMediaAlbum (AString x)] else [])) r = r\<lparr>fr_Album := x\<rparr>"
  "fr_Codec r = [] \<Longrightarrow> fold (storeTag k) (map tag_view (if x \<noteq> [] then [mkTag TypeString TagMediaCodec (AString x)] else [])) r = r\<lparr>fr_Codec := x\<rparr>"
  by (cases "x = []", simp, simp only: not_False_eq_True if_True list.map fold_simps storeTag_known)+

lemma store_optional_u32:
  "fr_Length r = 0 \<Longrightarrow> fold (storeTag k) (map tag_view (if x > 0 then [mkTag TypeUint32 TagMediaLength (AUint32 x)] else [])) r = r\<lparr>fr_Length := x\<rparr>"
  "fr_Bitrate r = 0 \<Longrightarrow> fold (storeTag k) (map tag_view (if x > 0 then [mkTag TypeUint32 TagMediaBitrate (AUint32 x)] else [])) r = r\<lparr>fr_Bitrate := x\<rparr>"
  by (cases "x > 0", simp only: if_True list.map fold_simps storeTag_known_u32, simp add: word_gt_0)+

lemma store_optional_hi:
  assumes "fr_sizeLo r = x mod 0x100000000" "fr_sizeHi r = 0" "fr_SizeHi r = 0" "fr_Size r = x mod 0x100000000"
  shows "fold (storeTag k) (map tag_view (if x \<ge> 0x100000000
           then [mkTag TypeUint32 TagSizeHi (AUint32 (ucast (x div 0x100000000)))] else [])) r =
    r\<lparr>fr_sizeHi := x div 0x100000000, fr_SizeHi := ucast (x div 0x100000000), fr_Size := x\<rparr>"
proof (cases "x \<ge> 0x100000000")
  case True
  then show ?thesis
    using assms by (simp only: if_True list.map fold_simps storeTag_known_u32 split_halves size_halves)
next
  case False
  then show ?thesis using assms size_no_hi [OF False] by simp
qed

definition meta_tags :: "shared_file \<Rightarrow> tag list" where
  "meta_tags f = (case sf_Meta f of None \<Rightarrow> [] | Some m \<Rightarrow>
     if Native (sf_Meta f) then [mkTag TypeUint8 TagMetaNetwork (AUint8 (metaNetworkOf m))]
     else appendMetaTags [] m)"

lemma fileTags_split: "fileTags f = baseTags f @ meta_tags f"
  by (simp add: fileTags_def meta_tags_def appendMetaTags_def split: option.splits)

lemma meta_tags_unknown: "list_all (\<lambda>t. tagName (tag_Code t) \<notin> set known_names) (meta_tags f)"
  by (simp add: meta_tags_def appendMetaTags_def mkTag_def tagName_def known_names_def hexByte_def split: option.splits)

lemma sent_record_base:
  "fold (storeTag k) (map tag_view (baseTags f)) (newFileRecord h fid port) =
   (newFileRecord h fid port)\<lparr>
     fr_Name := sf_Name f, fr_Type := sf_Type f, fr_Sources := sf_Sources f, fr_Size := sf_Size f,
     fr_SizeLo := ucast (sf_Size f mod 0x100000000), fr_SizeHi := ucast (sf_Size f div 0x100000000),
     fr_sizeLo := sf_Size f mod 0x100000000, fr_sizeHi := sf_Size f div 0x100000000,
     fr_Title := sf_Title f, fr_Artist := sf_Artist f, fr_Album := sf_Album f, fr_Length := sf_Runtime f,
     fr_Bitrate := sf_Bitrate f, fr_Codec := sf_Codec f,
     fr_Extra := (if k then [tag_view (mkTag TypeUint32 TagCompleteSources (AUint32 (sf_Completed f)))] else [])\<rparr>"
  by (simp only: baseTags_def map_append fold_append comp_apply list.map fold_simps storeTag_known storeTag_known_u32
      storeTag_CompleteSources split_halves store_optional_string store_optional_u32 store_optional_hi newFileRecord_def
      file_record.simps mult_zero_left add_0_right append_Nil)

lemma sent_record_fields:
  "sent_record k f =
   (newFileRecord (sf_Hash f) (sf_SourceID f) (sf_SourcePort f))\<lparr>
     fr_Name := sf_Name f, fr_Type := sf_Type f, fr_Sources := sf_Sources f, fr_Size := sf_Size f,
     fr_SizeLo := ucast (sf_Size f mod 0x100000000), fr_SizeHi := ucast (sf_Size f div 0x100000000),
     fr_sizeLo := sf_Size f mod 0x100000000, fr_sizeHi := sf_Size f div 0x100000000,
     fr_Title := sf_Title f, fr_Artist := sf_Artist f, fr_Album := sf_Album f, fr_Length := sf_Runtime f,
     fr_Bitrate := sf_Bitrate f, fr_Codec := sf_Codec f,
     fr_Extra := (if k then tag_view (mkTag TypeUint32 TagCompleteSources (AUint32 (sf_Completed f)))
                            # map tag_view (meta_tags f) else [])\<rparr>"
  unfolding sent_record_def fileTags_split map_append fold_append comp_apply sent_record_base
    fold_storeTag_unknown [OF meta_tags_unknown]
  by simp

lemma tag_ok_mkTag [simp]:
  "tag_ok (mkTag TypeString c (AString s)) \<longleftrightarrow> length s < 2 ^ 16"
  "tag_ok (mkTag TypeUint8 c (AUint8 v8))" "tag_ok (mkTag TypeUint32 c (AUint32 v32))"
  "tag_ok (mkTag TypeUint64 c (AUint64 v64))"
  by (simp_all add: tag_ok_def tag_typed_def mkTag_def)

lemma file_ok_typed: "file_ok f \<Longrightarrow> list_all tag_typed (fileTags f)"
  by (simp add: file_ok_def list_all_iff tag_ok_def)

lemma item_typed_AddFile:
  "list_all item_typed its \<Longrightarrow> file_ok f \<Longrightarrow> list_all item_typed (AddFile its f)"
  by (simp add: AddFile_def file_ok_typed) (simp add: file_ok_def)

lemma enc_items_AddFile: "enc_items (AddFile its f) = enc_items its @ enc_file f"
  by (simp add: AddFile_def enc_file_def)

lemma Init_short:
  assumes "length bs < PacketHeaderSize"
  shows "\<exists>e p'. Init (NewBufferFromBytes bs) p = (Err e, p') \<and>
    pk_Status p' = pk_Status p \<and> \<not> pk_HasExcess p' \<and> pk_Excess p' = pk_Excess p \<and> pk_recv p' = pk_recv p"
proof -
  consider "bs = []" | pr :: u8 and bs' where "bs = le_put 1 pr @ bs'" "length bs' < 4"
    | pr :: u8 and sz :: u32 where "bs = le_put 1 pr @ le_put 4 sz"
  proof (cases bs)
    case (Cons pr bs')
    have b: "bs = le_put 1 pr @ bs'" using Cons by simp
    show ?thesis
    proof (cases "length bs' < 4")
      case False
      then have "bs' = le_put 4 (le_get bs' :: u32)"
        using assms Cons by (intro le_put_get_length [symmetric]) simp_all
      then show ?thesis using that(3) b by metis
    qed (use that(2) b in blast)
  qed (rule that(1))
  then show ?thesis
  proof cases
    case 1
    then show ?thesis by (simp add: Init_def io_eval)
  next
    case (2 pr bs')
    have "GetUInt8 (buf_at [] (le_put 1 pr @ bs')) = (Ok pr, buf_at (le_put 1 pr) bs')"
      using readsD [OF reads_GetUInt8, of "[]"] by (simp del: le_put.simps One_nat_def)
    moreover have "GetUInt32LE (buf_at (le_put 1 pr) bs') = (Err ErrOutOfBounds, buf_at (le_put 1 pr) bs')"
      using 2 by (simp add: GetUInt32LE_def bind_io_def require_def)
    ultimately show ?thesis using 2
      by (simp add: Init_def NewBufferFromBytes_def Let_def del: le_put.simps One_nat_def)
  next
    case (3 pr sz)
    have "GetUInt8 (buf_at [] (le_put 1 pr @ le_put 4 sz)) = (Ok pr, buf_at (le_put 1 pr) (le_put 4 sz))"
      using readsD [OF reads_GetUInt8, of "[]"] by (simp del: le_put.simps One_nat_def)
    moreover have "GetUInt32LE (buf_at (le_put 1 pr) (le_put 4 sz)) = (Ok sz, buf_at (le_put 1 pr @ le_put 4 sz) [])"
      using readsD [OF reads_GetUInt32LE, of "le_put 1 pr" sz "[]"] by (simp del: le_put.simps One_nat_def)
    moreover have "GetUInt8 (buf_at (le_put 1 pr @ le_put 4 sz) []) = (Err ErrOutOfBounds, buf_at (le_put 1 pr @ le_put 4 sz) [])"
      by (simp add: GetUInt8_def bind_io_def require_def)
    ultimately show ?thesis using 3
      by (auto simp: Init_def NewBufferFromBytes_def Let_def simp del: le_put.simps One_nat_def)
  qed
qed

lemma Init_Err_status:
  assumes "Init (NewBufferFromBytes bs) p = (Err e, p')"
  shows "pk_Status p' = pk_Status p \<and> \<not> pk_HasExcess p' \<and> pk_Excess p' = pk_Excess p \<and> pk_recv p' = pk_recv p"
proof (cases "PacketHeaderSize \<le> length bs")
  case True
  then obtain pr sz code where bs: "bs = enc_header pr sz code @ drop PacketHeaderSize bs" by (rule header_bytes)
  show ?thesis
  proof (cases "accepts pr sz")
    case acc: True
    from Init_accept [OF acc, of code "drop PacketHeaderSize bs" p] assms show ?thesis
      unfolding bs [symmetric] by auto
  next
    case False
    from Init_reject [OF False, of code "drop PacketHeaderSize bs" p] assms show ?thesis
      unfolding bs [symmetric] by auto
  qed
next
  case False
  then show ?thesis using Init_short [of bs p] assms by auto
qed

lemma emits_zlib_packet:
  "emits (bind_io (PutUInt8 PrZlib) (\<lambda>_. bind_io (PutUInt32LE (of_nat (length z + 1))) (\<lambda>_.
      bind_io (PutUInt8 code) (\<lambda>_. PutBuffer z)))) (enc_header PrZlib (of_nat (length z + 1)) code @ z)"
  unfolding enc_header_def append_assoc by (intro emits_intros emits_PutBuffer)

text \<open>The packet goes out unchanged or as its zlib form, never as an error.\<close>

lemma MaybeCompressTCPPacket_cases:
  obtains (same) "MaybeCompressTCPPacket deflate (Some b) m = Ok b"
    | (zlib) z where "z = deflate (drop 6 (buf_data b))" "PacketHeaderSize \<le> length (buf_data b)"
        "buf_data b ! 0 = PrED2K \<or> buf_data b ! 0 = PrEMule" "m \<le> length (drop 6 (buf_data b))"
        "length z < length (drop 6 (buf_data b))"
        "MaybeCompressTCPPacket deflate (Some b) m =
           Ok (NewBufferFromBytes (enc_header PrZlib (of_nat (length z + 1)) (buf_data b ! 5) @ z))"
proof -
  let ?z = "deflate (drop 6 (buf_data b))"
  let ?ok = "PacketHeaderSize \<le> length (buf_data b) \<and> (buf_data b ! 0 = PrED2K \<or> buf_data b ! 0 = PrEMule) \<and>
    m \<le> length (drop 6 (buf_data b)) \<and> length ?z < length (drop 6 (buf_data b))"
  show ?thesis
  proof (cases ?ok)
    case True
    have "MaybeCompressTCPPacket deflate (Some b) m =
        runPut (bind_io (PutUInt8 PrZlib) (\<lambda>_. bind_io (PutUInt32LE (of_nat (length ?z + 1))) (\<lambda>_.
          bind_io (PutUInt8 (buf_data b ! 5)) (\<lambda>_. PutBuffer ?z)))) (NewBuffer (6 + length ?z))"
      using True by (auto simp: MaybeCompressTCPPacket_def Let_def not_less)
    also have "\<dots> = Ok (NewBufferFromBytes (enc_header PrZlib (of_nat (length ?z + 1)) (buf_data b ! 5) @ ?z))"
      by (rule runPut_emits [OF emits_zlib_packet]) simp
    finally show ?thesis using zlib [OF refl] True by blast
  next
    case False
    then have "MaybeCompressTCPPacket deflate (Some b) m = Ok b"
      by (auto simp: MaybeCompressTCPPacket_def Let_def not_less not_le)
    then show ?thesis by (rule same)
  qed
qed

text \<open>
  What the code relies on of the codec: reading up to \<open>n\<close> bytes of the stream
  \<open>deflate xs\<close> gives the first \<open>n\<close> bytes of \<open>xs\<close>.
\<close>

definition zlib_codec :: "(bytes \<Rightarrow> bytes) \<Rightarrow> (nat \<Rightarrow> bytes \<Rightarrow> gerror + bytes) \<Rightarrow> bool" where
  "zlib_codec deflate inflate_upto \<longleftrightarrow> (\<forall>n xs. inflate_upto n (deflate xs) = Inr (take n xs))"

lemma InflateZlibPayload_deflate:
  assumes "zlib_codec deflate inflate_upto" "length xs \<le> MaxTCPPacketSize"
  shows "InflateZlibPayload inflate_upto (deflate xs) = Ok xs"
  using assms by (simp add: InflateZlibPayload_def zlib_codec_def)

subsection \<open>Properties\<close>

text \<open>C24: \<open>Init\<close> on any received bytes never panics. It succeeds only on a whole
  header, and then the declared payload size is within \<open>MaxTCPPacketSize\<close>, whatever the
  peer declared; the packet is either ready with exactly that many bytes or waiting with
  fewer. A refusal leaves the packet's status as it was.\<close>

theorem Init_bounds:
  "case Init (NewBufferFromBytes bs) p of
     (Ok _, p') \<Rightarrow> PacketHeaderSize \<le> length bs \<and> unat (pk_Size p') \<le> MaxTCPPacketSize \<and>
       (pk_Status p' = PsWaitingData \<and> length (pk_recv p') < unat (pk_Size p') \<or>
        pk_Status p' = PsReady \<and> length (buf_data (pk_Data p')) = unat (pk_Size p'))
   | (Err e, p') \<Rightarrow> pk_Status p' = pk_Status p
   | (Panic, _) \<Rightarrow> False"
proof (cases "PacketHeaderSize \<le> length bs")
  case True
  then obtain pr sz code where bs: "bs = enc_header pr sz code @ drop PacketHeaderSize bs" by (rule header_bytes)
  show ?thesis
  proof (cases "accepts pr sz")
    case acc: True
    from Init_accept [OF acc, of code "drop PacketHeaderSize bs" p] True show ?thesis
      unfolding bs [symmetric] by (auto simp: packet_inv_def)
  next
    case False
    from Init_reject [OF False, of code "drop PacketHeaderSize bs" p] show ?thesis
      unfolding bs [symmetric] by auto
  qed
next
  case False
  then show ?thesis using Init_short [of bs p] by auto
qed

text \<open>C18: Compression is transparent. If a packet is replaced by its zlib form, then it
  was an eD2K or eMule packet of at least the minimum payload, the replacement is shorter,
  carries the same opcode under a header whose size field matches, and inflating its
  payload, bounded as the receiver bounds it, gives back the original payload.\<close>

theorem compress_round_trip:
  assumes "zlib_codec deflate inflate_upto"
    and "MaybeCompressTCPPacket deflate (Some b) m = Ok q" "q \<noteq> b"
    and "length (buf_data b) \<le> PacketHeaderSize + MaxTCPPacketSize"
  shows "let raw = buf_data b; sent = buf_data q in
    (raw ! 0 = PrED2K \<or> raw ! 0 = PrEMule) \<and> m \<le> length (drop 6 raw) \<and> length sent < length raw \<and>
    sent = enc_header PrZlib (of_nat (length (drop 6 sent) + 1)) (raw ! 5) @ drop 6 sent \<and>
    InflateZlibPayload inflate_upto (drop 6 sent) = Ok (drop 6 raw)"
proof (cases rule: MaybeCompressTCPPacket_cases [of deflate b m])
  case same
  then show ?thesis using assms(2,3) by simp
next
  case (zlib z)
  then have q: "q = NewBufferFromBytes (enc_header PrZlib (of_nat (length z + 1)) (buf_data b ! 5) @ z)"
    using assms(2) by simp
  have "InflateZlibPayload inflate_upto z = Ok (drop 6 (buf_data b))"
    unfolding zlib(1) using assms(4) by (intro InflateZlibPayload_deflate [OF assms(1)]) simp
  then show ?thesis using zlib q by (simp add: Let_def NewBufferFromBytes_def)
qed

text \<open>A codec with the assumed law, to show the law can hold: one block is special.\<close>

definition toy_deflate :: "bytes \<Rightarrow> bytes" where
  "toy_deflate xs = (if xs = replicate 8 0 then [] else 1 # xs)"

definition toy_inflate :: "nat \<Rightarrow> bytes \<Rightarrow> gerror + bytes" where
  "toy_inflate n zs = Inr (take n (case zs of [] \<Rightarrow> replicate 8 0 | _ # xs \<Rightarrow> xs))"

lemma zlib_codec_toy: "zlib_codec toy_deflate toy_inflate"
  by (simp add: zlib_codec_def toy_inflate_def toy_deflate_def)

theorem compress_round_trip_witness:
  "let b = NewBufferFromBytes ([0xe3, 9, 0, 0, 0, 0x16] @ replicate 8 0);
       q = NewBufferFromBytes [0xd4, 1, 0, 0, 0, 0x16] in
   MaybeCompressTCPPacket toy_deflate (Some b) 4 = Ok q \<and>
   InflateZlibPayload toy_inflate (drop 6 (buf_data q)) = Ok (drop 6 (buf_data b))"
proof -
  let ?b = "NewBufferFromBytes ([0xe3, 9, 0, 0, 0, 0x16] @ replicate 8 0)"
  let ?q = "NewBufferFromBytes [0xd4, 1, 0, 0, 0, 0x16]"
  have c: "MaybeCompressTCPPacket toy_deflate (Some ?b) 4 = Ok ?q"
    by (simp add: MaybeCompressTCPPacket_def toy_deflate_def runPut_def io_eval NewBuffer_def PutUInt8_def
        PutUInt32LE_def PutBuffer_def poke_def overwrite_def SetPos_def Let_def numeral_eq_Suc)
  show ?thesis
    using compress_round_trip [OF zlib_codec_toy c] c by (simp add: NewBufferFromBytes_def)
qed

end
