(* ===== verification/Net_Address.thy ===== *)
theory Net_Address
  imports Wire_Tags
begin

section \<open>Addresses and client IDs (ed2k/address.go, ed2k/misc.go)\<close>

text \<open>
  A Go \<^verbatim>\<open>net.IP\<close> is a byte slice of length 4 or 16, or nil; nil is the empty list here.
  The theory holds the family tests the server makes, the packing of an IPv4 address into
  an eD2K client ID, and the HighID test.

  Shown here: the text form, the 4-byte form and the IPv4-mapped form of an address pack to
  the same ID, its first octet in the low byte; and the ID is a HighID exactly when the
  last octet is not zero.
\<close>

subsection \<open>net.IP\<close>

abbreviation v4InV6Prefix :: bytes where
  "v4InV6Prefix \<equiv> replicate 10 0 @ [0xff, 0xff]"

definition To4 :: "bytes \<Rightarrow> bytes" where
  "To4 ip = (if length ip = 4 then ip
             else if length ip = 16 \<and> take 12 ip = v4InV6Prefix then drop 12 ip else [])"

definition To16 :: "bytes \<Rightarrow> bytes" where
  "To16 ip = (if length ip = 4 then v4InV6Prefix @ ip else if length ip = 16 then ip else [])"

definition IsGlobalUnicast :: "bytes \<Rightarrow> bool" where
  "IsGlobalUnicast ip \<longleftrightarrow> (length ip = 4 \<or> length ip = 16) \<and>
     To4 ip \<noteq> [0xff, 0xff, 0xff, 0xff] \<and>
     \<not> (To4 ip = [0, 0, 0, 0] \<or> ip = replicate 16 0) \<and>
     \<not> (if To4 ip \<noteq> [] then To4 ip ! 0 = 127 else ip = replicate 15 0 @ [1]) \<and>
     \<not> (if To4 ip \<noteq> [] then To4 ip ! 0 AND 0xf0 = 0xe0 else length ip = 16 \<and> ip ! 0 = 0xff) \<and>
     \<not> (if To4 ip \<noteq> [] then To4 ip ! 0 = 169 \<and> To4 ip ! 1 = 254
        else length ip = 16 \<and> ip ! 0 = 0xfe \<and> ip ! 1 AND 0xc0 = 0x80)"

definition IsPrivate :: "bytes \<Rightarrow> bool" where
  "IsPrivate ip \<longleftrightarrow>
     (if To4 ip \<noteq> [] then
        To4 ip ! 0 = 10 \<or> (To4 ip ! 0 = 172 \<and> To4 ip ! 1 AND 0xf0 = 16) \<or>
        (To4 ip ! 0 = 192 \<and> To4 ip ! 1 = 168)
      else length ip = 16 \<and> ip ! 0 AND 0xfe = 0xfc)"

subsection \<open>Address helpers\<close>

definition NormalizeIP :: "bytes \<Rightarrow> bytes" where
  "NormalizeIP ip = (if ip = [] then [] else if To4 ip \<noteq> [] then To4 ip else To16 ip)"

definition IPv4ToUint32LE :: "bytes \<Rightarrow> u32 option" where
  "IPv4ToUint32LE ip = (if To4 ip = [] then None else Some (le_get (To4 ip)))"

definition IPv6Bytes :: "bytes \<Rightarrow> bytes option" where
  "IPv6Bytes ip =
     (if ip = [] \<or> To4 ip \<noteq> [] then None else if To16 ip = [] then None else Some (To16 ip))"

definition IsPublicIPv6 :: "bytes \<Rightarrow> bool" where
  "IsPublicIPv6 ip =
     (if ip = [] \<or> To4 ip \<noteq> [] \<or> To16 ip = [] then False else IsGlobalUnicast ip \<and> \<not> IsPrivate ip)"

definition IsLANIP :: "bytes \<Rightarrow> bool" where
  "IsLANIP ip =
     (let v4 = To4 ip in
      if v4 = [] then False
      else if v4 ! 0 = 0 then True
      else if v4 ! 0 = 10 then True
      else if v4 ! 0 = 127 then True
      else if v4 ! 0 = 172 \<and> v4 ! 1 \<ge> 16 \<and> v4 ! 1 \<le> 31 then True
      else if v4 ! 0 = 192 \<and> v4 ! 1 = 168 then True
      else if v4 ! 0 = 169 \<and> v4 ! 1 = 254 then True
      else False)"

definition IsGoodIP :: "bytes \<Rightarrow> bool \<Rightarrow> bool" where
  "IsGoodIP ip allowLAN =
     (let v4 = To4 ip in
      if v4 = [] then False
      else if v4 ! 0 = 0 \<or> v4 ! 0 \<ge> 224 then False
      else allowLAN \<or> \<not> IsLANIP ip)"

definition IsGoodIPPort :: "bytes \<Rightarrow> u16 \<Rightarrow> bool \<Rightarrow> bool" where
  "IsGoodIPPort ip port allowLAN \<longleftrightarrow> port \<noteq> 0 \<and> IsGoodIP ip allowLAN"

definition IsGoodServerEntry :: "bytes \<Rightarrow> u16 \<Rightarrow> bool \<Rightarrow> bool \<Rightarrow> bool" where
  "IsGoodServerEntry ip port hasDynIP allowLAN =
     (if port = 0 then False
      else if hasDynIP then True
      else if To4 ip = [] then IsPublicIPv6 ip
      else IsGoodIP ip allowLAN)"

subsection \<open>Client IDs\<close>

definition isLowID :: "u32 \<Rightarrow> bool" where
  "isLowID i \<longleftrightarrow> i > 0 \<and> i \<le> 0x00FFFFFF"

definition HasHighID :: "u32 \<Rightarrow> bool" where
  "HasHighID i \<longleftrightarrow> i \<noteq> 0 \<and> \<not> isLowID i"

definition IsProtocol :: "u8 \<Rightarrow> bool" where
  "IsProtocol protocol \<longleftrightarrow> protocol = PrED2K \<or> protocol = PrEMule \<or> protocol = PrZlib"

subsection \<open>Dotted quads\<close>

text \<open>\<^verbatim>\<open>strings.Split\<close> on a one-byte separator: always at least one part.\<close>

fun split_on :: "'a \<Rightarrow> 'a list \<Rightarrow> 'a list list" where
  "split_on s [] = [[]]"
| "split_on s (x # xs) =
     (if x = s then [] # split_on s xs
      else case split_on s xs of p # ps \<Rightarrow> (x # p) # ps | [] \<Rightarrow> [[x]])"

text \<open>\<^verbatim>\<open>strconv.ParseUint(s, 10, 8)\<close>: digits only, at least one, and the value fits.\<close>

fun parse_digits :: "nat \<Rightarrow> bytes \<Rightarrow> nat option" where
  "parse_digits n [] = Some n"
| "parse_digits n (c # cs) =
     (if 48 \<le> c \<and> c \<le> 57 \<and> n * 10 + unat (c - 48) \<le> 255
      then parse_digits (n * 10 + unat (c - 48)) cs else None)"

definition ParseUint8 :: "bytes \<Rightarrow> nat option" where
  "ParseUint8 s = (if s = [] then None else parse_digits 0 s)"

definition IPv4ToInt32LE :: "bytes \<Rightarrow> u32 res" where
  "IPv4ToInt32LE ipv4 =
     (let parts = split_on 46 ipv4 in
      if length parts \<noteq> 4 then Err (ErrNew ''invalid ipv4'')
      else case map ParseUint8 parts of
        [Some a, Some b, Some c, Some d] \<Rightarrow>
          Ok (of_nat a + of_nat b * 0x100 + of_nat c * 0x10000 + of_nat d * 0x1000000)
      | _ \<Rightarrow> Err (ErrNew ''invalid ipv4''))"

subsection \<open>Parsing address text\<close>

text \<open>
  \<^verbatim>\<open>net.ParseIP\<close>: the first of the bytes dot, colon and percent decides the family. An
  IPv4 text has four fields of digits, none with a leading zero. An IPv6 text has groups of
  one to four hexadecimal digits, at most one ellipsis, and possibly an IPv4 tail. A zone
  is refused. The result is always the 16-byte form, nil when the text is no address.
\<close>

definition parse_octet :: "bytes \<Rightarrow> u8 option" where
  "parse_octet p =
     (if p = [] \<or> (length p > 1 \<and> hd p = 48) then None else map_option of_nat (parse_digits 0 p))"

definition parse4 :: "bytes \<Rightarrow> bytes option" where
  "parse4 s =
     (case map parse_octet (split_on 46 s) of
        [Some a, Some b, Some c, Some d] \<Rightarrow> Some [a, b, c, d] | _ \<Rightarrow> None)"

definition hex_digit :: "u8 \<Rightarrow> nat option" where
  "hex_digit c =
     (if 48 \<le> c \<and> c \<le> 57 then Some (unat c - 48)
      else if 97 \<le> c \<and> c \<le> 102 then Some (unat c - 87)
      else if 65 \<le> c \<and> c \<le> 70 then Some (unat c - 55) else None)"

definition hex_value :: "bytes \<Rightarrow> nat" where
  "hex_value ds = foldl (\<lambda>n c. n * 16 + (case hex_digit c of Some d \<Rightarrow> d | None \<Rightarrow> 0)) 0 ds"

definition finish6 :: "bytes \<Rightarrow> bytes \<Rightarrow> nat option \<Rightarrow> bytes option" where
  "finish6 s acc ell =
     (if s \<noteq> [] then None
      else if length acc < 16 then
        (case ell of None \<Rightarrow> None
         | Some e \<Rightarrow> Some (take e acc @ replicate (16 - length acc) 0 @ drop e acc))
      else if ell \<noteq> None then None else Some acc)"

lemma length_dropWhile_Cons: "c # s' = dropWhile P s \<Longrightarrow> length s' < length s"
  using length_dropWhile_le [of P s] by (metis length_Cons less_eq_Suc_le)

function parse6 :: "bytes \<Rightarrow> bytes \<Rightarrow> nat option \<Rightarrow> bytes option" where
  "parse6 s acc ell =
     (if length acc \<ge> 16 then finish6 s acc ell
      else let ds = takeWhile (\<lambda>c. hex_digit c \<noteq> None) s; rest = dropWhile (\<lambda>c. hex_digit c \<noteq> None) s in
        if ds = [] \<or> length ds > 4 then None
        else if rest \<noteq> [] \<and> hd rest = 46 then
          (if (ell = None \<and> length acc \<noteq> 12) \<or> length acc + 4 > 16 then None
           else case parse4 s of None \<Rightarrow> None | Some v4 \<Rightarrow> finish6 [] (acc @ v4) ell)
        else let acc' = acc @ [of_nat (hex_value ds div 256), of_nat (hex_value ds mod 256)] in
          (case rest of
             [] \<Rightarrow> finish6 [] acc' ell
           | c # s' \<Rightarrow>
               if c \<noteq> 58 \<or> s' = [] then None
               else if hd s' = 58 then
                 (if ell \<noteq> None then None
                  else if tl s' = [] then finish6 [] acc' (Some (length acc'))
                  else parse6 (tl s') acc' (Some (length acc')))
               else parse6 s' acc' ell))"
  by pat_completeness auto

termination
  by (relation "measure (\<lambda>(s, _, _). length s)")
    (auto dest: length_dropWhile_Cons simp: less_imp_diff_less)

definition ParseIP :: "bytes \<Rightarrow> bytes" where
  "ParseIP s =
     (case find (\<lambda>c. c = 46 \<or> c = 58 \<or> c = 37) s of
        None \<Rightarrow> []
      | Some c \<Rightarrow>
          if 37 \<in> set s then []
          else if c = 46 then (case parse4 s of None \<Rightarrow> [] | Some v4 \<Rightarrow> v4InV6Prefix @ v4)
          else (case (if take 2 s = [58, 58]
                      then (if drop 2 s = [] then Some (replicate 16 0) else parse6 (drop 2 s) [] (Some 0))
                      else parse6 s [] None) of
                  None \<Rightarrow> [] | Some ip \<Rightarrow> ip))"

definition ParsePublicIPv6 :: "bytes \<Rightarrow> bytes option" where
  "ParsePublicIPv6 s = (if \<not> IsPublicIPv6 (ParseIP s) then None else IPv6Bytes (ParseIP s))"

datatype server_family = Fam4 u32 | Fam6 bytes | Fam0

definition ClassifyServerIP :: "bytes \<Rightarrow> server_family" where
  "ClassifyServerIP ip =
     (case IPv4ToInt32LE ip of
        Ok n \<Rightarrow> Fam4 n
      | _ \<Rightarrow> (case ParsePublicIPv6 ip of Some b \<Rightarrow> Fam6 b | None \<Rightarrow> Fam0))"

subsection \<open>Packing\<close>

text \<open>The decimal form of a number up to 255, most significant digit first.\<close>

definition decimal :: "nat \<Rightarrow> bytes" where
  "decimal n =
     (if n \<ge> 100 then [of_nat (48 + n div 100)] else []) @
     (if n \<ge> 10 then [of_nat (48 + n div 10 mod 10)] else []) @ [of_nat (48 + n mod 10)]"

definition dotted :: "u8 \<Rightarrow> u8 \<Rightarrow> u8 \<Rightarrow> u8 \<Rightarrow> bytes" where
  "dotted a b c d = decimal (unat a) @ 46 # decimal (unat b) @ 46 # decimal (unat c) @ 46 # decimal (unat d)"

lemma split_on_append:
  "s \<notin> set xs \<Longrightarrow> split_on s (xs @ s # ys) = xs # split_on s ys"
  by (induction xs) auto

lemma split_on_none: "s \<notin> set xs \<Longrightarrow> split_on s xs = [xs]"
  by (induction xs) auto

lemma digit_byte:
  assumes "k < 10"
  shows "(48 :: u8) \<le> of_nat (48 + k)" "(of_nat (48 + k) :: u8) \<le> 57" "unat ((of_nat (48 + k) :: u8) - 48) = k"
    "(of_nat (48 + k) :: u8) \<noteq> 46"
proof -
  have u: "unat (of_nat (48 + k) :: u8) = 48 + k" using assms by (intro unat_of_nat_lt) simp
  show "(48 :: u8) \<le> of_nat (48 + k)" "(of_nat (48 + k) :: u8) \<le> 57"
    using assms u by (simp_all add: word_le_nat_alt del: of_nat_add)
  have "(of_nat (48 + k) :: u8) - 48 = of_nat k" by simp
  then show "unat ((of_nat (48 + k) :: u8) - 48) = k" using assms by (simp add: unat_of_nat_lt)
  show "(of_nat (48 + k) :: u8) \<noteq> 46" 
  proof
    assume "(of_nat (48 + k) :: u8) = 46"
    then have "unat (of_nat (48 + k) :: u8) = unat (46 :: u8)" by (simp only:)
    then show False using u by (simp del: of_nat_add)
  qed
qed

lemma parse_digits_decimal: "n \<le> 255 \<Longrightarrow> ParseUint8 (decimal n) = Some n"
proof -
  assume n: "n \<le> 255"
  have d: "n div 100 < 10" "n div 10 mod 10 < 10" "n mod 10 < 10" using n by auto
  note b = digit_byte [OF d(1)] digit_byte [OF d(2)] digit_byte [OF d(3)]
  consider "n < 10" | "10 \<le> n" "n < 100" | "100 \<le> n" by linarith
  then show ?thesis
  proof cases
    case 1
    then show ?thesis using n b by (simp add: ParseUint8_def decimal_def del: of_nat_add)
  next
    case 2
    have "n div 10 mod 10 * 10 + n mod 10 = n" using 2 by simp
    then show ?thesis using n 2 b by (simp add: ParseUint8_def decimal_def del: of_nat_add)
  next
    case 3
    have "(n div 100 * 10 + n div 10 mod 10) * 10 + n mod 10 = n" 
      using div_mult_mod_eq [of n 10] div_mult_mod_eq [of "n div 10" 10] by (simp add: div_mult2_eq [of n 10 10, simplified])
    then show ?thesis using n 3 b by (simp add: ParseUint8_def decimal_def del: of_nat_add)
  qed
qed

lemma decimal_no_dot: "n \<le> 255 \<Longrightarrow> 46 \<notin> set (decimal n)"
  using digit_byte(4) [of "n div 100"] digit_byte(4) [of "n div 10 mod 10"] digit_byte(4) [of "n mod 10"]
  by (auto simp: decimal_def simp del: of_nat_add)

lemma octets_value:
  fixes a b c d :: u8
  shows "unat (le_get [a, b, c, d] :: u32) = unat a + unat b * 0x100 + unat c * 0x10000 + unat d * 0x1000000"
    and "(le_get [a, b, c, d] :: u32) =
      of_nat (unat a) + of_nat (unat b) * 0x100 + of_nat (unat c) * 0x10000 + of_nat (unat d) * 0x1000000"
  by (subst unat_le_get, simp, simp) (simp add: le_get_of_nat del: le_get.simps)

lemma unat_le_255: "unat (a :: u8) \<le> 255"
proof -
  have "unat a < 256" using unsigned_less [of a] by simp
  then show ?thesis by simp
qed

subsection \<open>Properties\<close>

text \<open>C29: However an IPv4 address reaches the server, as configuration text, as the four
  bytes of a socket address or in the IPv4-mapped form a dual-stack socket reports, it
  becomes the same client ID, whose little-endian bytes are the four octets; and that ID
  is a HighID exactly when the last octet is not zero, so an address ending in .0 can only
  be given a LowID.\<close>

theorem client_id_of_address:
  "\<exists>i. IPv4ToInt32LE (dotted a b c d) = Ok i \<and> IPv4ToUint32LE [a, b, c, d] = Some i \<and>
     IPv4ToUint32LE (v4InV6Prefix @ [a, b, c, d]) = Some i \<and>
     le_put 4 i = [a, b, c, d] \<and> (HasHighID i \<longleftrightarrow> d \<noteq> 0)"
proof -
  let ?i = "le_get [a, b, c, d] :: u32"
  have "IPv4ToInt32LE (dotted a b c d) = Ok ?i"
    using decimal_no_dot [OF unat_le_255] parse_digits_decimal [OF unat_le_255]
    by (simp add: IPv4ToInt32LE_def dotted_def split_on_append split_on_none octets_value(2) del: le_get.simps)
  moreover have "IPv4ToUint32LE [a, b, c, d] = Some ?i" "IPv4ToUint32LE (v4InV6Prefix @ [a, b, c, d]) = Some ?i"
    by (simp_all add: IPv4ToUint32LE_def To4_def del: le_get.simps)
  moreover have "le_put 4 ?i = [a, b, c, d]"
    by (rule le_put_get_length) simp_all
  moreover have "HasHighID ?i \<longleftrightarrow> d \<noteq> 0"
  proof -
    have "HasHighID ?i \<longleftrightarrow> unat ?i > 0xFFFFFF"
      by (auto simp: HasHighID_def isLowID_def word_le_nat_alt word_less_nat_alt unat_eq_0 simp del: le_get.simps)
    also have "\<dots> \<longleftrightarrow> unat d \<noteq> 0"
      using unat_le_255 [of a] unat_le_255 [of b] unat_le_255 [of c] by (simp only: octets_value(1)) linarith
    finally show ?thesis by (simp add: unat_eq_0)
  qed
  ultimately show ?thesis by blast
qed

end
