(* ===== verification/Tcp_Operations.thy ===== *)
theory Tcp_Operations
  imports Packets Net_Address
begin

section \<open>Messages of the TCP protocol (ed2k/tcpoperations.go, ed2k/ipv6sources.go)\<close>

text \<open>
  The login request a client sends and every packet the server builds for a TCP session.
  Each builder lists its items, has \<open>MakePacket\<close> encode them and passes the result through
  \<open>MaybeCompressTCPPacket\<close>; the compressor is the argument \<open>deflate\<close>.
\<close>

subsection \<open>Records of the storage package the builders read\<close>

record source =
  src_ID :: u32
  src_Port :: u16
  src_UserHash :: bytes
  src_CryptOptions :: u8
  src_IPv6 :: bytes
  src_IPv6Reachable :: bool

record storage_file =
  f_Hash :: bytes
  f_Name :: bytes
  f_Size :: u64
  f_Type :: bytes
  f_Sources :: u32
  f_Completed :: u32
  f_Title :: bytes
  f_Artist :: bytes
  f_Album :: bytes
  f_Runtime :: u32
  f_Bitrate :: u32
  f_Codec :: bytes
  f_SourceID :: u32
  f_SourcePort :: u16
  f_Meta :: "meta_info option"

record storage_server =
  sv_IP :: bytes
  sv_Port :: u16

definition MaxWireSources :: nat where [simp]: "MaxWireSources = 255"
definition minZlibPayloadOnSend :: nat where [simp]: "minZlibPayloadOnSend = 128"
definition udpSourceDatagramBudget :: nat where [simp]: "udpSourceDatagramBudget = 4900"
definition natProofVersion :: u32 where [simp]: "natProofVersion = 1"

text \<open>The common tail of the TCP builders.\<close>

definition finishTCP :: "(bytes \<Rightarrow> bytes) \<Rightarrow> packet_item list \<Rightarrow> buffer res" where
  "finishTCP deflate pack =
     bind_res (MakePacket PrED2K pack) (\<lambda>packet.
       MaybeCompressTCPPacket deflate (Some packet) minZlibPayloadOnSend)"

subsection \<open>Login request\<close>

record login_request =
  lr_Hash :: bytes
  lr_ID :: u32
  lr_Port :: u16
  lr_Tags :: "named_tag list"

definition ParseLoginRequest :: "login_request io" where
  "ParseLoginRequest =
     bind_io (Get 16) (\<lambda>hash.
       if length hash \<noteq> 16 then fail ErrOutOfBounds
       else bind_io GetUInt32LE (\<lambda>i.
            bind_io GetUInt16LE (\<lambda>port.
            bind_io GetTags (\<lambda>tags.
              ret \<lparr>lr_Hash = hash, lr_ID = i, lr_Port = port, lr_Tags = tags\<rparr>))))"

subsection \<open>Source lists\<close>

datatype source_format = FormatClassic | FormatSentinel

definition capWireSources :: "source list \<Rightarrow> source list" where
  "capWireSources sources =
     (if length sources > MaxWireSources then take MaxWireSources sources else sources)"

definition sourceHasReachableIPv6 :: "source \<Rightarrow> bool" where
  "sourceHasReachableIPv6 src \<longleftrightarrow> length (src_IPv6 src) = 16 \<and> src_IPv6Reachable src"

definition sentinelForSource :: "source \<Rightarrow> bool" where
  "sentinelForSource src \<longleftrightarrow> sourceHasReachableIPv6 src \<and> \<not> HasHighID (src_ID src)"

text \<open>The obfuscation settings of a source: its crypt bits, and 0x80 when its hash follows.\<close>

definition obfuSettings :: "source \<Rightarrow> u8" where
  "obfuSettings src =
     (let obf = src_CryptOptions src AND 0x07
      in if obf \<noteq> 0 \<and> length (src_UserHash src) = 16 then obf OR 0x80 else obf)"

definition sourceItems :: "bool \<Rightarrow> source_format \<Rightarrow> source \<Rightarrow> packet_item list" where
  "sourceItems withObfuSettings format src =
     (let useSentinel = (format = FormatSentinel \<and> sentinelForSource src);
          i = (if useSentinel then SentinelIPv6ID else src_ID src);
          obf = obfuSettings src
      in [item32 i, item16 (src_Port src)] @
         (if withObfuSettings
          then [item8 obf] @ (if obf AND 0x80 \<noteq> 0 then [itemHash (src_UserHash src)] else []) else []) @
         (if useSentinel then [itemHash (src_IPv6 src)] else []))"

definition buildFoundSourcesPacketWithOpcode ::
  "(bytes \<Rightarrow> bytes) \<Rightarrow> u8 \<Rightarrow> bytes \<Rightarrow> source list \<Rightarrow> bool \<Rightarrow> source_format \<Rightarrow> buffer res" where
  "buildFoundSourcesPacketWithOpcode deflate opcode fileHash sources withObfuSettings format =
     (let sources = capWireSources sources
      in finishTCP deflate
           ([item8 opcode, itemHash fileHash, item8 (of_nat (length sources))] @
            concat (map (sourceItems withObfuSettings format) sources)))"

definition BuildFoundSourcesPacket :: "(bytes \<Rightarrow> bytes) \<Rightarrow> bytes \<Rightarrow> source list \<Rightarrow> buffer res" where
  "BuildFoundSourcesPacket deflate fileHash sources =
     buildFoundSourcesPacketWithOpcode deflate OpFoundSources fileHash sources False FormatClassic"

definition BuildFoundSourcesObfuPacket :: "(bytes \<Rightarrow> bytes) \<Rightarrow> bytes \<Rightarrow> source list \<Rightarrow> buffer res" where
  "BuildFoundSourcesObfuPacket deflate fileHash sources =
     buildFoundSourcesPacketWithOpcode deflate OpFoundSourcesObfu fileHash sources True FormatClassic"

definition BuildFoundSourcesSentinelPacket ::
  "(bytes \<Rightarrow> bytes) \<Rightarrow> bytes \<Rightarrow> source list \<Rightarrow> bool \<Rightarrow> buffer res" where
  "BuildFoundSourcesSentinelPacket deflate fileHash sources obfu =
     (let opcode = (if obfu then OpFoundSourcesObfu else OpFoundSources)
      in buildFoundSourcesPacketWithOpcode deflate opcode fileHash sources obfu FormatSentinel)"

text \<open>
  The IPv6 form: a datagram keeps the sources that fit its budget. \<open>budgetSources\<close> is the
  loop, with the size so far.
\<close>

fun budgetSources :: "nat \<Rightarrow> source list \<Rightarrow> source list" where
  "budgetSources sz [] = []"
| "budgetSources sz (src # srcs) =
     (let sz' = sz + (4 + 2 + 1) + (if sourceHasReachableIPv6 src then 1 + 2 + 1 + 16 else 0)
      in if sz' > udpSourceDatagramBudget then [] else src # budgetSources sz' srcs)"

definition ipv6SourceItems :: "source \<Rightarrow> packet_item list" where
  "ipv6SourceItems src =
     (let v6 = sourceHasReachableIPv6 src;
          i = (if v6 \<and> \<not> HasHighID (src_ID src) then SentinelIPv6ID else src_ID src);
          tags = (if v6 then [mkTag TypeHash TagModIPv6 (ABytes (src_IPv6 src))] else [])
      in [item32 i, item16 (src_Port src), itemTags8 tags])"

definition buildFoundSourcesIPv6 :: "(bytes \<Rightarrow> bytes) \<Rightarrow> u8 \<Rightarrow> bool \<Rightarrow> bytes \<Rightarrow> source list \<Rightarrow> buffer res" where
  "buildFoundSourcesIPv6 deflate opcode udp fileHash sources =
     (let sources = capWireSources sources;
          sources = (if udp then budgetSources (1 + 1 + 16 + 1) sources else sources);
          pack = [item8 opcode, itemHash fileHash, item8 (of_nat (length sources))] @
                 concat (map ipv6SourceItems sources)
      in if udp then MakeUDPPacket PrED2K pack else finishTCP deflate pack)"

definition BuildFoundSourcesIPv6Packet :: "(bytes \<Rightarrow> bytes) \<Rightarrow> bytes \<Rightarrow> source list \<Rightarrow> buffer res" where
  "BuildFoundSourcesIPv6Packet deflate fileHash sources =
     buildFoundSourcesIPv6 deflate OpFoundSourcesIPv6 False fileHash sources"

definition BuildGlobFoundSourcesIPv6Packet :: "(bytes \<Rightarrow> bytes) \<Rightarrow> bytes \<Rightarrow> source list \<Rightarrow> buffer res" where
  "BuildGlobFoundSourcesIPv6Packet deflate fileHash sources =
     buildFoundSourcesIPv6 deflate OpGlobFoundSourcesIPv6 True fileHash sources"

subsection \<open>Search results\<close>

definition sharedFile :: "storage_file \<Rightarrow> shared_file" where
  "sharedFile f =
     \<lparr>sf_Name = f_Name f, sf_Size = f_Size f, sf_Type = f_Type f, sf_Sources = f_Sources f,
      sf_Completed = f_Completed f, sf_Title = f_Title f, sf_Artist = f_Artist f, sf_Album = f_Album f,
      sf_Runtime = f_Runtime f, sf_Bitrate = f_Bitrate f, sf_Codec = f_Codec f, sf_Hash = f_Hash f,
      sf_SourceID = f_SourceID f, sf_SourcePort = f_SourcePort f, sf_Meta = f_Meta f\<rparr>"

definition BuildSearchResultPacket :: "(bytes \<Rightarrow> bytes) \<Rightarrow> storage_file list \<Rightarrow> bool \<Rightarrow> buffer res" where
  "BuildSearchResultPacket deflate files moreAvailable =
     (let pack = [item8 OpSearchResult, item32 (of_nat (length files))];
          pack = foldl (\<lambda>pack file. AddFile pack (sharedFile file)) pack files;
          more = (if moreAvailable then 1 else 0)
      in finishTCP deflate (pack @ [item8 more]))"

subsection \<open>Server list\<close>

text \<open>The two address lists the loop gathers, each up to what one count byte can say.\<close>

fun serverEntries :: "bool \<Rightarrow> (u32 \<times> u16) list \<Rightarrow> (bytes \<times> u16) list \<Rightarrow> storage_server list \<Rightarrow>
    (u32 \<times> u16) list \<times> (bytes \<times> u16) list" where
  "serverEntries includeV6 v4 v6 [] = (v4, v6)"
| "serverEntries includeV6 v4 v6 (s # ss) =
     (case ClassifyServerIP (sv_IP s) of
        Fam4 ip \<Rightarrow>
          serverEntries includeV6 (if length v4 < MaxWireSources then v4 @ [(ip, sv_Port s)] else v4) v6 ss
      | Fam6 ip \<Rightarrow>
          serverEntries includeV6 v4
            (if includeV6 \<and> length v6 < MaxWireSources then v6 @ [(ip, sv_Port s)] else v6) ss
      | Fam0 \<Rightarrow> serverEntries includeV6 v4 v6 ss)"

definition BuildServerListPacket :: "(bytes \<Rightarrow> bytes) \<Rightarrow> storage_server list \<Rightarrow> bool \<Rightarrow> buffer res" where
  "BuildServerListPacket deflate servers includeV6 =
     (let (v4, v6) = serverEntries includeV6 [] [] servers
      in finishTCP deflate
           ([item8 OpServerList, item8 (of_nat (length v4))] @
            concat (map (\<lambda>(ip, port). [item32 ip, item16 port]) v4) @
            (if includeV6 \<and> length v6 > 0
             then item8 (of_nat (length v6)) # concat (map (\<lambda>(ip, port). [itemHash ip, item16 port]) v6)
             else [])))"

subsection \<open>Status, identity and messages\<close>

definition BuildServerStatusPacket :: "(bytes \<Rightarrow> bytes) \<Rightarrow> int \<Rightarrow> int \<Rightarrow> buffer res" where
  "BuildServerStatusPacket deflate clients files =
     finishTCP deflate [item8 OpServerStatus, item32 (of_int clients), item32 (of_int files)]"

record id_change_nat_ports =
  nat_ObfuscationTCPPort :: u16
  nat_ClientTCPPort :: u16

definition BuildIDChangePacket ::
  "(bytes \<Rightarrow> bytes) \<Rightarrow> u32 \<Rightarrow> u32 \<Rightarrow> u16 \<Rightarrow> u32 \<Rightarrow> id_change_nat_ports option \<Rightarrow> buffer res" where
  "BuildIDChangePacket deflate i tcpFlags primaryPort observedClientIPv4 natPorts =
     (let observed = (if \<not> HasHighID observedClientIPv4 then 0 else observedClientIPv4)
      in finishTCP deflate
           ([item8 OpIDChange, item32 i, item32 tcpFlags, item32 (ucast primaryPort), item32 observed] @
            (case natPorts of
               None \<Rightarrow> []
             | Some np \<Rightarrow> [item32 (ucast (nat_ObfuscationTCPPort np)), item32 (ucast (nat_ClientTCPPort np))])))"

definition BuildCallbackFailedPacket :: "(bytes \<Rightarrow> bytes) \<Rightarrow> buffer res" where
  "BuildCallbackFailedPacket deflate = finishTCP deflate [item8 OpCallbackFailed]"

record meta_api_advert =
  ma_URL :: bytes
  ma_Version :: u32
  ma_Fingerprint :: bytes

record server_config =
  sc_Name :: bytes
  sc_Description :: bytes
  sc_Address :: bytes
  sc_Hash :: bytes
  sc_TCPPort :: u16
  sc_TCPFlags :: u32
  sc_IPv6 :: bytes
  sc_NatPort :: u16
  sc_ClientIPv6 :: bytes
  sc_ClientIPv6Status :: u8
  sc_MetaAPI :: meta_api_advert
  sc_Ed3k :: bytes
  sc_UDPFlags :: u32
  sc_NatToken :: bytes

definition identTags :: "server_config \<Rightarrow> tag list" where
  "identTags conf =
     [mkTag TypeString TagName (AString (sc_Name conf)),
      mkTag TypeString TagDescription (AString (sc_Description conf))] @
     (if length (sc_IPv6 conf) = 16 then [mkTag TypeHash TagModSvrIPv6 (ABytes (sc_IPv6 conf))] else []) @
     (if sc_NatPort conf \<noteq> 0 then [mkTag TypeUint16 TagNatPort (AUint16 (sc_NatPort conf))] else []) @
     (if ma_URL (sc_MetaAPI conf) \<noteq> []
      then [mkTag TypeString TagMetaAPI (AString (ma_URL (sc_MetaAPI conf))),
            mkTag TypeUint32 TagMetaAPIVersion (AUint32 (ma_Version (sc_MetaAPI conf)))] @
           (if ma_Fingerprint (sc_MetaAPI conf) \<noteq> []
            then [mkTag TypeString TagMetaAPIFingerprint (AString (ma_Fingerprint (sc_MetaAPI conf)))] else [])
      else []) @
     (if sc_Ed3k conf \<noteq> [] then [mkTag TypeString TagEd3k (AString (sc_Ed3k conf))] else []) @
     (if sc_UDPFlags conf \<noteq> 0 then [mkTag TypeUint32 TagServerUDPFlags (AUint32 (sc_UDPFlags conf))] else []) @
     (if length (sc_NatToken conf) = 16
      then [mkTag TypeHash TagNatToken (ABytes (sc_NatToken conf)),
            mkTag TypeUint32 TagNatProof (AUint32 natProofVersion)] else []) @
     (if length (sc_ClientIPv6 conf) = 16 then [mkTag TypeHash TagModYourIP (ABytes (sc_ClientIPv6 conf))] else []) @
     (if sc_ClientIPv6Status conf \<noteq> 0
      then [mkTag TypeUint8 TagIPv6Status (AUint8 (sc_ClientIPv6Status conf))] else [])"

definition BuildServerIdentPacket :: "(bytes \<Rightarrow> bytes) \<Rightarrow> server_config \<Rightarrow> buffer res" where
  "BuildServerIdentPacket deflate conf =
     (let ip = (case IPv4ToInt32LE (sc_Address conf) of Ok n \<Rightarrow> n | _ \<Rightarrow> 0)
      in finishTCP deflate
           [item8 OpServerIdent, itemHash (sc_Hash conf), item32 ip, item16 (sc_TCPPort conf),
            itemTags (identTags conf)])"

text \<open>\<^verbatim>\<open>strings.ReplaceAll(s, "\r\n", "\n")\<close>; the two other replacements are of single bytes.\<close>

fun crlf_to_lf :: "bytes \<Rightarrow> bytes" where
  "crlf_to_lf [] = []"
| "crlf_to_lf (x # xs) =
     (case xs of y # ys \<Rightarrow> if x = 13 \<and> y = 10 then 10 # crlf_to_lf ys else x # crlf_to_lf xs | [] \<Rightarrow> [x])"

definition crlfMessageLines :: "bytes \<Rightarrow> bytes" where
  "crlfMessageLines s =
     (if 13 \<notin> set s \<and> 10 \<notin> set s then s
      else concat (map (\<lambda>c. if c = 10 then [13, 10] else [c])
             (map (\<lambda>c. if c = 13 then 10 else c) (crlf_to_lf s))))"

definition BuildServerMessagePacket :: "(bytes \<Rightarrow> bytes) \<Rightarrow> bytes \<Rightarrow> buffer res" where
  "BuildServerMessagePacket deflate message =
     finishTCP deflate [item8 OpServerMessage, itemString (crlfMessageLines message)]"

definition BuildCallbackRequestedPacket ::
  "(bytes \<Rightarrow> bytes) \<Rightarrow> u32 \<Rightarrow> u16 \<Rightarrow> u8 \<Rightarrow> bytes \<Rightarrow> buffer res" where
  "BuildCallbackRequestedPacket deflate ipv4 port cryptOptions userHash =
     finishTCP deflate
       ([item8 OpCallbackReqd, item32 ipv4, item16 port] @
        (if length userHash = 16 then [item8 (cryptOptions AND 0x07), itemHash userHash] else []))"

definition BuildCallbackRequestedIPv6Packet :: "(bytes \<Rightarrow> bytes) \<Rightarrow> bytes \<Rightarrow> u16 \<Rightarrow> buffer res" where
  "BuildCallbackRequestedIPv6Packet deflate ipv6 port =
     finishTCP deflate [item8 OpCallbackReqdIPv6, itemHash ipv6, item16 port]"

subsection \<open>What the receiver of a built packet gets\<close>

text \<open>What \<open>handlePacket\<close> hands on: the payload, inflated when it came as zlib.\<close>

definition receivedPayload :: "(nat \<Rightarrow> bytes \<Rightarrow> gerror + bytes) \<Rightarrow> packet \<Rightarrow> bytes res" where
  "receivedPayload inflate_upto p =
     (if pk_Protocol p = PrED2K then Ok (buf_data (pk_Data p))
      else if pk_Protocol p = PrZlib then InflateZlibPayload inflate_upto (buf_data (pk_Data p))
      else Err ErrUnknownProtocol)"

text \<open>Whatever a builder lists is what a receiver gets, compressed on the way or not.\<close>

lemma finishTCP_received:
  assumes "zlib_codec deflate inflate_upto" "list_all item_typed its" "length (enc_items its) \<le> MaxTCPPacketSize"
  shows "\<exists>q p'. finishTCP deflate (item8 code # its) = Ok q \<and> Init q p = (Ok (), p') \<and>
    pk_Status p' = PsReady \<and> \<not> pk_HasExcess p' \<and> pk_Code p' = code \<and>
    receivedPayload inflate_upto p' = Ok (enc_items its)"
proof -
  let ?b = "NewBufferFromBytes (enc_header PrED2K (of_nat (length (enc_items its) + 1)) code @ enc_items its)"
  have f: "finishTCP deflate (item8 code # its) = MaybeCompressTCPPacket deflate (Some ?b) minZlibPayloadOnSend"
    unfolding finishTCP_def MakePacket_bytes [OF assms(2)] by simp
  have d: "drop 6 (buf_data ?b) = enc_items its" "buf_data ?b ! 5 = code"
    by (simp_all add: NewBufferFromBytes_def enc_header_def nth_append numeral_eq_Suc)
  show ?thesis
  proof (cases rule: MaybeCompressTCPPacket_cases [of deflate ?b minZlibPayloadOnSend])
    case same
    then show ?thesis
      using MakePacket_Init [OF assms(2) _ assms(3), of PrED2K code p] MakePacket_bytes [OF assms(2), of PrED2K code] f
      by (auto simp: receivedPayload_def NewBufferFromBytes_def)
  next
    case (zlib z)
    have z: "z = deflate (enc_items its)" "length z < length (enc_items its)" using zlib(1,5) unfolding d by simp_all
    have acc: "accepts PrZlib (of_nat (length z + 1))" "unat (of_nat (length z + 1) - 1 :: u32) = length z"
      using accepts_length [of PrZlib "length z"] z assms(3) by auto
    from acc have "\<exists>p'. Init (NewBufferFromBytes (enc_header PrZlib (of_nat (length z + 1)) code @ z)) p = (Ok (), p') \<and>
        pk_Status p' = PsReady \<and> \<not> pk_HasExcess p' \<and> pk_Code p' = code \<and> pk_Protocol p' = PrZlib \<and>
        pk_Data p' = NewBufferFromBytes z"
      by (simp add: Init_header Append_room del: of_nat_add of_nat_Suc PrZlib_def)
    then show ?thesis
      using f zlib(6) InflateZlibPayload_deflate [OF assms(1,3)] z(1) unfolding d
      by (auto simp: receivedPayload_def NewBufferFromBytes_def)
  qed
qed

lemma foldl_AddFile:
  "enc_items (foldl (\<lambda>pack f. AddFile pack (sharedFile f)) its fs) = enc_items its @ concat (map (enc_file \<circ> sharedFile) fs)"
  by (induction fs arbitrary: its) (simp_all add: enc_items_AddFile)

lemma item_typed_foldl_AddFile:
  "list_all item_typed its \<Longrightarrow> list_all (file_ok \<circ> sharedFile) fs \<Longrightarrow>
   list_all item_typed (foldl (\<lambda>pack f. AddFile pack (sharedFile f)) its fs)"
  by (induction fs arbitrary: its) (simp_all add: item_typed_AddFile)

lemma foldl_AddFile_Cons:
  "foldl (\<lambda>pack f. AddFile pack (sharedFile f)) (i # its) fs = i # foldl (\<lambda>pack f. AddFile pack (sharedFile f)) its fs"
  by (induction fs arbitrary: its) (simp_all add: AddFile_def)

text \<open>The fields of a result the client decodes.\<close>

definition result_fields :: "storage_file \<Rightarrow> file_record \<Rightarrow> bool" where
  "result_fields f r \<longleftrightarrow>
     fr_Hash r = f_Hash f \<and> fr_Name r = f_Name f \<and> fr_Size r = f_Size f \<and> fr_Type r = f_Type f \<and>
     fr_Sources r = f_Sources f \<and> fr_Title r = f_Title f \<and> fr_Artist r = f_Artist f \<and>
     fr_Album r = f_Album f \<and> fr_Length r = f_Runtime f \<and> fr_Bitrate r = f_Bitrate f \<and>
     fr_Codec r = f_Codec f \<and> fr_ID r = f_SourceID f \<and> fr_Port r = f_SourcePort f"

lemma result_fields_sent: "result_fields f (sent_record k (sharedFile f))"
  unfolding sent_record_fields result_fields_def by (simp add: sharedFile_def newFileRecord_def)

definition search_payload :: "storage_file list \<Rightarrow> bool \<Rightarrow> bytes" where
  "search_payload files mr =
     le_put 4 (of_nat (length files) :: u32) @ concat (map (enc_file \<circ> sharedFile) files) @ [if mr then 1 else 0]"

subsection \<open>Reading a source list\<close>

text \<open>
  The reference reader of a source list, as the clients read it: the record count is one
  byte, each record an ID and a port, then in the obfuscated form the settings byte and,
  when its top bit is set, a user hash, and last the IPv6 of a sentinel ID.
\<close>

definition read_source :: "bool \<Rightarrow> bool \<Rightarrow> (u32 \<times> u16 \<times> u8 \<times> bytes \<times> bytes) io" where
  "read_source obfu sentinel =
     bind_io GetUInt32LE (\<lambda>i.
     bind_io GetUInt16LE (\<lambda>port.
     bind_io (if obfu then GetUInt8 else ret 0) (\<lambda>obf.
     bind_io (if obf AND 0x80 \<noteq> 0 then Get 16 else ret []) (\<lambda>hash.
     bind_io (if sentinel \<and> i = SentinelIPv6ID then Get 16 else ret []) (\<lambda>ipv6.
       ret (i, port, obf, hash, ipv6))))))"

fun read_sources :: "bool \<Rightarrow> bool \<Rightarrow> nat \<Rightarrow> (u32 \<times> u16 \<times> u8 \<times> bytes \<times> bytes) list io" where
  "read_sources obfu sentinel 0 = ret []"
| "read_sources obfu sentinel (Suc n) =
     bind_io (read_source obfu sentinel) (\<lambda>s.
     bind_io (read_sources obfu sentinel n) (\<lambda>ss. ret (s # ss)))"

definition read_found_sources :: "bool \<Rightarrow> bool \<Rightarrow> (bytes \<times> (u32 \<times> u16 \<times> u8 \<times> bytes \<times> bytes) list) io" where
  "read_found_sources obfu sentinel =
     bind_io (Get 16) (\<lambda>hash. bind_io GetUInt8 (\<lambda>n.
     bind_io (read_sources obfu sentinel (unat n)) (\<lambda>ss. ret (hash, ss))))"

text \<open>What the reader should get for a source.\<close>

definition source_view :: "bool \<Rightarrow> source_format \<Rightarrow> source \<Rightarrow> u32 \<times> u16 \<times> u8 \<times> bytes \<times> bytes" where
  "source_view obfu format src =
     (let v6 = format = FormatSentinel \<and> sentinelForSource src;
          crypt = obfu \<and> src_CryptOptions src AND 0x07 \<noteq> 0 \<and> length (src_UserHash src) = 16
      in (if v6 then SentinelIPv6ID else src_ID src, src_Port src,
          if obfu then obfuSettings src else 0,
          if crypt then src_UserHash src else [], if v6 then src_IPv6 src else []))"

lemma obfuSettings_hash_bit [simp]:
  "obfuSettings src AND 0x80 \<noteq> 0 \<longleftrightarrow> src_CryptOptions src AND 0x07 \<noteq> 0 \<and> length (src_UserHash src) = 16"
proof -
  have "(x AND 7) AND 0x80 = 0" "((x AND 7) OR 0x80) AND 0x80 = 0x80" for x :: u8
    by (simp_all add: and.assoc bit.conj_disj_distrib2)
  then show ?thesis by (simp add: obfuSettings_def Let_def)
qed

lemma reads_if_ret:
  "(c \<Longrightarrow> reads m xs v) \<Longrightarrow> reads (if c then m else ret w) (if c then xs else []) (if c then v else w)"
  by (simp add: reads_ret)

lemma reads_read_source:
  assumes "src_ID src \<noteq> SentinelIPv6ID"
  shows "reads (read_source obfu (format = FormatSentinel)) (enc_items (sourceItems obfu format src)) (source_view obfu format src)"
proof -
  define v6 crypt where "v6 = (format = FormatSentinel \<and> sentinelForSource src)"
    and "crypt = (obfu \<and> src_CryptOptions src AND 0x07 \<noteq> 0 \<and> length (src_UserHash src) = 16)"
  define i where "i = (if v6 then SentinelIPv6ID else src_ID src)"
  define o1 where "o1 = (if obfu then obfuSettings src else 0)"
  have enc: "enc_items (sourceItems obfu format src) =
      le_put 4 i @ le_put 2 (src_Port src) @ (if obfu then le_put 1 o1 else []) @
      (if crypt then src_UserHash src else []) @ (if v6 then src_IPv6 src else []) @ []"
    by (auto simp: sourceItems_def Let_def i_def o1_def v6_def crypt_def simp del: SentinelIPv6ID_def)
  have c: "(o1 AND 0x80 \<noteq> 0) = crypt"
    unfolding o1_def crypt_def using obfuSettings_hash_bit [of src] by (cases obfu) auto
  have s: "(format = FormatSentinel \<and> i = SentinelIPv6ID) = v6"
    using assms by (auto simp: i_def v6_def simp del: SentinelIPv6ID_def)
  have l: "v6 \<Longrightarrow> length (src_IPv6 src) = 16" "crypt \<Longrightarrow> length (src_UserHash src) = 16"
    by (simp_all add: v6_def crypt_def sentinelForSource_def sourceHasReachableIPv6_def)
  have v: "source_view obfu format src = (i, src_Port src, o1, if crypt then src_UserHash src else [], if v6 then src_IPv6 src else [])"
    unfolding source_view_def Let_def v6_def [symmetric] crypt_def [symmetric] i_def [symmetric] o1_def [symmetric] by blast
  show ?thesis
    unfolding read_source_def enc v
    apply (rule reads_bind [OF reads_GetUInt32LE])
    apply (rule reads_bind [OF reads_GetUInt16LE])
    apply (rule reads_bind [where v = o1])
     apply (use reads_if_ret [of obfu GetUInt8 "le_put 1 o1" o1 0] reads_GetUInt8 [of o1] in \<open>simp add: o1_def split: if_splits\<close>)
    apply (simp only: c s)
    apply (rule reads_bind [OF reads_if_ret [OF reads_Get16 [OF l(2)]]], assumption)
    apply (rule reads_bind [OF reads_if_ret [OF reads_Get16 [OF l(1)]]], assumption)
    apply (rule reads_ret)
    done
qed

lemma reads_read_sources:
  "list_all (\<lambda>src. src_ID src \<noteq> SentinelIPv6ID) srcs \<Longrightarrow>
   reads (read_sources obfu (format = FormatSentinel) (length srcs))
     (enc_items (concat (map (sourceItems obfu format) srcs))) (map (source_view obfu format) srcs)"
proof (induction srcs)
  case (Cons src srcs)
  then show ?case
    by (auto intro!: reads_bind reads_read_source reads_bind_ret simp del: SentinelIPv6ID_def)
qed (simp add: reads_ret)

lemma item_typed_sourceItems: "list_all item_typed (sourceItems obfu format src)"
  by (auto simp: sourceItems_def Let_def sentinelForSource_def sourceHasReachableIPv6_def)

lemma length_enc_sourceItems: "length (enc_items (sourceItems obfu format src)) \<le> 39"
  by (auto simp: sourceItems_def Let_def sentinelForSource_def sourceHasReachableIPv6_def)

lemma length_enc_sources: "length (enc_items (concat (map (sourceItems obfu format) srcs))) \<le> 39 * length srcs"
proof (induction srcs)
  case (Cons src srcs)
  then show ?case using length_enc_sourceItems [of obfu format src] by simp
qed simp

lemma capWireSources_take: "capWireSources srcs = take MaxWireSources srcs"
  by (simp add: capWireSources_def)

subsection \<open>Sizes of the IPv6 datagram, line ends\<close>

lemma length_enc_ipv6SourceItems:
  "length (enc_items (ipv6SourceItems src)) = (4 + 2 + 1) + (if sourceHasReachableIPv6 src then 1 + 2 + 1 + 16 else 0)"
  by (simp add: ipv6SourceItems_def Let_def sourceHasReachableIPv6_def enc_tag_def enc_value_def mkTag_def)

lemma budgetSources_size:
  "sz \<le> udpSourceDatagramBudget \<Longrightarrow>
   sz + length (enc_items (concat (map ipv6SourceItems (budgetSources sz srcs)))) \<le> udpSourceDatagramBudget"
proof (induction sz srcs rule: budgetSources.induct)
  case (2 sz src srcs)
  let ?sz = "sz + (4 + 2 + 1) + (if sourceHasReachableIPv6 src then 1 + 2 + 1 + 16 else 0)"
  show ?case
  proof (cases "?sz > udpSourceDatagramBudget")
    case False
    with 2(1) [OF refl False] show ?thesis
      by (simp add: Let_def length_enc_ipv6SourceItems del: udpSourceDatagramBudget_def split: if_splits)
  qed (use 2 in \<open>simp add: Let_def del: udpSourceDatagramBudget_def\<close>)
qed simp

lemma budgetSources_prefix: "\<exists>n. budgetSources sz srcs = take n srcs"
proof (induction sz srcs rule: budgetSources.induct)
  case (2 sz src srcs)
  let ?sz = "sz + (4 + 2 + 1) + (if sourceHasReachableIPv6 src then 1 + 2 + 1 + 16 else 0)"
  show ?case
  proof (cases "?sz > udpSourceDatagramBudget")
    case False
    with 2 obtain n where "budgetSources ?sz srcs = take n srcs" by blast
    with False have "budgetSources sz (src # srcs) = take (Suc n) (src # srcs)"
      by (simp add: Let_def del: udpSourceDatagramBudget_def)
    then show ?thesis by blast
  next
    case True
    then have "budgetSources sz (src # srcs) = take 0 (src # srcs)"
      by (simp add: Let_def del: udpSourceDatagramBudget_def)
    then show ?thesis by blast
  qed
qed simp

lemma crlf_no_cr: "13 \<notin> set (map (\<lambda>c. if c = 13 then 10 else c) xs)" for xs :: bytes
  by auto

lemma crlf_to_lf_crlf: "13 \<notin> set xs \<Longrightarrow> crlf_to_lf (concat (map (\<lambda>c. if c = 10 then [13, 10] else [c]) xs)) = xs" for xs :: bytes
proof (induction xs)
  case (Cons x xs)
  then show ?case by (cases xs) auto
qed simp

lemma crlf_lines_idem: "crlfMessageLines (crlfMessageLines s) = crlfMessageLines s"
proof (cases "13 \<notin> set s \<and> 10 \<notin> set s")
  case False
  define xs where "xs = map (\<lambda>c. if c = 13 then 10 else c) (crlf_to_lf s)"
  have xs: "13 \<notin> set xs" unfolding xs_def by (rule crlf_no_cr)
  have "map (\<lambda>c. if c = 13 then 10 else c) xs = xs" using xs by (auto intro: map_idI)
  then show ?thesis
    using False crlf_to_lf_crlf [OF xs] by (auto simp: crlfMessageLines_def xs_def [symmetric])
qed (simp add: crlfMessageLines_def)

lemma item_typed_ipv6SourceItems: "list_all item_typed (ipv6SourceItems src)"
  by (simp add: ipv6SourceItems_def Let_def sourceHasReachableIPv6_def tag_typed_def mkTag_def)

subsection \<open>Properties\<close>

text \<open>C15: A search answer reaches the client as it was found. The packet built for any list
  of files that fits a packet is accepted by the receiver as one whole packet with the
  search-result opcode, its payload, inflated if it was compressed, decodes to one record
  per file with the same hash, name, size, type, source count, media fields and source
  address, and exactly one byte is left behind the records: 1 when more results wait, else 0.\<close>

theorem search_result_received:
  assumes "zlib_codec deflate inflate_upto" "list_all (file_ok \<circ> sharedFile) files"
    and "length (search_payload files mr) \<le> MaxTCPPacketSize"
  shows "\<exists>q p' pl rs b'. BuildSearchResultPacket deflate files mr = Ok q \<and> Init q NewPacket = (Ok (), p') \<and>
    pk_Status p' = PsReady \<and> \<not> pk_HasExcess p' \<and> pk_Code p' = OpSearchResult \<and>
    receivedPayload inflate_upto p' = Ok pl \<and> GetFileList (NewBufferFromBytes pl) = (Ok rs, b') \<and>
    list_all2 result_fields files rs \<and> drop (buf_pointer b') pl = [if mr then 1 else 0]"
proof -
  let ?its = "foldl (\<lambda>pack f. AddFile pack (sharedFile f)) [item32 (of_nat (length files))] files @ [item8 (if mr then 1 else 0)]"
  let ?pl = "search_payload files mr"
  have enc: "enc_items ?its = ?pl"
    by (simp add: foldl_AddFile search_payload_def)
  have typed: "list_all item_typed ?its"
    using assms(2) by (simp add: item_typed_foldl_AddFile)
  have build: "BuildSearchResultPacket deflate files mr = finishTCP deflate (item8 OpSearchResult # ?its)"
    by (simp add: BuildSearchResultPacket_def Let_def foldl_AddFile_Cons del: OpSearchResult_def)
  have "length files \<le> length (concat (map enc_file (map sharedFile files)))"
    using length_concat_enc_file [of "map sharedFile files"] assms(2) by (simp add: list_all_length)
  then have len: "length files < 2 ^ 32" using assms(3) by (simp add: search_payload_def)
  have "reads (getFileList True) (le_put 4 (of_nat (length files) :: u32) @ concat (map (enc_file \<circ> sharedFile) files))
      (map (sent_record True \<circ> sharedFile) files)"
    using reads_getFileList [of "map sharedFile files" True] assms(2) len by (simp add: list.pred_map)
  from readsD [OF this, of "[]" "[if mr then 1 else 0]"]
  have "\<exists>b'. GetFileList (NewBufferFromBytes ?pl) = (Ok (map (sent_record True \<circ> sharedFile) files), b') \<and>
      drop (buf_pointer b') ?pl = [if mr then 1 else 0]"
    by (simp add: GetFileList_def NewBufferFromBytes_def search_payload_def)
  moreover have "list_all2 result_fields files (map (sent_record True \<circ> sharedFile) files)"
    by (simp add: list_all2_conv_all_nth result_fields_sent)
  ultimately show ?thesis
    using finishTCP_received [OF assms(1) typed, of OpSearchResult NewPacket] assms(3)
    unfolding enc build by (auto simp del: OpSearchResult_def)
qed

definition sample_file :: storage_file where
  "sample_file =
     \<lparr>f_Hash = replicate 16 5, f_Name = str ''a.avi'', f_Size = 0x200000005, f_Type = str ''Video'', f_Sources = 3,
      f_Completed = 2, f_Title = [], f_Artist = [], f_Album = [], f_Runtime = 60, f_Bitrate = 0, f_Codec = [],
      f_SourceID = 7, f_SourcePort = 4662, f_Meta = None\<rparr>"

theorem search_result_received_witness:
  "file_ok (sharedFile sample_file) \<and>
   (\<exists>q p' pl rs b'. BuildSearchResultPacket toy_deflate [sample_file] True = Ok q \<and> Init q NewPacket = (Ok (), p') \<and>
      receivedPayload toy_inflate p' = Ok pl \<and> GetFileList (NewBufferFromBytes pl) = (Ok rs, b') \<and>
      list_all2 result_fields [sample_file] rs \<and> drop (buf_pointer b') pl = [1])"
proof -
  have ok: "file_ok (sharedFile sample_file)"
    by (simp add: file_ok_def sharedFile_def sample_file_def fileTags_def baseTags_def tag_ok_def tag_typed_def mkTag_def)
  have len: "length (search_payload [sample_file] True) \<le> MaxTCPPacketSize"
    by (simp add: search_payload_def enc_file_def sharedFile_def sample_file_def fileTags_def baseTags_def
        enc_tags_def enc_tag_def enc_value_def enc_string_def mkTag_def)
  show ?thesis
    using search_result_received [OF zlib_codec_toy, of "[sample_file]" True] ok len by auto
qed

text \<open>C16: A source answer is read by clients record by record without losing step, in every
  form: classic, obfuscated and with IPv6 sentinels. The count byte always equals the number
  of records that follow, at most 255 of them are sent, a user hash is present exactly when
  the settings byte says so, an IPv6 exactly behind the sentinel ID, and nothing is left over.
  No source has the sentinel as its own ID.\<close>

theorem found_sources_received:
  assumes "zlib_codec deflate inflate_upto" "length fileHash = 16"
    and "list_all (\<lambda>src. src_ID src \<noteq> SentinelIPv6ID) sources"
  shows "\<exists>q p' pl b'. buildFoundSourcesPacketWithOpcode deflate opcode fileHash sources obfu format = Ok q \<and>
    Init q NewPacket = (Ok (), p') \<and> pk_Status p' = PsReady \<and> \<not> pk_HasExcess p' \<and> pk_Code p' = opcode \<and>
    receivedPayload inflate_upto p' = Ok pl \<and>
    read_found_sources obfu (format = FormatSentinel) (NewBufferFromBytes pl) =
      (Ok (fileHash, map (source_view obfu format) (take MaxWireSources sources)), b') \<and>
    Remaining b' = 0"
proof -
  let ?srcs = "take MaxWireSources sources"
  let ?items = "concat (map (sourceItems obfu format) ?srcs)"
  let ?its = "[itemHash fileHash, item8 (of_nat (length ?srcs))] @ ?items"
  have build: "buildFoundSourcesPacketWithOpcode deflate opcode fileHash sources obfu format = finishTCP deflate (item8 opcode # ?its)"
    by (simp add: buildFoundSourcesPacketWithOpcode_def capWireSources_take)
  have typed: "list_all item_typed ?its"
    using assms(2) item_typed_sourceItems by (auto simp: list_all_iff)
  have len: "length (enc_items ?its) \<le> MaxTCPPacketSize"
    using length_enc_sources [of obfu format ?srcs] assms(2) by simp
  have n: "unat (of_nat (length ?srcs) :: u8) = length ?srcs" by (rule unat_of_nat_lt) simp
  have "list_all (\<lambda>src. src_ID src \<noteq> SentinelIPv6ID) ?srcs"
    using assms(3) by (auto simp: list_all_iff dest: in_set_takeD)
  from reads_read_sources [OF this, of obfu format]
  have "reads (read_found_sources obfu (format = FormatSentinel)) (fileHash @ le_put 1 (of_nat (length ?srcs) :: u8) @ enc_items ?items)
      (fileHash, map (source_view obfu format) ?srcs)"
    unfolding read_found_sources_def
    by (intro reads_bind [OF reads_Get16 [OF assms(2)]] reads_bind [OF reads_GetUInt8] reads_bind_ret) (simp_all only: n)
  from readsD [OF this, of "[]" "[]"]
  have "\<exists>b'. read_found_sources obfu (format = FormatSentinel) (NewBufferFromBytes (enc_items ?its)) =
      (Ok (fileHash, map (source_view obfu format) ?srcs), b') \<and> Remaining b' = 0"
    by (simp add: NewBufferFromBytes_def Remaining_eq)
  then show ?thesis
    using finishTCP_received [OF assms(1) typed len, of opcode NewPacket] unfolding build by blast
qed

definition sample_source :: source where
  "sample_source =
     \<lparr>src_ID = 9, src_Port = 4662, src_UserHash = replicate 16 1, src_CryptOptions = 3,
      src_IPv6 = 0x20 # replicate 15 1, src_IPv6Reachable = True\<rparr>"

theorem found_sources_received_witness:
  "\<exists>q p' pl b'. buildFoundSourcesPacketWithOpcode toy_deflate OpFoundSourcesObfu (replicate 16 2) [sample_source] True FormatSentinel = Ok q \<and>
    Init q NewPacket = (Ok (), p') \<and> receivedPayload toy_inflate p' = Ok pl \<and>
    read_found_sources True True (NewBufferFromBytes pl) =
      (Ok (replicate 16 2, [(0xffffffff, 4662, 0x83, replicate 16 1, 0x20 # replicate 15 1)]), b') \<and> Remaining b' = 0"
proof -
  have v: "source_view True FormatSentinel sample_source = (0xffffffff, 4662, 0x83, replicate 16 1, 0x20 # replicate 15 1)"
    by (simp add: source_view_def sample_source_def sentinelForSource_def sourceHasReachableIPv6_def HasHighID_def
        isLowID_def obfuSettings_def Let_def)
  have "length (replicate 16 2 :: bytes) = 16" "list_all (\<lambda>src. src_ID src \<noteq> SentinelIPv6ID) [sample_source]"
    by (simp_all add: sample_source_def)
  from found_sources_received [OF zlib_codec_toy this, of OpFoundSourcesObfu True FormatSentinel] show ?thesis
    unfolding take_Cons' by (auto simp: v simp del: OpFoundSourcesObfu_def)
qed

text \<open>C30: The IPv6 source datagram never outgrows its budget: the sizes the builder adds up
  are the sizes it then writes, so for any sources the datagram holds a prefix of them, with
  a count byte equal to the number of records, within \<open>udpSourceDatagramBudget\<close> bytes.\<close>

theorem ipv6_datagram_bounded:
  assumes "length fileHash = 16"
  shows "\<exists>q n. BuildGlobFoundSourcesIPv6Packet deflate fileHash sources = Ok q \<and> n \<le> MaxWireSources \<and>
    buf_data q = [PrED2K, OpGlobFoundSourcesIPv6] @ fileHash @ [of_nat (length (take n sources))] @
      enc_items (concat (map ipv6SourceItems (take n sources))) \<and>
    length (buf_data q) \<le> udpSourceDatagramBudget"
proof -
  let ?srcs = "budgetSources 19 (take MaxWireSources sources)"
  let ?items = "concat (map ipv6SourceItems ?srcs)"
  obtain n0 where n0: "?srcs = take n0 (take MaxWireSources sources)" using budgetSources_prefix by blast
  define n where "n = min n0 MaxWireSources"
  have n: "?srcs = take n sources" "n \<le> MaxWireSources" unfolding n0 n_def take_take by simp_all
  have typed: "list_all item_typed ([item8 OpGlobFoundSourcesIPv6, itemHash fileHash, item8 (of_nat (length ?srcs))] @ ?items)"
    using assms item_typed_ipv6SourceItems by (auto simp: list_all_iff)
  have "BuildGlobFoundSourcesIPv6Packet deflate fileHash sources =
      Ok (NewBufferFromBytes ([PrED2K, OpGlobFoundSourcesIPv6] @ fileHash @ [of_nat (length ?srcs)] @ enc_items ?items))"
    unfolding BuildGlobFoundSourcesIPv6Packet_def buildFoundSourcesIPv6_def Let_def capWireSources_take
    using MakeUDPPacket_typed [OF typed, of PrED2K] by simp
  moreover have "19 + length (enc_items ?items) \<le> udpSourceDatagramBudget"
    by (rule budgetSources_size) simp
  ultimately show ?thesis
    using assms n unfolding n(1) by (auto simp: NewBufferFromBytes_def intro!: exI [of _ n])
qed

theorem ipv6_datagram_bounded_witness:
  "\<exists>q n. BuildGlobFoundSourcesIPv6Packet toy_deflate (replicate 16 2) (replicate 300 sample_source) = Ok q \<and>
    n \<le> MaxWireSources \<and> length (buf_data q) \<le> udpSourceDatagramBudget"
  using ipv6_datagram_bounded [of "replicate 16 2" toy_deflate "replicate 300 sample_source"]
  unfolding length_replicate by blast

end
