(* ===== verification/Tcp_Framing.thy ===== *)
theory Tcp_Framing
  imports Tcp_Operations
begin

section \<open>Framing and dispatch of a TCP session (ed2k/server_runtime.go)\<close>

text \<open>
  What a TCP session does with received bytes: \<open>processPacketData\<close> cuts the stream into
  packets, \<open>handlePacket\<close> inflates, \<open>handleED2K\<close> dispatches on the opcode behind the login
  gate. The handlers of the single opcodes are the fields of a record, so that the
  framing is stated for all of them; a handler works on its own part of the session state
  and reports whether it completed the login, what it sent and whether it closed the
  session.

  Shown here: the way TCP cuts the stream into reads does not matter; before login only the
  login handler is ever reached; and what a session buffers is bounded, more tightly
  before login.
\<close>

subsection \<open>Session state\<close>

datatype close_reason = Reason string | ReasonErr string gerror

record frame_state =
  fs_packet :: packet
  fs_headerBuf :: bytes

record 'a session =
  ss_logged :: bool
  ss_loginGateTripped :: bool
  ss_closeReason :: close_reason
  ss_closed :: bool
  ss_sent :: "bytes list"
  ss_app :: 'a

record 'a served =
  sd_app :: 'a
  sd_login :: bool
  sd_sent :: "bytes list"
  sd_close :: "close_reason option"

record 'a handlers =
  h_LoginRequest :: "buffer \<Rightarrow> 'a \<Rightarrow> 'a served"
  h_OfferFiles :: "buffer \<Rightarrow> 'a \<Rightarrow> 'a served"
  h_GetServerList :: "'a \<Rightarrow> 'a served"
  h_GetSources :: "buffer \<Rightarrow> bool \<Rightarrow> 'a \<Rightarrow> 'a served"
  h_GetSourcesIPv6 :: "buffer \<Rightarrow> 'a \<Rightarrow> 'a served"
  h_SearchRequest :: "buffer \<Rightarrow> 'a \<Rightarrow> 'a served"
  h_QueryMoreResult :: "'a \<Rightarrow> 'a served"
  h_CallbackRequest :: "buffer \<Rightarrow> 'a \<Rightarrow> 'a served"
  h_IPv6 :: bool
  h_deflate :: "bytes \<Rightarrow> bytes"
  h_inflate :: "nat \<Rightarrow> bytes \<Rightarrow> gerror + bytes"

definition maxPreLoginPacket :: nat where [simp]: "maxPreLoginPacket = 65536"

definition msgNotLoggedIn :: bytes where
  "msgNotLoggedIn = str ''ERROR : You must log in before sending requests to this server.''"

subsection \<open>Closing and sending\<close>

definition setCloseReason :: "close_reason \<Rightarrow> 'a session \<Rightarrow> 'a session" where
  "setCloseReason reason s =
     (if reason = Reason '''' then s
      else if ss_closeReason s = Reason '''' \<or> ss_closeReason s = Reason ''read-loop-ended''
      then s\<lparr>ss_closeReason := reason\<rparr> else s)"

definition getCloseReason :: "'a session \<Rightarrow> close_reason" where
  "getCloseReason s = (if ss_closeReason s = Reason '''' then Reason ''unknown'' else ss_closeReason s)"

definition closeWithReason :: "close_reason \<Rightarrow> 'a session \<Rightarrow> 'a session" where
  "closeWithReason reason s = (setCloseReason reason s)\<lparr>ss_closed := True\<rparr>"

definition sendServerMessage :: "(bytes \<Rightarrow> bytes) \<Rightarrow> bytes \<Rightarrow> 'a session \<Rightarrow> 'a session" where
  "sendServerMessage deflate message s =
     (if message = [] then s
      else case BuildServerMessagePacket deflate message of
        Ok packet \<Rightarrow> s\<lparr>ss_sent := ss_sent s @ [buf_data packet]\<rparr>
      | _ \<Rightarrow> s)"

subsection \<open>The login gate\<close>

definition requireLogin :: "'a handlers \<Rightarrow> 'a session \<Rightarrow> bool \<times> 'a session" where
  "requireLogin h s =
     (if ss_logged s then (True, s)
      else if ss_loginGateTripped s then (False, s)
      else (False, closeWithReason (Reason ''not-logged-in'')
              (sendServerMessage (h_deflate h) msgNotLoggedIn (s\<lparr>ss_loginGateTripped := True\<rparr>))))"

definition preLoginHeaderAllowed :: "'a handlers \<Rightarrow> bytes \<Rightarrow> 'a session \<Rightarrow> bool \<times> 'a session" where
  "preLoginHeaderAllowed h header s =
     (if ss_logged s then (True, s)
      else if unat (le_get (take 4 (drop 1 header)) :: u32) > maxPreLoginPacket + 1
      then (False, closeWithReason (Reason ''prelogin-packet-too-large'') s)
      else if header ! 0 \<noteq> PrEMule \<and> header ! 5 \<noteq> OpLoginRequest \<and> header ! 5 \<noteq> OpDisconnect
      then requireLogin h s
      else (True, s))"

subsection \<open>Dispatch\<close>

definition applyServed :: "'a served \<Rightarrow> 'a session \<Rightarrow> 'a session" where
  "applyServed r s =
     (let s = s\<lparr>ss_app := sd_app r, ss_logged := ss_logged s \<or> sd_login r, ss_sent := ss_sent s @ sd_sent r\<rparr>
      in case sd_close r of None \<Rightarrow> s | Some reason \<Rightarrow> closeWithReason reason s)"

definition handleED2K :: "'a handlers \<Rightarrow> u8 \<Rightarrow> bytes \<Rightarrow> 'a session \<Rightarrow> 'a session" where
  "handleED2K h opcode payload s =
     (let data = NewBufferFromBytes payload;
          (go, s) = (if opcode = OpLoginRequest \<or> opcode = OpDisconnect then (True, s) else requireLogin h s)
      in if \<not> go then s
         else if opcode = OpLoginRequest then applyServed (h_LoginRequest h data (ss_app s)) s
         else if opcode = OpOfferFiles then applyServed (h_OfferFiles h data (ss_app s)) s
         else if opcode = OpGetServerList then applyServed (h_GetServerList h (ss_app s)) s
         else if opcode = OpGetSources then applyServed (h_GetSources h data False (ss_app s)) s
         else if opcode = OpGetSourcesObfu then applyServed (h_GetSources h data True (ss_app s)) s
         else if opcode = OpGetSourcesIPv6 then
           (if h_IPv6 h then applyServed (h_GetSourcesIPv6 h data (ss_app s)) s else s)
         else if opcode = OpSearchRequest then applyServed (h_SearchRequest h data (ss_app s)) s
         else if opcode = OpQueryMoreResult then applyServed (h_QueryMoreResult h (ss_app s)) s
         else if opcode = OpCallbackRequest then applyServed (h_CallbackRequest h data (ss_app s)) s
         else if opcode = OpDisconnect then closeWithReason (Reason ''client-disconnect'') s
         else s)"

definition handlePacket :: "'a handlers \<Rightarrow> packet \<Rightarrow> 'a session \<Rightarrow> 'a session" where
  "handlePacket h p s =
     (if pk_Protocol p = PrED2K then handleED2K h (pk_Code p) (buf_data (pk_Data p)) s
      else if pk_Protocol p = PrZlib then
        (case InflateZlibPayload (h_inflate h) (buf_data (pk_Data p)) of
           Ok payload \<Rightarrow> handleED2K h (pk_Code p) payload s
         | Err e \<Rightarrow> if errors_Is e ErrInflatedTooLarge then closeWithReason (Reason ''zlib-bomb'') s else s
         | Panic \<Rightarrow> s)
      else s)"

subsection \<open>Cutting the stream\<close>

text \<open>
  \<open>processOnce\<close> is one pass of \<open>processPacketData\<close>; it returns the excess the function
  calls itself on, or none. The \<^verbatim>\<open>Panic\<close> outcome is that of \<open>Append\<close>. \<open>ss_sent\<close> is what
  was handed to the socket; a closed socket refuses it.
\<close>

definition readPacket :: "'a handlers \<Rightarrow> bytes \<Rightarrow> frame_state \<Rightarrow> 'a session \<Rightarrow> (frame_state \<times> 'a session) res" where
  "readPacket h data f s =
     (if pk_Status (fs_packet f) = PsNew then
        (if data = [] then Ok (f, s)
         else if \<not> IsProtocol (data ! 0) then Ok (f, closeWithReason (Reason ''unknown-protocol'') s)
         else if length data < PacketHeaderSize then Ok (f\<lparr>fs_headerBuf := data\<rparr>, s)
         else let (allowed, s) = preLoginHeaderAllowed h data s in
           if \<not> allowed then Ok (f, s)
           else (case Init (NewBufferFromBytes data) (fs_packet f) of
                   (Ok _, p) \<Rightarrow> Ok (f\<lparr>fs_packet := p\<rparr>, s)
                 | (Err e, p) \<Rightarrow>
                     if errors_Is e ErrPacketTooLarge
                     then Ok (f\<lparr>fs_packet := p\<rparr>, closeWithReason (Reason ''packet-too-large'') s)
                     else Ok (f\<lparr>fs_packet := p\<rparr>, closeWithReason (ReasonErr ''bad-packet-header'' e) s)
                 | (Panic, p) \<Rightarrow> Panic))
      else if pk_Status (fs_packet f) = PsWaitingData then
        map_res (\<lambda>p. (f\<lparr>fs_packet := p\<rparr>, s)) (Append data (fs_packet f))
      else Ok (f, s))"


definition deliverPacket ::
  "'a handlers \<Rightarrow> frame_state \<Rightarrow> 'a session \<Rightarrow> frame_state \<times> 'a session \<times> bytes" where
  "deliverPacket h f s =
     (if pk_Status (fs_packet f) \<noteq> PsReady then (f, s, [])
      else let s = handlePacket h (fs_packet f) s;
               p = release ((fs_packet f)\<lparr>pk_Status := PsNew\<rparr>) in
        if pk_HasExcess p \<and> pk_Excess p \<noteq> []
        then (f\<lparr>fs_packet := p\<lparr>pk_HasExcess := False, pk_Excess := []\<rparr>\<rparr>, s, pk_Excess p)
        else (f\<lparr>fs_packet := p\<rparr>, s, []))"

definition processOnce ::
  "'a handlers \<Rightarrow> bytes \<Rightarrow> frame_state \<Rightarrow> 'a session \<Rightarrow> (frame_state \<times> 'a session \<times> bytes) res" where
  "processOnce h data f s =
     (if pk_Status (fs_packet f) \<noteq> PsNew \<and> pk_Status (fs_packet f) \<noteq> PsWaitingData then Ok (f, s, [])
      else let (data, f) = (if pk_Status (fs_packet f) = PsNew \<and> fs_headerBuf f \<noteq> []
                            then (fs_headerBuf f @ data, f\<lparr>fs_headerBuf := []\<rparr>) else (data, f))
      in map_res (\<lambda>(f, s). deliverPacket h f s) (readPacket h data f s))"

lemma processOnce_New:
  assumes "pk_Status (fs_packet f) = PsNew"
  shows "processOnce h data f s =
    map_res (\<lambda>(f, s). deliverPacket h f s) (readPacket h (fs_headerBuf f @ data) (f\<lparr>fs_headerBuf := []\<rparr>) s)"
proof (cases "fs_headerBuf f = []")
  case True
  have u: "f\<lparr>fs_headerBuf := []\<rparr> = f" using True by simp
  show ?thesis unfolding u using assms True by (simp add: processOnce_def)
qed (use assms in \<open>simp add: processOnce_def\<close>)

lemma processOnce_Waiting:
  assumes "pk_Status (fs_packet f) = PsWaitingData"
  shows "processOnce h data f s =
    map_res (\<lambda>p. deliverPacket h (f\<lparr>fs_packet := p\<rparr>) s) (Append data (fs_packet f))"
  using assms by (cases "Append data (fs_packet f)") (simp_all add: processOnce_def readPacket_def)

lemma map_res_eq_Ok [simp]: "map_res f r = Ok y \<longleftrightarrow> (\<exists>x. r = Ok x \<and> y = f x)"
  by (cases r) auto

lemma Append_excess:
  assumes "Append chunk p = Ok p'" "pk_Status p' = PsReady" "pk_HasExcess p'"
  shows "length (pk_Excess p') \<le> length chunk"
  using assms by (auto simp: Append_def Let_def split: if_splits)

lemma Init_excess:
  assumes "Init (NewBufferFromBytes bs) p = (Ok u, p')" "pk_Status p' = PsReady" "pk_HasExcess p'"
    "PacketHeaderSize \<le> length bs"
  shows "length (pk_Excess p') + PacketHeaderSize \<le> length bs"
proof -
  obtain pr sz code where bs: "bs = enc_header pr sz code @ drop PacketHeaderSize bs"
    using assms(4) by (rule header_bytes)
  show ?thesis
  proof (cases "accepts pr sz")
    case True
    then obtain p0 where "Append (drop PacketHeaderSize bs) p0 = Ok p'"
      using assms(1) Init_header [OF True, of code "drop PacketHeaderSize bs" p] unfolding bs [symmetric]
      by (auto split: res.splits)
    from Append_excess [OF this assms(2,3)] show ?thesis using assms(4) by simp
  next
    case False
    then show ?thesis using assms(1) Init_reject [OF False, of code "drop PacketHeaderSize bs" p] unfolding bs [symmetric]
      by auto
  qed
qed

text \<open>The excess is shorter than the data, or the packet it follows was half received before.\<close>

definition process_measure :: "bytes \<Rightarrow> frame_state \<Rightarrow> nat" where
  "process_measure data f =
     2 * (length data + length (fs_headerBuf f)) + (if pk_Status (fs_packet f) = PsWaitingData then 1 else 0)"

lemma processOnce_decreases:
  assumes "processOnce h data f s = Ok (f', s', ex)" "ex \<noteq> []"
  shows "process_measure ex f' < process_measure data f"
proof (cases "pk_Status (fs_packet f) = PsNew")
  case True
  define d where "d = fs_headerBuf f @ data"
  define f0 where "f0 = f\<lparr>fs_headerBuf := []\<rparr>"
  obtain f1 s1 where r: "readPacket h d f0 s = Ok (f1, s1)" and dl: "deliverPacket h f1 s1 = (f', s', ex)"
    using assms(1) unfolding processOnce_New [OF True] d_def f0_def by auto
  from dl assms(2) have rdy: "pk_Status (fs_packet f1) = PsReady"
    and ex: "pk_HasExcess (fs_packet f1)" "ex = pk_Excess (fs_packet f1)"
    and f': "pk_Status (fs_packet f') = PsNew" "fs_headerBuf f' = fs_headerBuf f1"
    by (auto simp: deliverPacket_def Let_def release_def split: if_splits)
  have n: "pk_Status (fs_packet f0) = PsNew" "fs_headerBuf f0 = []" using True by (simp_all add: f0_def)
  from r n rdy have len: "PacketHeaderSize \<le> length d" and hb: "fs_headerBuf f1 = []"
    and init: "Init (NewBufferFromBytes d) (fs_packet f0) = (Ok (), fs_packet f1)"
    by (auto simp: readPacket_def not_less split: if_splits prod.splits res.splits dest: Init_Err_status)
  from Init_excess [OF init rdy ex(1) len] show ?thesis
    using True f' hb ex(2) by (simp add: process_measure_def d_def)
next
  case False
  then have w: "pk_Status (fs_packet f) = PsWaitingData" using assms by (auto simp: processOnce_def split: if_splits)
  obtain p where p: "Append data (fs_packet f) = Ok p" and dl: "deliverPacket h (f\<lparr>fs_packet := p\<rparr>) s = (f', s', ex)"
    using assms(1) unfolding processOnce_Waiting [OF w] by auto
  from dl assms(2) have "pk_Status p = PsReady" "pk_HasExcess p" "ex = pk_Excess p"
    "pk_Status (fs_packet f') = PsNew" "fs_headerBuf f' = fs_headerBuf f"
    by (auto simp: deliverPacket_def Let_def release_def split: if_splits)
  then show ?thesis using w Append_excess [OF p] by (simp add: process_measure_def)
qed

function processPacketData ::
  "'a handlers \<Rightarrow> bytes \<Rightarrow> frame_state \<Rightarrow> 'a session \<Rightarrow> (frame_state \<times> 'a session) res" where
  "processPacketData h data f s =
     (case processOnce h data f s of
        Ok (f', s', ex) \<Rightarrow> if ex = [] then Ok (f', s') else processPacketData h ex f' s'
      | Err e \<Rightarrow> Err e
      | Panic \<Rightarrow> Panic)"
  by pat_completeness auto
termination
  by (relation "measure (\<lambda>(h, data, f, s). process_measure data f)") (auto intro: processOnce_decreases)

declare processPacketData.simps [simp del]

subsection \<open>How the stream is cut does not matter\<close>

lemma map_res_map_res [simp]: "map_res f (map_res g r) = map_res (\<lambda>x. f (g x)) r"
  by (cases r) simp_all

definition frame_inv :: "frame_state \<Rightarrow> bool" where
  "frame_inv f \<longleftrightarrow> \<not> pk_HasExcess (fs_packet f) \<and> pk_Excess (fs_packet f) = [] \<and> length (fs_headerBuf f) < PacketHeaderSize \<and>
     (pk_Status (fs_packet f) = PsNew \<or>
      pk_Status (fs_packet f) = PsWaitingData \<and> fs_headerBuf f = [] \<and>
      length (pk_recv (fs_packet f)) < unat (pk_Size (fs_packet f)) \<and> unat (pk_Size (fs_packet f)) \<le> MaxTCPPacketSize)"

definition gate_inv :: "'a session \<Rightarrow> bool" where
  "gate_inv s \<longleftrightarrow> (ss_loginGateTripped s \<longrightarrow> ss_closed s)"

text \<open>The packet left behind by a delivery.\<close>

definition delivered :: "packet \<Rightarrow> packet" where
  "delivered p = p\<lparr>pk_Status := PsNew, pk_Data := NewBuffer 0, pk_HasExcess := False, pk_Excess := []\<rparr>"

definition excess_ok :: "packet \<Rightarrow> bool" where
  "excess_ok p \<longleftrightarrow> (pk_HasExcess p \<longleftrightarrow> pk_Excess p \<noteq> [])"

lemma handlePacket_excess [simp]:
  "handlePacket h (p\<lparr>pk_HasExcess := b, pk_Excess := e\<rparr>) s = handlePacket h p s"
  by (simp add: handlePacket_def split: res.split)

lemma deliverPacket_ready:
  assumes "pk_Status p = PsReady" "excess_ok p"
  shows "deliverPacket h (f\<lparr>fs_packet := p\<rparr>) s = (f\<lparr>fs_packet := delivered p\<rparr>, handlePacket h p s, pk_Excess p)"
  using assms by (auto simp: deliverPacket_def Let_def release_def delivered_def excess_ok_def)

lemma deliverPacket_not_ready: "pk_Status (fs_packet f) \<noteq> PsReady \<Longrightarrow> deliverPacket h f s = (f, s, [])"
  by (simp add: deliverPacket_def)

lemma Append_outcome:
  assumes "length (pk_recv p) \<le> unat (pk_Size p)" "pk_Excess p = []"
  shows "\<exists>p'. Append chunk p = Ok p' \<and> excess_ok p' \<and> pk_Size p' = pk_Size p \<and> pk_recv p' = (if pk_Status p' = PsReady then [] else pk_recv p @ chunk) \<and>
    (pk_Status p' = PsReady \<or>
     pk_Status p' = PsWaitingData \<and> length (pk_recv p') < unat (pk_Size p') \<and> pk_Excess p' = [])"
  using assms by (auto simp: Append_room excess_ok_def)

lemma Append_ready_split:
  assumes "length (pk_recv p) \<le> unat (pk_Size p)" "pk_Excess p = []" "Append xs p = Ok p1" "pk_Status p1 = PsReady" "ys \<noteq> []"
  shows "Append (xs @ ys) p = Ok (p1\<lparr>pk_HasExcess := True, pk_Excess := pk_Excess p1 @ ys\<rparr>)"
proof -
  define k where "k = unat (pk_Size p) - length (pk_recv p)"
  have sz: "unat (pk_Size p) = length (pk_recv p) + k" using assms(1) by (simp add: k_def)
  have k: "k \<le> length xs" using assms by (auto simp: Append_room sz split: if_splits)
  have lt: "k < length xs + length ys" using k assms(5) by (cases ys) simp_all
  have "p1 = p\<lparr>pk_Data := NewBufferFromBytes (pk_recv p @ take k xs), pk_recv := [], pk_Status := PsReady,
          pk_HasExcess := (k < length xs), pk_Excess := (if k < length xs then drop k xs else [])\<rparr>"
    using assms k by (auto simp: Append_room sz min_def split: if_splits)
  then show ?thesis
    using k lt assms(1) by (auto simp: Append_room sz min_def)
qed

text \<open>What one pass does to the head of the stream, and what it would do to more of it.\<close>

lemma deliver_split:
  assumes "length (pk_recv p) \<le> unat (pk_Size p)" "pk_Excess p = []" "Append xs p = Ok p1"
    "deliverPacket h (f\<lparr>fs_packet := p1\<rparr>) s = (f', s', ex)" "fs_headerBuf f = []" "ys \<noteq> []"
  shows "pk_Status p1 = PsWaitingData \<and> ex = [] \<and> f' = f\<lparr>fs_packet := p1\<rparr> \<and> s' = s \<and> Append (xs @ ys) p = Append ys p1 \<or>
    pk_Status p1 = PsReady \<and> map_res (\<lambda>p. deliverPacket h (f\<lparr>fs_packet := p\<rparr>) s) (Append (xs @ ys) p) = Ok (f', s', ex @ ys)"
proof (cases "pk_Status p1 = PsReady")
  case True
  have ok: "excess_ok p1" using Append_outcome [OF assms(1,2), of xs] assms(3) by auto
  have e: "f' = f\<lparr>fs_packet := delivered p1\<rparr>" "s' = handlePacket h p1 s" "ex = pk_Excess p1"
    using assms(4) deliverPacket_ready [OF True ok, of h f s] by simp_all
  let ?p = "p1\<lparr>pk_HasExcess := True, pk_Excess := pk_Excess p1 @ ys\<rparr>"
  have "pk_Status ?p = PsReady" "excess_ok ?p" using True assms(6) by (simp_all add: excess_ok_def)
  from deliverPacket_ready [OF this] show ?thesis
    using True e Append_ready_split [OF assms(1,2,3) True assms(6)] by (simp add: delivered_def)
next
  case False
  then have w: "pk_Status p1 = PsWaitingData" using Append_outcome [OF assms(1,2), of xs] assms(3) by auto
  then show ?thesis
    using assms(4) Append_split [OF assms(1,3) w, of ys] by (simp add: deliverPacket_def)
qed

lemma preLogin_prefix:
  "PacketHeaderSize \<le> length d \<Longrightarrow> preLoginHeaderAllowed h (d @ ys) s = preLoginHeaderAllowed h d s"
  by (auto simp: preLoginHeaderAllowed_def nth_append)

lemma preLogin_denied:
  assumes "preLoginHeaderAllowed h d s = (False, s')" "gate_inv s"
  shows "ss_closed s'"
  using assms by (auto simp: preLoginHeaderAllowed_def requireLogin_def gate_inv_def closeWithReason_def split: if_splits)

lemma preLogin_allowed: "preLoginHeaderAllowed h d s = (True, s') \<Longrightarrow> s' = s"
  by (auto simp: preLoginHeaderAllowed_def requireLogin_def split: if_splits)

text \<open>Reading a whole header: refused for good, or the header goes to \<open>Append\<close> with the rest.\<close>

lemma readPacket_header:
  assumes "pk_Status (fs_packet f) = PsNew" "IsProtocol (d ! 0)" "PacketHeaderSize \<le> length d"
    "preLoginHeaderAllowed h d s = (True, s)" "pk_Excess (fs_packet f) = []"
  shows "(\<forall>ys. \<exists>f' s'. readPacket h (d @ ys) f s = Ok (f', s') \<and> ss_closed s' \<and> pk_Status (fs_packet f') = PsNew) \<or>
    (\<exists>p0 r. pk_recv p0 = [] \<and> pk_Excess p0 = [] \<and> unat (pk_Size p0) \<le> MaxTCPPacketSize \<and>
      (\<forall>ys. readPacket h (d @ ys) f s = map_res (\<lambda>p. (f\<lparr>fs_packet := p\<rparr>, s)) (Append (r @ ys) p0)))"
proof -
  obtain pr sz code where d: "d = enc_header pr sz code @ drop PacketHeaderSize d" using assms(3) by (rule header_bytes)
  have ne: "d \<noteq> []" using assms(3) by auto
  have pl: "preLoginHeaderAllowed h (d @ ys) s = (True, s)" for ys
    using assms(4) by (simp add: preLogin_prefix [OF assms(3)])
  show ?thesis
  proof (cases "accepts pr sz")
    case True
    let ?p0 = "(fs_packet f)\<lparr>pk_HasExcess := False, pk_Protocol := pr, pk_Size := sz - 1, pk_Code := code,
                          pk_recv := [], pk_Data := NewBuffer 0\<rparr>"
    have i: "Init (NewBufferFromBytes (d @ ys)) (fs_packet f) =
        (case Append (drop PacketHeaderSize d @ ys) ?p0 of Ok p' \<Rightarrow> (Ok (), p') | Err e \<Rightarrow> (Err e, ?p0) | Panic \<Rightarrow> (Panic, ?p0))" for ys
      using Init_header [OF True, of code "drop PacketHeaderSize d @ ys" "fs_packet f"] d by (metis append_assoc)
    have "readPacket h (d @ ys) f s = map_res (\<lambda>p. (f\<lparr>fs_packet := p\<rparr>, s)) (Append (drop PacketHeaderSize d @ ys) ?p0)" for ys
      using assms ne pl [of ys] Append_outcome [of ?p0 "drop PacketHeaderSize d @ ys"]
      by (auto simp: readPacket_def nth_append i)
    moreover have "unat (pk_Size ?p0) \<le> MaxTCPPacketSize" using True by (simp add: accepts_def)
    ultimately show ?thesis
      using assms(5) by (intro disjI2 exI [of _ ?p0] exI [of _ "drop PacketHeaderSize d"]) simp
  next
    case False
    have "\<exists>f' s'. readPacket h (d @ ys) f s = Ok (f', s') \<and> ss_closed s' \<and> pk_Status (fs_packet f') = PsNew" for ys
    proof -
      obtain e p' where "Init (NewBufferFromBytes (d @ ys)) (fs_packet f) = (Err e, p')" "pk_Status p' = PsNew"
        using Init_reject [OF False, of code "drop PacketHeaderSize d @ ys" "fs_packet f"] d assms(1) by (metis append_assoc)
      then show ?thesis
        using assms ne pl [of ys] by (simp add: readPacket_def nth_append closeWithReason_def)
    qed
    then show ?thesis by blast
  qed
qed

text \<open>Data that is refused stays refused when more follows.\<close>

lemma readPacket_refused:
  assumes "pk_Status (fs_packet f) = PsNew" "d \<noteq> []"
    "\<not> IsProtocol (d ! 0) \<or> PacketHeaderSize \<le> length d \<and> fst (preLoginHeaderAllowed h d s) = False" "gate_inv s"
  shows "\<exists>s'. readPacket h (d @ ys) f s = Ok (f, s') \<and> ss_closed s'"
proof (cases "IsProtocol (d ! 0)")
  case True
  then obtain s' where p: "PacketHeaderSize \<le> length d" "preLoginHeaderAllowed h d s = (False, s')"
    using assms(3) by (cases "preLoginHeaderAllowed h d s") auto
  then show ?thesis
    using True assms preLogin_denied [OF p(2)] by (simp add: readPacket_def nth_append preLogin_prefix)
qed (use assms in \<open>auto simp: readPacket_def nth_append closeWithReason_def\<close>)

lemma processOnce_split:
  assumes "frame_inv f" "gate_inv s" "processOnce h xs f s = Ok (f', s', ex)" "ys \<noteq> []"
  shows "ex = [] \<and> processOnce h (xs @ ys) f s = processOnce h ys f' s' \<or>
    processOnce h (xs @ ys) f s = Ok (f', s', ex @ ys) \<or>
    (\<exists>f'' s''. processOnce h (xs @ ys) f s = Ok (f'', s'', []) \<and> ss_closed s'')"
proof (cases "pk_Status (fs_packet f) = PsNew")
  case False
  then have w: "pk_Status (fs_packet f) = PsWaitingData" and i: "length (pk_recv (fs_packet f)) \<le> unat (pk_Size (fs_packet f))"
    "pk_Excess (fs_packet f) = []" "fs_headerBuf f = []"
    using assms(1) by (auto simp: frame_inv_def)
  obtain p1 where a: "Append xs (fs_packet f) = Ok p1" "deliverPacket h (f\<lparr>fs_packet := p1\<rparr>) s = (f', s', ex)"
    using assms(3) unfolding processOnce_Waiting [OF w] by auto
  from deliver_split [OF i(1,2) a i(3) assms(4)] show ?thesis
    by (auto simp: processOnce_Waiting [OF w] processOnce_Waiting)
next
  case True
  define d f0 where "d = fs_headerBuf f @ xs" and "f0 = f\<lparr>fs_headerBuf := []\<rparr>"
  have f0: "pk_Status (fs_packet f0) = PsNew" "pk_Excess (fs_packet f0) = []" "fs_headerBuf f0 = []"
    using True assms(1) by (simp_all add: f0_def frame_inv_def)
  have P: "processOnce h zs f s = map_res (\<lambda>(f, s). deliverPacket h f s) (readPacket h (fs_headerBuf f @ zs) f0 s)" for zs
    unfolding f0_def by (rule processOnce_New [OF True])
  have Pd: "processOnce h (xs @ ys) f s = map_res (\<lambda>(f, s). deliverPacket h f s) (readPacket h (d @ ys) f0 s)"
    using P [of "xs @ ys"] by (simp add: d_def)
  obtain f1 s1 where r: "readPacket h d f0 s = Ok (f1, s1)" and dl: "deliverPacket h f1 s1 = (f', s', ex)"
    using assms(3) P [of xs] by (auto simp: d_def)
  consider (refused) "d \<noteq> []" "\<not> IsProtocol (d ! 0) \<or> PacketHeaderSize \<le> length d \<and> fst (preLoginHeaderAllowed h d s) = False"
    | (short) "length d < PacketHeaderSize" "d = [] \<or> IsProtocol (d ! 0)"
    | (full) "IsProtocol (d ! 0)" "PacketHeaderSize \<le> length d" "preLoginHeaderAllowed h d s = (True, s)"
    using preLogin_allowed [of h d s] by (cases "preLoginHeaderAllowed h d s") fastforce
  then show ?thesis
  proof cases
    case refused
    from readPacket_refused [OF f0(1) this assms(2)] obtain s2 where "readPacket h (d @ ys) f0 s = Ok (f0, s2)" "ss_closed s2"
      by blast
    then show ?thesis using Pd f0 by (simp add: deliverPacket_not_ready)
  next
    case short
    then have "f1 = f0\<lparr>fs_headerBuf := d\<rparr>" "s1 = s"
      using r f0 by (auto simp: readPacket_def split: if_splits)
    then have "f' = f0\<lparr>fs_headerBuf := d\<rparr>" "s' = s" "ex = []"
      using dl f0 by (auto simp: deliverPacket_not_ready)
    then show ?thesis using Pd f0 by (simp add: processOnce_New) (simp add: f0_def)
  next
    case full
    from readPacket_header [OF f0(1) full f0(2)] show ?thesis
    proof (elim disjE exE conjE)
      assume "\<forall>ys. \<exists>f' s'. readPacket h (d @ ys) f0 s = Ok (f', s') \<and> ss_closed s' \<and> pk_Status (fs_packet f') = PsNew"
      from spec [OF this, of ys] show ?thesis using Pd by (auto simp: deliverPacket_not_ready)
    next
      fix p0 q
      assume p0: "pk_recv p0 = []" "pk_Excess p0 = []"
        and q: "\<forall>ys. readPacket h (d @ ys) f0 s = map_res (\<lambda>p. (f0\<lparr>fs_packet := p\<rparr>, s)) (Append (q @ ys) p0)"
      obtain p1 where a: "Append q p0 = Ok p1" "deliverPacket h (f0\<lparr>fs_packet := p1\<rparr>) s = (f', s', ex)"
        using spec [OF q, of "[]"] r dl by (cases "Append q p0") auto
      have "length (pk_recv p0) \<le> unat (pk_Size p0)" using p0 by simp
      from deliver_split [OF this p0(2) a f0(3) assms(4)] show ?thesis
        unfolding Pd spec [OF q] by (auto simp: processOnce_Waiting)
    qed
  qed
qed

lemma closed_simps [simp]:
  "ss_closed (setCloseReason r s) = ss_closed s" "ss_closed (closeWithReason r s)"
  "ss_closed (sendServerMessage dfl msg s) = ss_closed s"
  "ss_loginGateTripped (setCloseReason r s) = ss_loginGateTripped s"
  "ss_loginGateTripped (closeWithReason r s) = ss_loginGateTripped s"
  "ss_logged (setCloseReason r s) = ss_logged s" "ss_logged (closeWithReason r s) = ss_logged s"
  "ss_logged (sendServerMessage dfl msg s) = ss_logged s"
  "ss_app (setCloseReason r s) = ss_app s" "ss_app (closeWithReason r s) = ss_app s"
  "ss_app (sendServerMessage dfl msg s) = ss_app s"
  "ss_loginGateTripped (sendServerMessage dfl msg s) = ss_loginGateTripped s"
  by (simp_all add: setCloseReason_def closeWithReason_def sendServerMessage_def split: res.splits)

text \<open>
  Once closed a session stays closed, once logged in it stays so, a tripped gate means
  closed, and what was sent stays sent.
\<close>

definition closes :: "'a session \<Rightarrow> 'a session \<Rightarrow> bool" where
  "closes s s' \<longleftrightarrow> (ss_closed s \<longrightarrow> ss_closed s') \<and> (gate_inv s \<longrightarrow> gate_inv s') \<and> (ss_logged s \<longrightarrow> ss_logged s') \<and>
     (\<exists>new. ss_sent s' = ss_sent s @ new)"

lemma sent_closeWithReason [simp]: "ss_sent (closeWithReason r s) = ss_sent s"
  by (simp add: closeWithReason_def setCloseReason_def)

lemma closes_refl [simp]: "closes s s"
  by (simp add: closes_def)

lemma closes_trans: "closes s s' \<Longrightarrow> closes s' s'' \<Longrightarrow> closes s s''"
  by (auto simp: closes_def)

lemma closes_closeWithReason [simp]: "closes s (closeWithReason r s)"
  by (simp add: closes_def gate_inv_def)

lemma closes_requireLogin: "closes s (snd (requireLogin h s))"
  by (auto simp: requireLogin_def closes_def gate_inv_def sendServerMessage_def closeWithReason_def setCloseReason_def split: res.splits)

lemma closes_preLogin: "closes s (snd (preLoginHeaderAllowed h d s))"
  using closes_requireLogin [of s h] by (auto simp: preLoginHeaderAllowed_def)

lemma closes_applyServed: "closes s (applyServed r s)"
  by (auto simp: applyServed_def Let_def closes_def gate_inv_def split: option.splits)

lemma closes_handleED2K: "closes s (handleED2K h op pl s)"
proof -
  obtain go s1 where g: "(if op = OpLoginRequest \<or> op = OpDisconnect then (True, s) else requireLogin h s) = (go, s1)"
    by fastforce
  have "closes s s1" using g closes_requireLogin [of s h] by (auto split: if_splits)
  then show ?thesis
    unfolding handleED2K_def Let_def g prod.case
    by (auto intro: closes_trans closes_applyServed)
qed

lemma closes_handlePacket: "closes s (handlePacket h p s)"
  using closes_handleED2K by (auto simp: handlePacket_def split: res.splits)

lemma closes_readPacket: "readPacket h d f s = Ok (f', s') \<Longrightarrow> closes s s'"
  using closes_preLogin [of s h d]
  by (auto simp: readPacket_def closes_trans [OF _ closes_closeWithReason] split: if_splits prod.splits res.splits)

lemma closes_deliverPacket: "deliverPacket h f s = (f', s', ex) \<Longrightarrow> closes s s'"
  using closes_handlePacket by (auto simp: deliverPacket_def Let_def split: if_splits)

lemma processOnce_steps:
  assumes "processOnce h d f s = Ok (f', s', ex)" "pk_Status (fs_packet f) \<in> {PsNew, PsWaitingData}"
  obtains d' f0 f1 s1 where "readPacket h d' f0 s = Ok (f1, s1)" "deliverPacket h f1 s1 = (f', s', ex)"
    "pk_Status (fs_packet f) = PsNew \<and> d' = fs_headerBuf f @ d \<and> f0 = f\<lparr>fs_headerBuf := []\<rparr> \<or>
     pk_Status (fs_packet f) = PsWaitingData \<and> d' = d \<and> f0 = f"
proof (cases "pk_Status (fs_packet f) = PsNew")
  case True
  then obtain f1 s1 where "readPacket h (fs_headerBuf f @ d) (f\<lparr>fs_headerBuf := []\<rparr>) s = Ok (f1, s1)"
    "deliverPacket h f1 s1 = (f', s', ex)"
    using assms(1) by (auto simp: processOnce_New)
  then show ?thesis using that True by blast
next
  case False
  then have w: "pk_Status (fs_packet f) = PsWaitingData" using assms(2) by simp
  then obtain f1 s1 where "readPacket h d f s = Ok (f1, s1)" "deliverPacket h f1 s1 = (f', s', ex)"
    using assms(1) by (auto simp: processOnce_def)
  then show ?thesis using that w by blast
qed

lemma closes_processOnce: "processOnce h d f s = Ok (f', s', ex) \<Longrightarrow> closes s s'"
proof (cases "pk_Status (fs_packet f) \<in> {PsNew, PsWaitingData}")
  case True
  assume "processOnce h d f s = Ok (f', s', ex)"
  then show ?thesis using True
    by (rule processOnce_steps) (blast intro: closes_trans closes_readPacket closes_deliverPacket)
qed (auto simp: processOnce_def)

lemma frame_inv_readPacket:
  assumes "readPacket h d f s = Ok (f', s')" "fs_headerBuf f = []" "frame_inv f"
  shows "pk_Status (fs_packet f') = PsReady \<and> excess_ok (fs_packet f') \<and> fs_headerBuf f' = [] \<or> frame_inv f'"
proof (cases "pk_Status (fs_packet f) = PsNew")
  case True
  consider "pk_Status (fs_packet f') = PsNew" "pk_Excess (fs_packet f') = []" "\<not> pk_HasExcess (fs_packet f')"
      "length (fs_headerBuf f') < PacketHeaderSize"
    | "Init (NewBufferFromBytes d) (fs_packet f) = (Ok (), fs_packet f')" "PacketHeaderSize \<le> length d"
      "fs_headerBuf f' = []"
    using assms True
    by (auto simp: readPacket_def frame_inv_def not_less split: if_splits prod.splits res.splits dest: Init_Err_status)
  then show ?thesis
  proof cases
    case 1
    then show ?thesis by (simp add: frame_inv_def)
  next
    case 2
    obtain pr sz code where d: "d = enc_header pr sz code @ drop PacketHeaderSize d" using 2(2) by (rule header_bytes)
    have acc: "accepts pr sz"
      using 2(1) Init_reject [of pr sz code "drop PacketHeaderSize d" "fs_packet f"] unfolding d [symmetric] by force
    let ?p0 = "(fs_packet f)\<lparr>pk_HasExcess := False, pk_Protocol := pr, pk_Size := sz - 1, pk_Code := code,
                          pk_recv := [], pk_Data := NewBuffer 0\<rparr>"
    have "Append (drop PacketHeaderSize d) ?p0 = Ok (fs_packet f')"
      using 2(1) Init_header [OF acc, of code "drop PacketHeaderSize d" "fs_packet f"] unfolding d [symmetric]
      by (auto split: res.splits)
    then show ?thesis
      using Append_outcome [of ?p0 "drop PacketHeaderSize d"] acc assms(3) 2(3)
      by (auto simp: frame_inv_def excess_ok_def accepts_def)
  qed
next
  case False
  then show ?thesis
    using assms Append_outcome [of "fs_packet f" d]
    by (auto simp: readPacket_def frame_inv_def excess_ok_def)
qed

lemma closesD: "closes s s' \<Longrightarrow> gate_inv s \<Longrightarrow> gate_inv s'" "closes s s' \<Longrightarrow> ss_closed s \<Longrightarrow> ss_closed s'"
  "closes s s' \<Longrightarrow> ss_logged s \<Longrightarrow> ss_logged s'"
  by (simp_all add: closes_def)

lemma frame_inv_deliver:
  assumes "deliverPacket h f s = (f', s', ex)"
    "pk_Status (fs_packet f) = PsReady \<and> excess_ok (fs_packet f) \<and> fs_headerBuf f = [] \<or> frame_inv f"
  shows "frame_inv f'"
  using assms by (auto simp: deliverPacket_def Let_def release_def frame_inv_def excess_ok_def split: if_splits)

lemma frame_inv_processOnce:
  assumes "processOnce h d f s = Ok (f', s', ex)" "frame_inv f"
  shows "frame_inv f'"
proof -
  have "pk_Status (fs_packet f) \<in> {PsNew, PsWaitingData}" using assms(2) by (auto simp: frame_inv_def)
  from processOnce_steps [OF assms(1) this] obtain d' f0 f1 s1 where
    r: "readPacket h d' f0 s = Ok (f1, s1)" "deliverPacket h f1 s1 = (f', s', ex)"
    and "pk_Status (fs_packet f) = PsNew \<and> d' = fs_headerBuf f @ d \<and> f0 = f\<lparr>fs_headerBuf := []\<rparr> \<or>
     pk_Status (fs_packet f) = PsWaitingData \<and> d' = d \<and> f0 = f" .
  then have "frame_inv f0" "fs_headerBuf f0 = []" using assms(2) by (auto simp: frame_inv_def)
  from frame_inv_readPacket [OF r(1) this(2,1)] r(2) show ?thesis by (rule frame_inv_deliver [rotated])
qed

lemma frame_inv_readPacket_total:
  assumes "frame_inv f" shows "\<exists>f' s'. readPacket h d f s = Ok (f', s')"
proof (cases "pk_Status (fs_packet f) = PsNew")
  case True
  have "fst (Init (NewBufferFromBytes d) (fs_packet f)) \<noteq> Panic"
  proof (cases "PacketHeaderSize \<le> length d")
    case True
    then obtain pr sz code where d: "d = enc_header pr sz code @ drop PacketHeaderSize d" by (rule header_bytes)
    show ?thesis
      using Init_reject [of pr sz code "drop PacketHeaderSize d" "fs_packet f"]
        Init_accept [of pr sz code "drop PacketHeaderSize d" "fs_packet f"] unfolding d [symmetric] by force
  qed (use Init_short [of d "fs_packet f"] in auto)
  then show ?thesis using True
    by (auto simp: readPacket_def Let_def split: prod.splits res.splits if_splits)
next
  case False
  then show ?thesis using assms Append_outcome [of "fs_packet f" d]
    by (auto simp: readPacket_def frame_inv_def)
qed

lemma processOnce_total:
  assumes "frame_inv f" shows "\<exists>f' s' ex. processOnce h d f s = Ok (f', s', ex)"
proof -
  obtain d' f0 where f0: "frame_inv f0"
    and e: "processOnce h d f s = map_res (\<lambda>(f, s). deliverPacket h f s) (readPacket h d' f0 s)"
  proof (cases "pk_Status (fs_packet f) = PsNew")
    case True
    then show ?thesis using assms by (intro that [OF _ processOnce_New]) (auto simp: frame_inv_def)
  next
    case False
    then show ?thesis using assms by (intro that [of f d]) (auto simp: processOnce_def frame_inv_def)
  qed
  from frame_inv_readPacket_total [OF f0, of h d' s] obtain f1 s1 where "readPacket h d' f0 s = Ok (f1, s1)" by blast
  then show ?thesis using e by (cases "deliverPacket h f1 s1") auto
qed

lemma process_total:
  assumes "frame_inv f"
  shows "\<exists>f' s'. processPacketData h d f s = Ok (f', s') \<and> frame_inv f' \<and> closes s s'"
  using assms
proof (induction h d f s rule: processPacketData.induct)
  case (1 h d f s)
  from processOnce_total [OF 1(2)] obtain f1 s1 ex where o: "processOnce h d f s = Ok (f1, s1, ex)" by blast
  have i: "frame_inv f1" "closes s s1" using frame_inv_processOnce [OF o 1(2)] closes_processOnce [OF o] by simp_all
  show ?case
  proof (cases "ex = []")
    case True
    then show ?thesis using o i by (simp add: processPacketData.simps [of h d f s])
  next
    case False
    from 1(1) [OF o refl refl False i(1)] obtain f2 s2 where
      "processPacketData h ex f1 s1 = Ok (f2, s2)" "frame_inv f2" "closes s1 s2" by blast
    then show ?thesis using o i False closes_trans [of s s1 s2] by (simp add: processPacketData.simps [of h d f s])
  qed
qed

lemma process_closes: "frame_inv f \<Longrightarrow> processPacketData h d f s = Ok (f', s') \<Longrightarrow> closes s s' \<and> frame_inv f'"
  using process_total [of f h d s] by auto

lemma process_closed:
  assumes "frame_inv f" "gate_inv s" "ss_closed s" "processPacketData h xs f s = Ok (f', s')"
  shows "ss_closed s'"
  using process_closes [OF assms(1,4)] assms(3) closesD(2) by blast

text \<open>
  A longer read does what the shorter one and then the rest do, unless it closes the
  session: then packets behind the one that closed it may still be looked at.
\<close>

lemma process_split:
  assumes "frame_inv f" "gate_inv s" "processPacketData h xs f s = Ok (f1, s1)" "ys \<noteq> []"
  shows "processPacketData h (xs @ ys) f s = processPacketData h ys f1 s1 \<or>
    (\<exists>f' s'. processPacketData h (xs @ ys) f s = Ok (f', s') \<and> ss_closed s')"
  using assms(1-3)
proof (induction h xs f s rule: processPacketData.induct)
  case (1 h xs f s)
  from processOnce_total [OF 1(2)] obtain f2 s2 ex where o: "processOnce h xs f s = Ok (f2, s2, ex)" by blast
  have i: "frame_inv f2" "gate_inv s2"
    using frame_inv_processOnce [OF o 1(2)] closesD [OF closes_processOnce [OF o]] 1(3) by simp_all
  have rest: "if ex = [] then f1 = f2 \<and> s1 = s2 else processPacketData h ex f2 s2 = Ok (f1, s1)"
    using 1(4) o by (auto simp: processPacketData.simps [of h xs f s])
  note step = processPacketData.simps [of h "xs @ ys"]
  from processOnce_split [OF 1(2,3) o assms(4)] show ?case
  proof (elim disjE conjE exE)
    assume "ex = []" "processOnce h (xs @ ys) f s = processOnce h ys f2 s2"
    then show ?thesis using rest by (simp add: step processPacketData.simps [of h ys])
  next
    assume e: "processOnce h (xs @ ys) f s = Ok (f2, s2, ex @ ys)"
    show ?thesis
    proof (cases "ex = []")
      case True
      then show ?thesis using e rest assms(4) by (simp add: step)
    next
      case False
      then show ?thesis using e rest 1(1) [OF o refl refl False i] by (simp add: step)
    qed
  qed (simp add: step)
qed

text \<open>The read loop of \<open>run\<close> on the reads it gets; a closed connection gives no more.\<close>

fun readLoop :: "'a handlers \<Rightarrow> bytes list \<Rightarrow> frame_state \<Rightarrow> 'a session \<Rightarrow> (frame_state \<times> 'a session) res" where
  "readLoop h [] f s = Ok (f, s)"
| "readLoop h (buf # bufs) f s =
     (if ss_closed s then Ok (f, s)
      else case processPacketData h buf f s of
        Ok (f', s') \<Rightarrow> readLoop h bufs f' s'
      | Err e \<Rightarrow> Err e
      | Panic \<Rightarrow> Panic)"

lemma readLoop_total:
  assumes "frame_inv f"
  shows "\<exists>f' s'. readLoop h bufs f s = Ok (f', s') \<and> frame_inv f' \<and> closes s s'"
  using assms
proof (induction bufs arbitrary: f s)
  case (Cons b bufs)
  from process_total [OF Cons.prems, of h b s] obtain f1 s1 where
    1: "processPacketData h b f s = Ok (f1, s1)" "frame_inv f1" "closes s s1" by blast
  from Cons.IH [OF 1(2), of s1] 1 Cons.prems show ?case by (auto intro: closes_trans)
qed (simp add: closes_def)

lemma process_prefix_closed:
  assumes "frame_inv f" "gate_inv s" "processPacketData h (xs @ ys) f s = Ok (f', s')" "\<not> ss_closed s'" "ys \<noteq> []"
    "processPacketData h xs f s = Ok (f1, s1)"
  shows "processPacketData h ys f1 s1 = Ok (f', s') \<and> \<not> ss_closed s1"
proof -
  have "frame_inv f1" "closes s s1" using process_closes [OF assms(1,6)] by simp_all
  then have "gate_inv s1" using assms(2) closesD(1) by blast
  have "processPacketData h ys f1 s1 = Ok (f', s')"
    using process_split [OF assms(1,2,6,5)] assms(3,4) by auto
  with process_closed [OF \<open>frame_inv f1\<close> \<open>gate_inv s1\<close> _ this] assms(4) show ?thesis by blast
qed

lemma readLoop_concat:
  assumes "frame_inv f" "gate_inv s" "[] \<notin> set bufs" "bufs \<noteq> []"
    "processPacketData h (concat bufs) f s = Ok (f', s')" "\<not> ss_closed s'"
  shows "readLoop h bufs f s = Ok (f', s')"
  using assms
proof (induction bufs arbitrary: f s)
  case (Cons b bufs)
  from process_total [OF Cons.prems(1), of h b s] obtain f1 s1 where
    1: "processPacketData h b f s = Ok (f1, s1)" "frame_inv f1" "closes s s1" by blast
  have open_s: "\<not> ss_closed s"
    using process_closed [OF Cons.prems(1,2) _ Cons.prems(5)] Cons.prems(6) by blast
  show ?case
  proof (cases "bufs = []")
    case True
    then show ?thesis using Cons.prems open_s 1(1) by simp
  next
    case False
    have "concat bufs \<noteq> []" using False Cons.prems(3) by (cases bufs) auto
    with process_prefix_closed [OF Cons.prems(1,2) _ Cons.prems(6) _ 1(1)] Cons.prems(5)
    have "processPacketData h (concat bufs) f1 s1 = Ok (f', s')" by simp
    from Cons.IH [OF 1(2) closesD(1) [OF 1(3) Cons.prems(2)] _ False this] show ?thesis
      using Cons.prems open_s 1(1) by simp
  qed
qed simp

subsection \<open>The session as a sequence of messages\<close>

text \<open>
  The framing implements this: a message is a protocol, an opcode and a payload; serving it
  is the login gate on its header and then its dispatch.
\<close>

type_synonym message = "u8 \<times> u8 \<times> bytes"

definition enc_msg :: "message \<Rightarrow> bytes" where
  "enc_msg m = (case m of (pr, code, payload) \<Rightarrow> enc_header pr (of_nat (length payload + 1)) code @ payload)"

definition msg_ok :: "message \<Rightarrow> bool" where
  "msg_ok m \<longleftrightarrow> (case m of (pr, code, payload) \<Rightarrow> IsProtocol pr \<and> length payload \<le> MaxTCPPacketSize)"

definition serve :: "'a handlers \<Rightarrow> message \<Rightarrow> 'a session \<Rightarrow> 'a session" where
  "serve h m s = (case m of (pr, code, payload) \<Rightarrow>
     case preLoginHeaderAllowed h (enc_msg m) s of (allowed, s') \<Rightarrow>
       if allowed then handlePacket h (NewPacket\<lparr>pk_Protocol := pr, pk_Code := code, pk_Data := NewBufferFromBytes payload\<rparr>) s'
       else s')"

fun serveAll :: "'a handlers \<Rightarrow> message list \<Rightarrow> 'a session \<Rightarrow> 'a session" where
  "serveAll h [] s = s"
| "serveAll h (m # ms) s = serveAll h ms (serve h m s)"

definition fresh :: "frame_state \<Rightarrow> bool" where
  "fresh f \<longleftrightarrow> frame_inv f \<and> pk_Status (fs_packet f) = PsNew \<and> fs_headerBuf f = []"

lemma closes_serve: "closes s (serve h m s)"
  using closes_preLogin [of s h "enc_msg m"]
  by (auto simp: serve_def intro: closes_trans closes_handlePacket split: prod.splits)

lemma closes_serveAll: "closes s (serveAll h ms s)"
  by (induction ms arbitrary: s) (auto intro: closes_trans closes_serve)

lemma handlePacket_cong:
  "pk_Protocol p = pk_Protocol q \<Longrightarrow> pk_Code p = pk_Code q \<Longrightarrow> buf_data (pk_Data p) = buf_data (pk_Data q) \<Longrightarrow>
   handlePacket h p s = handlePacket h q s"
  by (simp add: handlePacket_def split: res.split)

lemma processOnce_msg:
  assumes "fresh f" "gate_inv s" "msg_ok m" "\<not> ss_closed (serve h m s)"
  shows "\<exists>f'. processOnce h (enc_msg m @ rest) f s = Ok (f', serve h m s, rest) \<and> fresh f'"
proof -
  obtain pr code payload where m: "m = (pr, code, payload)" by (cases m)
  let ?n = "of_nat (length payload + 1) :: u32"
  have ok: "accepts pr ?n" "unat (?n - 1) = length payload" "IsProtocol pr"
    using accepts_length [of pr "length payload"] assms(3) by (auto simp: m msg_ok_def IsProtocol_def)
  have e: "enc_msg m @ rest = enc_header pr ?n code @ payload @ rest" by (simp add: m enc_msg_def)
  have len: "PacketHeaderSize \<le> length (enc_msg m)" "enc_msg m \<noteq> []" "enc_msg m ! 0 = pr"
    by (simp_all add: m enc_msg_def enc_header_def nth_append)
  obtain al s1 where pl: "preLoginHeaderAllowed h (enc_msg m) s = (al, s1)" by fastforce
  have al: "al" "s1 = s"
    using assms(2,4) pl preLogin_denied [of h "enc_msg m" s s1] preLogin_allowed [of h "enc_msg m" s s1]
    by (auto simp: serve_def m split: if_splits)
  have f: "pk_Status (fs_packet f) = PsNew" "fs_headerBuf f = []" "f\<lparr>fs_headerBuf := []\<rparr> = f" "pk_Excess (fs_packet f) = []"
    using assms(1) by (simp_all add: fresh_def frame_inv_def)
  define p where "p = (fs_packet f)\<lparr>pk_HasExcess := (rest \<noteq> []), pk_Protocol := pr, pk_Size := ?n - 1, pk_Code := code,
      pk_recv := [], pk_Data := NewBufferFromBytes payload, pk_Status := PsReady, pk_Excess := rest\<rparr>"
  have "Init (NewBufferFromBytes (enc_msg m @ rest)) (fs_packet f) = (Ok (), p)"
    unfolding e Init_header [OF ok(1)] using f ok(2) by (simp add: Append_room p_def del: of_nat_add of_nat_Suc)
  then have "readPacket h (enc_msg m @ rest) f s = Ok (f\<lparr>fs_packet := p\<rparr>, s)"
    using f len ok(3) pl al by (simp add: readPacket_def nth_append preLogin_prefix)
  moreover have "pk_Status p = PsReady" "excess_ok p" by (simp_all add: p_def excess_ok_def)
  moreover have "serve h m s = handlePacket h p s"
    using pl al by (auto simp: serve_def m p_def intro!: handlePacket_cong)
  ultimately have "processOnce h (enc_msg m @ rest) f s = Ok (f\<lparr>fs_packet := delivered p\<rparr>, serve h m s, rest)"
    unfolding processOnce_New [OF f(1)] f(2,3) append_Nil by (simp add: deliverPacket_ready) (simp add: p_def)
  moreover have "fresh (f\<lparr>fs_packet := delivered p\<rparr>)" using f by (simp add: fresh_def frame_inv_def delivered_def)
  ultimately show ?thesis by blast
qed

lemma process_messages:
  assumes "fresh f" "gate_inv s" "list_all msg_ok ms" "ms \<noteq> []" "\<not> ss_closed (serveAll h ms s)"
  shows "\<exists>f'. processPacketData h (concat (map enc_msg ms)) f s = Ok (f', serveAll h ms s) \<and> fresh f'"
  using assms
proof (induction ms arbitrary: f s)
  case (Cons m ms)
  have nc: "\<not> ss_closed (serve h m s)" using Cons.prems(5) closesD(2) [OF closes_serveAll] by auto
  obtain f1 where f1: "processOnce h (enc_msg m @ concat (map enc_msg ms)) f s = Ok (f1, serve h m s, concat (map enc_msg ms))" "fresh f1"
    using processOnce_msg [OF Cons.prems(1,2) _ nc] Cons.prems(3) by fastforce
  show ?case
  proof (cases "ms = []")
    case False
    then have "concat (map enc_msg ms) \<noteq> []" by (cases ms) (auto simp: enc_msg_def enc_header_def)
    with Cons.IH [OF f1(2) closesD(1) [OF closes_serve Cons.prems(2)] _ False] Cons.prems(3,5) f1(1) show ?thesis
      by (auto simp: processPacketData.simps [of h "_ @ _"] simp del: concat_eq_Nil_conv)
  qed (use f1 in \<open>simp add: processPacketData.simps [of h "enc_msg m"]\<close>)
qed simp

lemma readLoop_messages:
  assumes "fresh f" "gate_inv s" "list_all msg_ok ms" "ms \<noteq> []" "\<not> ss_closed (serveAll h ms s)"
    "concat bufs = concat (map enc_msg ms)" "[] \<notin> set bufs"
  shows "\<exists>f'. readLoop h bufs f s = Ok (f', serveAll h ms s) \<and> fresh f'"
proof -
  have "concat bufs \<noteq> []" using assms(4,6) by (cases ms) (auto simp: enc_msg_def enc_header_def)
  then have ne: "bufs \<noteq> []" by auto
  from process_messages [OF assms(1-5)] obtain f' where
    "processPacketData h (concat bufs) f s = Ok (f', serveAll h ms s)" "fresh f'" unfolding assms(6) by blast
  with readLoop_concat [OF _ assms(2,7) ne this(1) assms(5)] assms(1) show ?thesis by (auto simp: fresh_def)
qed

subsection \<open>Before login\<close>

lemma requireLogin_unlogged: "requireLogin h s = (go, s') \<Longrightarrow> \<not> ss_logged s \<Longrightarrow> \<not> go"
  by (auto simp: requireLogin_def split: if_splits)

definition same_login :: "'a handlers \<Rightarrow> 'a handlers \<Rightarrow> bool" where
  "same_login h1 h2 \<longleftrightarrow> h_LoginRequest h1 = h_LoginRequest h2 \<and> h_deflate h1 = h_deflate h2 \<and> h_inflate h1 = h_inflate h2"

lemma gate_requireLogin: "same_login h1 h2 \<Longrightarrow> requireLogin h1 s = requireLogin h2 s"
  by (simp add: same_login_def requireLogin_def)

lemma gate_preLogin: "same_login h1 h2 \<Longrightarrow> preLoginHeaderAllowed h1 d s = preLoginHeaderAllowed h2 d s"
  by (simp add: preLoginHeaderAllowed_def gate_requireLogin [of h1 h2])

lemma gate_readPacket: "same_login h1 h2 \<Longrightarrow> readPacket h1 d f s = readPacket h2 d f s"
  by (simp add: readPacket_def gate_preLogin [of h1 h2])

lemma gate_handleED2K:
  assumes "same_login h1 h2" "\<not> ss_logged s"
  shows "handleED2K h1 op pl s = handleED2K h2 op pl s"
proof -
  obtain go s1 where "requireLogin h1 s = (go, s1)" by fastforce
  then show ?thesis
    using assms requireLogin_unlogged [of h1 s go s1]
    by (simp add: handleED2K_def Let_def gate_requireLogin [of h1 h2] same_login_def)
qed

lemma gate_deliverPacket:
  assumes "same_login h1 h2" "\<not> ss_logged s"
  shows "deliverPacket h1 f s = deliverPacket h2 f s"
proof -
  have "handlePacket h1 p s = handlePacket h2 p s" for p
    using assms by (simp add: handlePacket_def gate_handleED2K [OF assms] same_login_def split: res.split)
  then show ?thesis by (simp add: deliverPacket_def Let_def)
qed

lemma gate_processOnce:
  assumes "same_login h1 h2" "processOnce h1 d f s = Ok (f', s', ex)" "\<not> ss_logged s'"
  shows "processOnce h2 d f s = Ok (f', s', ex)"
proof (cases "pk_Status (fs_packet f) \<in> {PsNew, PsWaitingData}")
  case True
  from processOnce_steps [OF assms(2) this] obtain d' f0 f1 s1 where
    r: "readPacket h1 d' f0 s = Ok (f1, s1)" "deliverPacket h1 f1 s1 = (f', s', ex)"
    and c: "pk_Status (fs_packet f) = PsNew \<and> d' = fs_headerBuf f @ d \<and> f0 = f\<lparr>fs_headerBuf := []\<rparr> \<or>
     pk_Status (fs_packet f) = PsWaitingData \<and> d' = d \<and> f0 = f" .
  have "\<not> ss_logged s1" using closesD(3) [OF closes_deliverPacket [OF r(2)]] assms(3) by blast
  then have "readPacket h2 d' f0 s = Ok (f1, s1)" "deliverPacket h2 f1 s1 = (f', s', ex)"
    using r gate_readPacket [OF assms(1)] gate_deliverPacket [OF assms(1)] by simp_all
  then show ?thesis using c by (elim disjE) (auto simp: processOnce_New, auto simp: processOnce_def)
qed (use assms in \<open>simp add: processOnce_def\<close>)

lemma gate_process:
  assumes "same_login h1 h2" "frame_inv f" "processPacketData h1 d f s = Ok (f', s')" "\<not> ss_logged s'"
  shows "processPacketData h2 d f s = Ok (f', s')"
  using assms
proof (induction h1 d f s rule: processPacketData.induct)
  case (1 h d f s)
  from processOnce_total [OF 1(3)] obtain f1 s1 ex where o: "processOnce h d f s = Ok (f1, s1, ex)" by blast
  have i: "frame_inv f1" using frame_inv_processOnce [OF o 1(3)] .
  have r: "if ex = [] then f' = f1 \<and> s' = s1 else processPacketData h ex f1 s1 = Ok (f', s')"
    using 1(4) o by (auto simp: processPacketData.simps [of h d])
  have nl: "\<not> ss_logged s1"
    using r 1(5) process_closes [OF i, of h ex s1 f' s'] closesD(3) [of s1 s'] by (auto split: if_splits)
  from gate_processOnce [OF 1(2) o nl] show ?case
    using r 1(1) [OF o refl refl _ 1(2) i _ 1(5)] by (auto simp: processPacketData.simps [of h2 d] split: if_splits)
qed

lemma gate_readLoop:
  assumes "same_login h1 h2" "frame_inv f" "readLoop h1 bufs f s = Ok (f', s')" "\<not> ss_logged s'"
  shows "readLoop h2 bufs f s = Ok (f', s')"
  using assms
proof (induction bufs arbitrary: f s)
  case (Cons b bufs)
  from process_total [OF Cons.prems(2), of h1 b s] obtain f1 s1 where
    1: "processPacketData h1 b f s = Ok (f1, s1)" "frame_inv f1" "closes s s1" by blast
  show ?case
  proof (cases "ss_closed s")
    case False
    have r: "readLoop h1 bufs f1 s1 = Ok (f', s')" using Cons.prems(3) 1(1) False by simp
    have "\<not> ss_logged s1"
      using readLoop_total [OF 1(2), of h1 bufs s1] r Cons.prems(4) closesD(3) by fastforce
    from gate_process [OF Cons.prems(1,2) 1(1) this] Cons.IH [OF Cons.prems(1) 1(2) r Cons.prems(4)] False
    show ?thesis by simp
  qed (use Cons.prems in simp)
qed simp

subsection \<open>What a session holds\<close>

definition mem_inv :: "frame_state \<Rightarrow> 'a session \<Rightarrow> bool" where
  "mem_inv f s \<longleftrightarrow> frame_inv f \<and>
     (if pk_Status (fs_packet f) = PsNew then pk_recv (fs_packet f) = []
      else ss_logged s \<or> unat (pk_Size (fs_packet f)) \<le> maxPreLoginPacket)"

lemma preLogin_size:
  assumes "preLoginHeaderAllowed h (enc_header pr sz code @ r) s = (True, s')" "sz \<noteq> 0" "\<not> ss_logged s"
  shows "unat (sz - 1) \<le> maxPreLoginPacket"
proof -
  have "take 4 (drop 1 (enc_header pr sz code @ r)) = le_put 4 sz"
    by (simp add: enc_header_def del: le_put.simps One_nat_def)
  moreover have "le_get (le_put 4 sz) = sz" by (rule le_get_put) simp
  ultimately have "unat sz \<le> maxPreLoginPacket + 1"
    using assms(1,3) by (auto simp: preLoginHeaderAllowed_def simp del: le_put.simps split: if_splits)
  then show ?thesis using assms(2) by (simp add: unat_minus_one)
qed

lemma mem_readPacket:
  assumes "readPacket h d f s = Ok (f', s')" "fs_headerBuf f = []" "mem_inv f s"
  shows "pk_Status (fs_packet f') = PsReady \<and> pk_recv (fs_packet f') = [] \<or> mem_inv f' s'"
proof (cases "pk_Status (fs_packet f) = PsNew")
  case True
  have i: "frame_inv f" "pk_recv (fs_packet f) = []" using assms(3) True by (auto simp: mem_inv_def)
  note fi = frame_inv_readPacket [OF assms(1,2) i(1)]
  consider "pk_Status (fs_packet f') = PsNew" "pk_recv (fs_packet f') = []"
    | "Init (NewBufferFromBytes d) (fs_packet f) = (Ok (), fs_packet f')" "PacketHeaderSize \<le> length d"
      "preLoginHeaderAllowed h d s = (True, s')"
    using assms(1) True i
    by (auto simp: readPacket_def not_less split: if_splits prod.splits res.splits dest: Init_Err_status)
  then show ?thesis
  proof cases
    case 1
    then show ?thesis using fi by (auto simp: mem_inv_def)
  next
    case 2
    obtain pr sz code where d: "d = enc_header pr sz code @ drop PacketHeaderSize d" using 2(2) by (rule header_bytes)
    have acc: "accepts pr sz"
      using 2(1) Init_reject [of pr sz code "drop PacketHeaderSize d" "fs_packet f"] unfolding d [symmetric] by force
    let ?p0 = "(fs_packet f)\<lparr>pk_HasExcess := False, pk_Protocol := pr, pk_Size := sz - 1, pk_Code := code,
                          pk_recv := [], pk_Data := NewBuffer 0\<rparr>"
    have "Append (drop PacketHeaderSize d) ?p0 = Ok (fs_packet f')"
      using 2(1) Init_header [OF acc, of code "drop PacketHeaderSize d" "fs_packet f"] unfolding d [symmetric]
      by (auto split: res.splits)
    then have p: "pk_Size (fs_packet f') = sz - 1" "pk_Status (fs_packet f') \<noteq> PsNew"
      "pk_Status (fs_packet f') = PsReady \<longrightarrow> pk_recv (fs_packet f') = []"
      using Append_outcome [of ?p0 "drop PacketHeaderSize d"] i(1) by (auto simp: frame_inv_def)
    have "ss_logged s' \<or> unat (sz - 1) \<le> maxPreLoginPacket"
      using preLogin_size [of h pr sz code "drop PacketHeaderSize d" s s'] preLogin_allowed [OF 2(3)] 2(3) acc
      unfolding d [symmetric] by (auto simp: accepts_def)
    then show ?thesis using fi p by (auto simp: mem_inv_def)
  qed
next
  case False
  then have i: "frame_inv f" "ss_logged s \<or> unat (pk_Size (fs_packet f)) \<le> maxPreLoginPacket"
    using assms(3) by (auto simp: mem_inv_def)
  show ?thesis
    using assms(1) False i frame_inv_readPacket [OF assms(1,2) i(1)] Append_outcome [of "fs_packet f" d]
    by (auto simp: readPacket_def mem_inv_def frame_inv_def)
qed

lemma mem_deliver:
  assumes "deliverPacket h f s = (f', s', ex)"
    "pk_Status (fs_packet f) = PsReady \<and> pk_recv (fs_packet f) = [] \<or> mem_inv f s" "frame_inv f'"
  shows "mem_inv f' s'"
  using assms by (auto simp: deliverPacket_def Let_def release_def mem_inv_def frame_inv_def split: if_splits)

lemma mem_processOnce:
  assumes "processOnce h d f s = Ok (f', s', ex)" "mem_inv f s"
  shows "mem_inv f' s'"
proof -
  have f: "frame_inv f" "pk_Status (fs_packet f) \<in> {PsNew, PsWaitingData}" using assms(2) by (auto simp: mem_inv_def frame_inv_def)
  from processOnce_steps [OF assms(1) f(2)] obtain d' f0 f1 s1 where
    r: "readPacket h d' f0 s = Ok (f1, s1)" "deliverPacket h f1 s1 = (f', s', ex)"
    and "pk_Status (fs_packet f) = PsNew \<and> d' = fs_headerBuf f @ d \<and> f0 = f\<lparr>fs_headerBuf := []\<rparr> \<or>
     pk_Status (fs_packet f) = PsWaitingData \<and> d' = d \<and> f0 = f" .
  then have "mem_inv f0 s" "fs_headerBuf f0 = []" using assms(2) by (auto simp: mem_inv_def frame_inv_def)
  from mem_readPacket [OF r(1) this(2,1)] show ?thesis
    by (rule mem_deliver [OF r(2) _ frame_inv_processOnce [OF assms(1) f(1)]])
qed

lemma mem_process:
  assumes "mem_inv f s" "processPacketData h d f s = Ok (f', s')"
  shows "mem_inv f' s'"
  using assms
proof (induction h d f s rule: processPacketData.induct)
  case (1 h d f s)
  then obtain f1 s1 ex where o: "processOnce h d f s = Ok (f1, s1, ex)"
    using processOnce_total [of f h d s] by (auto simp: mem_inv_def)
  show ?case
    using 1(1) [OF o refl refl] 1(3) o mem_processOnce [OF o 1(2)]
    by (auto simp: processPacketData.simps [of h d] split: if_splits)
qed

lemma mem_readLoop:
  assumes "mem_inv f s" "readLoop h bufs f s = Ok (f', s')"
  shows "mem_inv f' s'"
  using assms
  by (induction bufs arbitrary: f s) (auto split: if_splits res.splits dest: mem_process)

definition newFrame :: frame_state where
  "newFrame = \<lparr>fs_packet = NewPacket, fs_headerBuf = []\<rparr>"

lemma newFrame_inv: "mem_inv newFrame s" "frame_inv newFrame" "fresh newFrame"
  by (simp_all add: newFrame_def mem_inv_def frame_inv_def fresh_def NewPacket_def)

subsection \<open>Properties of a session\<close>

text \<open>A session for the witnesses: its handlers count the requests they serve.\<close>

definition count_served :: "nat \<Rightarrow> nat served" where
  "count_served n = \<lparr>sd_app = n + 1, sd_login = False, sd_sent = [], sd_close = None\<rparr>"

definition count_handlers :: "nat handlers" where
  "count_handlers = \<lparr>h_LoginRequest = (\<lambda>b n. (count_served n)\<lparr>sd_login := True\<rparr>), h_OfferFiles = (\<lambda>b n. count_served n),
     h_GetServerList = count_served, h_GetSources = (\<lambda>b x n. count_served n), h_GetSourcesIPv6 = (\<lambda>b n. count_served n),
     h_SearchRequest = (\<lambda>b n. count_served n), h_QueryMoreResult = count_served,
     h_CallbackRequest = (\<lambda>b n. count_served n), h_IPv6 = False, h_deflate = toy_deflate, h_inflate = toy_inflate\<rparr>"

definition new_session :: "nat session" where
  "new_session = \<lparr>ss_logged = False, ss_loginGateTripped = False, ss_closeReason = Reason ''read-loop-ended'',
     ss_closed = False, ss_sent = [], ss_app = 0\<rparr>"

text \<open>C1: However TCP cuts the byte stream of a conversation into reads, the session does exactly
  what serving the messages one after the other does: every message passes the login gate
  on its header and is dispatched once, in order, and no byte is left over. This holds for
  every conversation that leaves the session open.
\<close>

theorem stream_serves_messages:
  assumes "list_all msg_ok ms" "ms \<noteq> []" "\<not> ss_loginGateTripped s" "\<not> ss_closed (serveAll h ms s)"
    "concat bufs = concat (map enc_msg ms)" "[] \<notin> set bufs"
  shows "\<exists>f. readLoop h bufs newFrame s = Ok (f, serveAll h ms s) \<and> pk_Status (fs_packet f) = PsNew \<and> fs_headerBuf f = []"
proof -
  have "gate_inv s" using assms(3) by (simp add: gate_inv_def)
  from readLoop_messages [OF newFrame_inv(3) this assms(1,2,4,5,6)] show ?thesis by (auto simp: fresh_def)
qed

definition sample_messages :: "message list" where
  "sample_messages = [(PrED2K, OpLoginRequest, []), (PrEMule, 7, [1, 2]), (PrED2K, OpGetServerList, [])]"

definition sample_reads :: "bytes list" where
  "sample_reads = [[0xE3, 1, 0], [0, 0, 1, 0xC5, 3, 0, 0, 0, 7, 1], [2, 0xE3, 1, 0, 0, 0, 0x14]]"

lemma sample_bytes:
  "enc_msg (PrED2K, OpLoginRequest, []) = [0xE3, 1, 0, 0, 0, 1]"
  "concat sample_reads = concat (map enc_msg sample_messages)"
  by code_simp+

lemma serve_login: "serve count_handlers (PrED2K, OpLoginRequest, []) new_session = new_session\<lparr>ss_logged := True, ss_app := 1\<rparr>"
proof -
  have "preLoginHeaderAllowed count_handlers (enc_msg (PrED2K, OpLoginRequest, [])) new_session = (True, new_session)"
    unfolding sample_bytes by (simp add: preLoginHeaderAllowed_def new_session_def)
  then show ?thesis
    by (simp add: serve_def handlePacket_def handleED2K_def applyServed_def count_handlers_def count_served_def new_session_def)
qed

lemma serve_logged:
  assumes "ss_logged s"
  shows "serve count_handlers (PrEMule, op, pl) s = s"
    "serve count_handlers (PrED2K, OpGetServerList, pl) s = s\<lparr>ss_app := ss_app s + 1\<rparr>"
  using assms
  by (simp_all add: serve_def handlePacket_def handleED2K_def applyServed_def preLoginHeaderAllowed_def requireLogin_def
      count_handlers_def count_served_def)

lemma sample_conversation:
  "list_all msg_ok sample_messages"
  "serveAll count_handlers sample_messages new_session = new_session\<lparr>ss_logged := True, ss_app := 2\<rparr>"
proof -
  show "list_all msg_ok sample_messages" by (simp add: sample_messages_def msg_ok_def IsProtocol_def)
  show "serveAll count_handlers sample_messages new_session = new_session\<lparr>ss_logged := True, ss_app := 2\<rparr>"
    unfolding sample_messages_def serveAll.simps serve_login
    by (simp add: serve_logged del: PrED2K_def PrEMule_def OpGetServerList_def)
qed

theorem stream_serves_messages_witness:
  "\<exists>f. readLoop count_handlers sample_reads newFrame new_session = Ok (f, new_session\<lparr>ss_logged := True, ss_app := 2\<rparr>) \<and>
       pk_Status (fs_packet f) = PsNew \<and> fs_headerBuf f = []"
proof -
  have "[] \<notin> set sample_reads" by (simp add: sample_reads_def)
  with stream_serves_messages [of sample_messages new_session count_handlers sample_reads] sample_conversation sample_bytes(2)
  show ?thesis by (simp add: sample_messages_def new_session_def)
qed

text \<open>C4: Nothing but the login handler is reached before login. Two servers that share the login
  handler and the compression but differ in every other handler behave alike, byte for byte
  and state for state, on every stream that does not complete a login.
\<close>

theorem login_gate_noninterference:
  assumes "same_login h1 h2" "readLoop h1 bufs newFrame s = Ok (f', s')" "\<not> ss_logged s'"
  shows "readLoop h2 bufs newFrame s = Ok (f', s')"
  using gate_readLoop [OF assms(1) newFrame_inv(2) assms(2,3)] .

lemma sample_gate:
  "\<exists>f' s'. readLoop count_handlers [[0xE3, 1, 0, 0, 0, 0x14]] newFrame new_session = Ok (f', s') \<and> ss_closed s' \<and> \<not> ss_logged s'"
  by (simp add: newFrame_def NewPacket_def processPacketData.simps processOnce_def readPacket_def IsProtocol_def
      preLoginHeaderAllowed_def requireLogin_def new_session_def deliverPacket_def)

theorem login_gate_noninterference_witness:
  "\<exists>f' s'. readLoop count_handlers [[0xE3, 1, 0, 0, 0, 0x14]] newFrame new_session = Ok (f', s') \<and> \<not> ss_logged s' \<and>
     readLoop (count_handlers\<lparr>h_GetServerList := \<lambda>n. (count_served n)\<lparr>sd_sent := [[1]]\<rparr>\<rparr>)
       [[0xE3, 1, 0, 0, 0, 0x14]] newFrame new_session = Ok (f', s')"
proof -
  have "same_login count_handlers (count_handlers\<lparr>h_GetServerList := \<lambda>n. (count_served n)\<lparr>sd_sent := [[1]]\<rparr>\<rparr>)"
    by (simp add: same_login_def)
  with sample_gate login_gate_noninterference show ?thesis by blast
qed


end
