(* ===== verification/Go_Strings.thy ===== *)
theory Go_Strings
  imports Wire_Tags
begin

unbundle bit_operations_syntax

section \<open>Go strings: what the source uses of strings, strconv and unicode\<close>

text \<open>
  A Go string is a byte sequence, read as UTF-8 by the functions that look at characters.
  The theory holds the functions of the packages \<^verbatim>\<open>strings\<close>, \<^verbatim>\<open>strconv\<close>,
  \<^verbatim>\<open>encoding/hex\<close> and \<^verbatim>\<open>unicode/utf8\<close> that the components call, over byte lists.

  The tables of the \<^verbatim>\<open>unicode\<close> package are data of a Unicode version and not of the
  program. They are the record \<open>ucd\<close>, an argument of every function that consults them;
  the ASCII range, where the package has code of its own, is written out.
\<close>

subsection \<open>White space\<close>

text \<open>
  The length of the white-space character a string starts with, zero if it starts with
  none. The encodings are those of \<^verbatim>\<open>unicode.IsSpace\<close>: the ASCII ones, U+0085, U+00A0,
  U+1680, U+2000 to U+200A, U+2028, U+2029, U+202F, U+205F and U+3000.
\<close>

definition space3 :: "u8 \<Rightarrow> u8 \<Rightarrow> u8 \<Rightarrow> bool" where
  "space3 a b c \<longleftrightarrow>
     a = 0xE1 \<and> b = 0x9A \<and> c = 0x80 \<or>
     a = 0xE2 \<and> b = 0x80 \<and> (0x80 \<le> c \<and> c \<le> 0x8A \<or> c = 0xA8 \<or> c = 0xA9 \<or> c = 0xAF) \<or>
     a = 0xE2 \<and> b = 0x81 \<and> c = 0x9F \<or>
     a = 0xE3 \<and> b = 0x80 \<and> c = 0x80"

definition space2 :: "u8 \<Rightarrow> u8 \<Rightarrow> bool" where
  "space2 a b \<longleftrightarrow> a = 0xC2 \<and> (b = 0x85 \<or> b = 0xA0)"

definition space1 :: "u8 \<Rightarrow> bool" where
  "space1 a \<longleftrightarrow> 9 \<le> a \<and> a \<le> 13 \<or> a = 32"

fun spaceLen :: "bytes \<Rightarrow> nat" where
  "spaceLen [] = 0"
| "spaceLen (a # s) =
     (if space1 a then 1
      else case s of [] \<Rightarrow> 0
      | b # s' \<Rightarrow> if space2 a b then 2
                 else case s' of [] \<Rightarrow> 0 | c # _ \<Rightarrow> if space3 a b c then 3 else 0)"

text \<open>The same at the end of a string, which is given reversed.\<close>

fun spaceLenRev :: "bytes \<Rightarrow> nat" where
  "spaceLenRev [] = 0"
| "spaceLenRev (c # s) =
     (if space1 c then 1
      else case s of [] \<Rightarrow> 0
      | b # s' \<Rightarrow> if space2 b c then 2
                 else case s' of [] \<Rightarrow> 0 | a # _ \<Rightarrow> if space3 a b c then 3 else 0)"

lemma spaceLen_drop: "0 < spaceLen s \<Longrightarrow> length s - spaceLen s < length s" "0 < spaceLenRev s \<Longrightarrow> length s - spaceLenRev s < length s"
  by (cases s; simp)+

function trimLeft :: "bytes \<Rightarrow> bytes" where
  "trimLeft s = (if spaceLen s = 0 then s else trimLeft (drop (spaceLen s) s))"
  by pat_completeness auto
termination
  by (relation "measure length") (auto intro: spaceLen_drop)

function trimRightRev :: "bytes \<Rightarrow> bytes" where
  "trimRightRev s = (if spaceLenRev s = 0 then s else trimRightRev (drop (spaceLenRev s) s))"
  by pat_completeness auto
termination
  by (relation "measure length") (auto intro: spaceLen_drop)

declare trimLeft.simps [simp del] trimRightRev.simps [simp del]

definition TrimSpace :: "bytes \<Rightarrow> bytes" where
  "TrimSpace s = rev (trimRightRev (rev (trimLeft s)))"

text \<open>
  \<^verbatim>\<open>strings.Fields\<close>. Going byte by byte finds the same separators as going character
  by character: no encoding of a space starts inside another character.
\<close>

function fields_loop :: "bytes \<Rightarrow> bytes \<Rightarrow> bytes list" where
  "fields_loop cur s =
     (if s = [] then (if cur = [] then [] else [cur])
      else if spaceLen s = 0 then fields_loop (cur @ [hd s]) (tl s)
      else if cur = [] then fields_loop [] (drop (spaceLen s) s)
      else cur # fields_loop [] (drop (spaceLen s) s))"
  by pat_completeness auto
termination
  by (relation "measure (\<lambda>(_, s). length s)") (auto intro: spaceLen_drop)

declare fields_loop.simps [simp del]

definition Fields :: "bytes \<Rightarrow> bytes list" where
  "Fields s = fields_loop [] s"

subsection \<open>Cutting and joining\<close>

text \<open>\<^verbatim>\<open>strings.Cut\<close> at the first byte of that value: before, after, found.\<close>

definition Cut :: "u8 \<Rightarrow> bytes \<Rightarrow> bytes \<times> bytes \<times> bool" where
  "Cut sep s = (if sep \<in> set s then (takeWhile (\<lambda>c. c \<noteq> sep) s, tl (dropWhile (\<lambda>c. c \<noteq> sep) s), True)
                else (s, [], False))"

definition HasPrefix :: "bytes \<Rightarrow> bytes \<Rightarrow> bool" where
  "HasPrefix s p \<longleftrightarrow> take (length p) s = p"

fun Contains :: "bytes \<Rightarrow> bytes \<Rightarrow> bool" where
  "Contains [] p \<longleftrightarrow> p = []"
| "Contains (c # s) p \<longleftrightarrow> HasPrefix (c # s) p \<or> Contains s p"

fun JoinStr :: "bytes \<Rightarrow> bytes list \<Rightarrow> bytes" where
  "JoinStr sep [] = []"
| "JoinStr sep [x] = x"
| "JoinStr sep (x # y # ys) = x @ sep @ JoinStr sep (y # ys)"

subsection \<open>Numbers\<close>

fun digits_value :: "nat \<Rightarrow> bytes \<Rightarrow> nat option" where
  "digits_value n [] = Some n"
| "digits_value n (c # cs) =
     (if 48 \<le> c \<and> c \<le> 57 then digits_value (n * 10 + unat (c - 48)) cs else None)"

text \<open>\<^verbatim>\<open>strconv.ParseUint\<close> in base 10 with a bit size.\<close>

definition ParseUint :: "nat \<Rightarrow> bytes \<Rightarrow> nat option" where
  "ParseUint bitSize s =
     (if s = [] then None
      else case digits_value 0 s of None \<Rightarrow> None | Some n \<Rightarrow> if n < 2 ^ bitSize then Some n else None)"

definition Atoi :: "bytes \<Rightarrow> int option" where
  "Atoi s =
     (let neg = (s \<noteq> [] \<and> hd s = 45);
          ds = (if s \<noteq> [] \<and> (hd s = 45 \<or> hd s = 43) then tl s else s)
      in if ds = [] then None
         else case digits_value 0 ds of None \<Rightarrow> None
         | Some n \<Rightarrow> let v = (if neg then - int n else int n)
                    in if - (2 ^ 63) \<le> v \<and> v < 2 ^ 63 then Some v else None)"

definition hexValue :: "u8 \<Rightarrow> u8 option" where
  "hexValue c =
     (if 48 \<le> c \<and> c \<le> 57 then Some (c - 48)
      else if 97 \<le> c \<and> c \<le> 102 then Some (c - 87)
      else if 65 \<le> c \<and> c \<le> 70 then Some (c - 55) else None)"

text \<open>\<^verbatim>\<open>hex.DecodeString\<close>\<close>

fun hexDecode :: "bytes \<Rightarrow> bytes option" where
  "hexDecode [] = Some []"
| "hexDecode [c] = None"
| "hexDecode (c # d # s) =
     (case (hexValue c, hexValue d) of
        (Some x, Some y) \<Rightarrow> map_option ((#) (x * 16 + y)) (hexDecode s)
      | _ \<Rightarrow> None)"

subsection \<open>UTF-8\<close>

abbreviation runeError :: nat where "runeError \<equiv> 0xFFFD"

definition contByte :: "u8 \<Rightarrow> bool" where
  "contByte b \<longleftrightarrow> 0x80 \<le> b \<and> b \<le> 0xBF"

definition low6 :: "u8 \<Rightarrow> nat" where
  "low6 b = unat b mod 64"

text \<open>The bounds of the second byte, which exclude overlong forms, surrogates and values past U+10FFFF.\<close>

definition secondByte :: "u8 \<Rightarrow> u8 \<Rightarrow> bool" where
  "secondByte a b \<longleftrightarrow> contByte b \<and> (a = 0xE0 \<longrightarrow> 0xA0 \<le> b) \<and> (a = 0xED \<longrightarrow> b \<le> 0x9F) \<and>
     (a = 0xF0 \<longrightarrow> 0x90 \<le> b) \<and> (a = 0xF4 \<longrightarrow> b \<le> 0x8F)"

definition DecodeRune :: "bytes \<Rightarrow> nat \<times> nat" where
  "DecodeRune s =
     (case s of [] \<Rightarrow> (runeError, 0)
      | a # s1 \<Rightarrow>
          if a < 0x80 then (unat a, 1)
          else case s1 of [] \<Rightarrow> (runeError, 1)
          | b # s2 \<Rightarrow>
              if \<not> (0xC2 \<le> a \<and> a \<le> 0xF4 \<and> secondByte a b) then (runeError, 1)
              else if a < 0xE0 then (unat a mod 32 * 64 + low6 b, 2)
              else case s2 of [] \<Rightarrow> (runeError, 1)
              | c # s3 \<Rightarrow>
                  if \<not> contByte c then (runeError, 1)
                  else if a < 0xF0 then (unat a mod 16 * 4096 + low6 b * 64 + low6 c, 3)
                  else case s3 of [] \<Rightarrow> (runeError, 1)
                  | d # _ \<Rightarrow>
                      if \<not> contByte d then (runeError, 1)
                      else (unat a mod 8 * 262144 + low6 b * 4096 + low6 c * 64 + low6 d, 4))"

definition EncodeRune :: "nat \<Rightarrow> bytes" where
  "EncodeRune r =
     (if r < 0x80 then [of_nat r]
      else if r < 0x800 then [of_nat (0xC0 + r div 64), of_nat (0x80 + r mod 64)]
      else if 0xD800 \<le> r \<and> r \<le> 0xDFFF \<or> r > 0x10FFFF then [0xEF, 0xBF, 0xBD]
      else if r < 0x10000 then
        [of_nat (0xE0 + r div 4096), of_nat (0x80 + r div 64 mod 64), of_nat (0x80 + r mod 64)]
      else [of_nat (0xF0 + r div 262144), of_nat (0x80 + r div 4096 mod 64), of_nat (0x80 + r div 64 mod 64),
            of_nat (0x80 + r mod 64)])"

lemma DecodeRune_width: "s \<noteq> [] \<Longrightarrow> 0 < snd (DecodeRune s) \<and> snd (DecodeRune s) \<le> length s"
  by (auto simp: DecodeRune_def split: list.splits)

text \<open>The characters of a string, as a \<^verbatim>\<open>range\<close> loop visits them.\<close>

function runes :: "bytes \<Rightarrow> nat list" where
  "runes s = (if s = [] then [] else fst (DecodeRune s) # runes (drop (snd (DecodeRune s)) s))"
  by pat_completeness auto
termination
  using DecodeRune_width by (relation "measure length") auto

declare runes.simps [simp del]

subsection \<open>Letters and case\<close>

record ucd =
  u_letter :: "nat \<Rightarrow> bool"
  u_digit :: "nat \<Rightarrow> bool"
  u_lower :: "nat \<Rightarrow> nat"
  u_fold :: "nat \<Rightarrow> nat \<Rightarrow> bool"

definition IsLetter :: "ucd \<Rightarrow> nat \<Rightarrow> bool" where
  "IsLetter u r \<longleftrightarrow> (if r < 0x80 then 65 \<le> r \<and> r \<le> 90 \<or> 97 \<le> r \<and> r \<le> 122 else u_letter u r)"

definition IsDigit :: "ucd \<Rightarrow> nat \<Rightarrow> bool" where
  "IsDigit u r \<longleftrightarrow> (if r < 0x80 then 48 \<le> r \<and> r \<le> 57 else u_digit u r)"

definition lowerRune :: "ucd \<Rightarrow> nat \<Rightarrow> nat" where
  "lowerRune u r = (if r < 0x80 then (if 65 \<le> r \<and> r \<le> 90 then r + 32 else r) else u_lower u r)"

definition ToLower :: "ucd \<Rightarrow> bytes \<Rightarrow> bytes" where
  "ToLower u s = concat (map (\<lambda>r. EncodeRune (lowerRune u r)) (runes s))"

definition foldRune :: "ucd \<Rightarrow> nat \<Rightarrow> nat \<Rightarrow> bool" where
  "foldRune u r q \<longleftrightarrow> r = q \<or> (if r < 0x80 \<and> q < 0x80 then lowerRune u r = lowerRune u q else u_fold u r q)"

definition EqualFold :: "ucd \<Rightarrow> bytes \<Rightarrow> bytes \<Rightarrow> bool" where
  "EqualFold u s t \<longleftrightarrow> list_all2 (foldRune u) (runes s) (runes t)"

subsection \<open>Lemmas\<close>

lemma Fields_nonempty: "f \<in> set (fields_loop cur s) \<Longrightarrow> f \<noteq> []"
proof (induction cur s rule: fields_loop.induct)
  case (1 cur s)
  then show ?case by (subst (asm) fields_loop.simps) (auto split: if_splits)
qed

lemma Cut_eq:
  assumes "Cut sep s = (a, b, True)"
  shows "s = a @ sep # b" "sep \<notin> set a"
proof -
  have "sep \<in> set s" and a: "a = takeWhile (\<lambda>c. c \<noteq> sep) s" and b: "b = tl (dropWhile (\<lambda>c. c \<noteq> sep) s)"
    using assms by (auto simp: Cut_def split: if_splits)
  then have "dropWhile (\<lambda>c. c \<noteq> sep) s \<noteq> []" by (auto simp: dropWhile_eq_Nil_conv)
  then have "dropWhile (\<lambda>c. c \<noteq> sep) s = sep # b"
    using b hd_dropWhile [of "\<lambda>c. c \<noteq> sep" s] by (metis list.exhaust_sel)
  then show "s = a @ sep # b" using a by (metis takeWhile_dropWhile_id)
  show "sep \<notin> set a" using a set_takeWhileD by fastforce
qed

lemma Contains_iff: "Contains s p \<longleftrightarrow> (\<exists>a b. s = a @ p @ b)"
proof (induction s)
  case (Cons c s)
  have "HasPrefix (c # s) p \<longleftrightarrow> (\<exists>b. c # s = p @ b)"
    by (metis HasPrefix_def append_eq_conv_conj append_take_drop_id)
  then show ?case using Cons by (auto simp: Cons_eq_append_conv)
qed auto

subsection \<open>Printable ASCII\<close>

definition printable :: "bytes \<Rightarrow> bool" where
  "printable s \<longleftrightarrow> (\<forall>c \<in> set s. 33 \<le> c \<and> c \<le> 126)"

lemma printable_simps [simp]:
  "printable []" "printable (c # s) \<longleftrightarrow> 33 \<le> c \<and> c \<le> 126 \<and> printable s" "printable (s @ t) \<longleftrightarrow> printable s \<and> printable t"
  "printable (rev s) = printable s"
  by (auto simp: printable_def)

lemma printable_no_space:
  assumes "33 \<le> c" "c \<le> 126"
  shows "\<not> space1 c" "\<not> space2 c b" "\<not> space2 b c" "\<not> space3 c a b" "\<not> space3 a b c"
  using assms by (auto simp: space1_def space2_def space3_def word_le_nat_alt)

lemma spaceLen_printable: "printable s \<Longrightarrow> spaceLen s = 0" "printable s \<Longrightarrow> spaceLenRev s = 0"
  by (cases s; simp add: printable_no_space split: list.split)+

lemma TrimSpace_printable: "printable s \<Longrightarrow> TrimSpace s = s"
  by (simp add: TrimSpace_def trimLeft.simps [of s] trimRightRev.simps [of "rev s"] spaceLen_printable)

lemma fields_loop_printable: "printable s \<Longrightarrow> cur @ s \<noteq> [] \<Longrightarrow> fields_loop cur s = [cur @ s]"
proof (induction s arbitrary: cur)
  case (Cons a s)
  have "fields_loop cur (a # s) = fields_loop (cur @ [a]) s"
    using spaceLen_printable(1) [OF Cons.prems(1)] by (simp add: fields_loop.simps [of cur "a # s"] del: spaceLen.simps)
  then show ?case using Cons by simp
qed (simp add: fields_loop.simps)

lemma runes_ascii: "printable s \<Longrightarrow> runes s = map unat s"
proof (induction s)
  case (Cons a s)
  then have "a < 0x80" by (auto simp: word_le_nat_alt word_less_nat_alt)
  then show ?case using Cons by (simp add: runes.simps [of "a # s"] DecodeRune_def)
qed (simp add: runes.simps)

lemma EncodeRune_ascii: "a \<le> 126 \<Longrightarrow> EncodeRune (unat a) = [a]"
  by (simp add: EncodeRune_def word_le_nat_alt)

lemma ToLower_ascii:
  assumes "printable s" "\<forall>c \<in> set s. \<not> (65 \<le> c \<and> c \<le> 90)"
  shows "ToLower u s = s"
proof -
  have "EncodeRune (lowerRune u (unat c)) = [c]" if "c \<in> set s" for c
  proof -
    have c: "unat c \<le> 126" "c \<le> 126" using assms(1) that by (auto simp: printable_def word_le_nat_alt)
    have "\<not> (65 \<le> unat c \<and> unat c \<le> 90)" using assms(2) that by (auto simp: word_le_nat_alt)
    then have "lowerRune u (unat c) = unat c" using c by (auto simp: lowerRune_def)
    then show ?thesis using c by (simp add: EncodeRune_ascii)
  qed
  then have "concat (map (\<lambda>r. EncodeRune (lowerRune u r)) (map unat s)) = concat (map (\<lambda>c. [c]) s)"
    by (simp add: comp_def cong: map_cong)
  then show ?thesis unfolding ToLower_def runes_ascii [OF assms(1)] by (simp add: concat_map_singleton)
qed

subsection \<open>Hexadecimal\<close>

definition hexNibble :: "nat \<Rightarrow> u8" where
  "hexNibble n = (if n < 10 then of_nat (48 + n) else of_nat (87 + n))"

text \<open>\<^verbatim>\<open>hex.EncodeToString\<close>\<close>

definition hexEncode :: "bytes \<Rightarrow> bytes" where
  "hexEncode h = concat (map (\<lambda>b. [hexNibble (unat b div 16), hexNibble (unat b mod 16)]) h)"

lemma hexNibble_cases:
  assumes "n < 16"
  shows "hexValue (hexNibble n) = Some (of_nat n)" "48 \<le> hexNibble n" "hexNibble n \<le> 102" "\<not> (58 \<le> hexNibble n \<and> hexNibble n \<le> 96)"
proof -
  have "list_all (\<lambda>n. hexValue (hexNibble n) = Some (of_nat n) \<and> 48 \<le> hexNibble n \<and> hexNibble n \<le> 102 \<and>
      \<not> (58 \<le> hexNibble n \<and> hexNibble n \<le> 96)) [0..<16]"
    by code_simp
  then show "hexValue (hexNibble n) = Some (of_nat n)" "48 \<le> hexNibble n" "hexNibble n \<le> 102"
    "\<not> (58 \<le> hexNibble n \<and> hexNibble n \<le> 96)"
    using assms by (auto simp: list_all_iff)
qed

lemma nibbles: "unat (b :: u8) div 16 < 16" "unat b mod 16 < 16"
proof -
  have "unat b < 256" using unsigned_less [of b] by simp
  then show "unat b div 16 < 16" by (simp add: less_mult_imp_div_less)
qed simp

lemma hexDecode_encode: "hexDecode (hexEncode h) = Some h"
proof (induction h)
  case (Cons b h)
  note n = nibbles [of b]
  have "of_nat (unat b div 16) * 16 + of_nat (unat b mod 16) = (of_nat (unat b div 16 * 16 + unat b mod 16) :: u8)"
    by (simp only: of_nat_add of_nat_mult of_nat_numeral)
  also have "\<dots> = b" by (simp only: div_mult_mod_eq) simp
  finally show ?case
    using Cons hexNibble_cases(1) [OF n(1)] hexNibble_cases(1) [OF n(2)] by (simp add: hexEncode_def)
qed (simp add: hexEncode_def)

lemma hexEncode_chars: "c \<in> set (hexEncode h) \<Longrightarrow> 48 \<le> c \<and> c \<le> 102 \<and> \<not> (58 \<le> c \<and> c \<le> 96)"
proof -
  assume "c \<in> set (hexEncode h)"
  then obtain b where "c = hexNibble (unat (b :: u8) div 16) \<or> c = hexNibble (unat b mod 16)"
    by (auto simp: hexEncode_def)
  then obtain n where "n < 16" "c = hexNibble n" using nibbles [of b] by blast
  then show ?thesis using hexNibble_cases [of n] by blast
qed

lemma length_hexEncode [simp]: "length (hexEncode h) = 2 * length h"
  by (induction h) (simp_all add: hexEncode_def)

lemma length_hexDecode: "hexDecode s = Some h \<Longrightarrow> length s = 2 * length h"
  by (induction s arbitrary: h rule: hexDecode.induct) (auto split: option.splits)

end
