(* ===== verification/Ip_Filter.thy ===== *)
theory Ip_Filter
  imports Net_Address Go_Strings "HOL-Library.Product_Lexorder"
begin

unbundle bit_operations_syntax

section \<open>The address filter (netfilter/ipfilter.go, netfilter/filter.go, netfilter/geoip.go)\<close>

text \<open>
  The static range list: the line grammar, sorting and merging of the ranges below the level
  threshold, lookup by binary search, and the filter that asks the range list first and the
  country database second. The file is its bytes. The country database is a third-party
  reader: here a function from an address to a country code, or none.

  \<^verbatim>\<open>sort.Slice\<close> is not stable; the model sorts stably by the bounds. Only the
  description kept for equal bounds depends on it, and no lemma does.

  Shown here: an address is blocked exactly when some line of the file below the threshold
  covers it; the merged list is sorted, disjoint and nowhere adjacent; the prefix form
  covers exactly the addresses with that prefix; and a range printed in the log reads back.
\<close>

subsection \<open>Ranges\<close>

record ipRange =
  r_lo :: u32
  r_hi :: u32
  r_desc :: bytes

record IPFilter =
  ipf_ranges :: "ipRange list"
  ipf_Parsed :: nat
  ipf_Blocking :: nat
  ipf_Skipped :: nat

definition DefaultMinLevel :: int where [simp]: "DefaultMinLevel = 100"

text \<open>\<^verbatim>\<open>binary.BigEndian.Uint32\<close> and its inverse\<close>

definition be32 :: "bytes \<Rightarrow> u32" where
  "be32 b = le_get (rev (take 4 b))"

definition be32_put :: "u32 \<Rightarrow> bytes" where
  "be32_put w = rev (le_put 4 w)"

fun mergeLoop :: "ipRange \<Rightarrow> ipRange list \<Rightarrow> ipRange list" where
  "mergeLoop cur [] = [cur]"
| "mergeLoop cur (rng # rest) =
     (let adjacent = (r_hi cur < NOT 0 \<and> r_lo rng = r_hi cur + 1)
      in if r_lo rng \<le> r_hi cur \<or> adjacent
         then mergeLoop (if r_hi cur < r_hi rng then cur\<lparr>r_hi := r_hi rng\<rparr> else cur) rest
         else cur # mergeLoop rng rest)"

definition mergeRanges :: "ipRange list \<Rightarrow> ipRange list" where
  "mergeRanges xs =
     (case sort_key (\<lambda>r. (r_lo r, r_hi r)) xs of [] \<Rightarrow> [] | cur # rest \<Rightarrow> mergeLoop cur rest)"

definition describe :: "ipRange \<Rightarrow> bytes" where
  "describe r =
     (let ip = (\<lambda>w. case be32_put w of [a, b, c, d] \<Rightarrow> dotted a b c d | _ \<Rightarrow> [])
      in if r_desc r = [] then ip (r_lo r) @ [45] @ ip (r_hi r)
         else ip (r_lo r) @ [45] @ ip (r_hi r) @ [32] @ r_desc r)"

subsection \<open>Lookup\<close>

text \<open>\<^verbatim>\<open>sort.Search\<close>\<close>

function sort_Search :: "(nat \<Rightarrow> bool) \<Rightarrow> nat \<Rightarrow> nat \<Rightarrow> nat" where
  "sort_Search f i j =
     (if i < j then (let h = (i + j) div 2 in if \<not> f h then sort_Search f (h + 1) j else sort_Search f i h)
      else i)"
  by pat_completeness auto
termination
  by (relation "measure (\<lambda>(_, i, j). j - i)") auto

declare sort_Search.simps [simp del]

definition Len :: "IPFilter option \<Rightarrow> nat" where
  "Len f = (case f of None \<Rightarrow> 0 | Some f \<Rightarrow> length (ipf_ranges f))"

definition ipf_Blocked :: "IPFilter option \<Rightarrow> bytes \<Rightarrow> bool \<times> bytes" where
  "ipf_Blocked f ip =
     (case f of None \<Rightarrow> (False, [])
      | Some f \<Rightarrow>
          if ipf_ranges f = [] then (False, [])
          else if To4 ip = [] then (False, [])
          else let addr = be32 (To4 ip);
                   i = sort_Search (\<lambda>k. r_lo (ipf_ranges f ! k) > addr) 0 (length (ipf_ranges f))
               in if i = 0 then (False, [])
                  else let rng = ipf_ranges f ! (i - 1)
                       in if r_hi rng < addr then (False, []) else (True, describe rng))"

subsection \<open>The line grammar\<close>

definition parseV4 :: "bytes \<Rightarrow> bytes option" where
  "parseV4 s =
     (let parts = split_on 46 s;
          octet = (\<lambda>p. if p = [] \<or> length p > 3 then None
                       else case ParseUint 32 p of None \<Rightarrow> None | Some n \<Rightarrow> if n > 255 then None else Some (of_nat n :: u8))
      in if length parts \<noteq> 4 then None
         else case map octet parts of
           [Some a, Some b, Some c, Some d] \<Rightarrow> Some [a, b, c, d] | _ \<Rightarrow> None)"

definition parseMask :: "bytes \<Rightarrow> u32 option" where
  "parseMask suffix =
     (if 46 \<in> set suffix then map_option be32 (parseV4 suffix)
      else case Atoi suffix of None \<Rightarrow> None
      | Some bits \<Rightarrow>
          if bits < 0 \<or> bits > 32 then None
          else if bits > 0 then Some (push_bit (32 - nat bits) (NOT 0)) else Some 0)"

definition parseRangeField :: "bytes \<Rightarrow> (u32 \<times> u32) option" where
  "parseRangeField field =
     (if field = [] then None
      else case Cut 45 field of
        (loStr, hiStr, True) \<Rightarrow>
          (case (parseV4 (TrimSpace loStr), parseV4 (TrimSpace hiStr)) of
             (Some loIP, Some hiIP) \<Rightarrow>
               let l = be32 loIP; h = be32 hiIP in if l > h then Some (h, l) else Some (l, h)
           | _ \<Rightarrow> None)
      | _ \<Rightarrow>
        (case Cut 47 field of
           (baseStr, suffixStr, True) \<Rightarrow>
             (case parseV4 (TrimSpace baseStr) of None \<Rightarrow> None
              | Some base \<Rightarrow>
                  (case parseMask (TrimSpace suffixStr) of None \<Rightarrow> None
                   | Some netmask \<Rightarrow> let n = be32 base in Some (n AND netmask, (n AND netmask) OR NOT netmask)))
         | _ \<Rightarrow> map_option (\<lambda>single. (be32 single, be32 single)) (parseV4 field)))"

fun whitespaceForm_loop :: "bytes list \<Rightarrow> bytes list \<Rightarrow> (bytes \<times> bytes \<times> bytes) option" where
  "whitespaceForm_loop before [] = None"
| "whitespaceForm_loop before (f # fs) =
     (if Atoi f \<noteq> None then Some (JoinStr [32] before, f, JoinStr [32] fs)
      else whitespaceForm_loop (before @ [f]) fs)"

definition splitWhitespaceForm :: "bytes \<Rightarrow> bytes \<times> bytes \<times> bytes" where
  "splitWhitespaceForm line =
     (case Fields line of
        f # fs \<Rightarrow> (case whitespaceForm_loop [f] fs of Some r \<Rightarrow> r | None \<Rightarrow> (line, [], []))
      | [] \<Rightarrow> (line, [], []))"

definition stripComment :: "bytes \<Rightarrow> bytes" where
  "stripComment line =
     (if \<exists>c \<in> set line. c = 35 \<or> c = 59 then TrimSpace (takeWhile (\<lambda>c. \<not> (c = 35 \<or> c = 59)) line) else line)"

definition lineFields :: "bytes \<Rightarrow> bytes \<times> bytes \<times> bytes" where
  "lineFields line =
     (case Cut 44 line of
        (before, rest, True) \<Rightarrow>
          if parseRangeField (TrimSpace before) \<noteq> None then
            (case Cut 44 rest of (lev, desc, _) \<Rightarrow> (TrimSpace before, TrimSpace lev, TrimSpace desc))
          else splitWhitespaceForm line
      | _ \<Rightarrow> splitWhitespaceForm line)"

definition parseIPFilterLine :: "bytes \<Rightarrow> (ipRange \<times> int) option" where
  "parseIPFilterLine line =
     (let line = stripComment line
      in if line = [] then None
         else case lineFields line of (addrField, levelField, descField) \<Rightarrow>
           (case parseRangeField addrField of None \<Rightarrow> None
            | Some (lo, hi) \<Rightarrow>
                if levelField = [] then Some (\<lparr>r_lo = lo, r_hi = hi, r_desc = descField\<rparr>, 0)
                else map_option (\<lambda>n. (\<lparr>r_lo = lo, r_hi = hi, r_desc = descField\<rparr>, n)) (Atoi levelField)))"

subsection \<open>Reading the file\<close>

text \<open>
  \<^verbatim>\<open>bufio.ScanLines\<close>: a line ends at a newline, a carriage return before it is dropped, and
  the last line counts only if it holds something. A line that fills the buffer of a
  megabyte is the error \<^verbatim>\<open>bufio.ErrTooLong\<close>.
\<close>

definition maxLine :: nat where [simp]: "maxLine = 1048576"

definition dropCR :: "bytes \<Rightarrow> bytes" where
  "dropCR l = (if l \<noteq> [] \<and> last l = 13 then butlast l else l)"

definition rawLines :: "bytes \<Rightarrow> bytes list" where
  "rawLines r = (let ls = split_on 10 r in if last ls = [] then butlast ls else ls)"

definition isComment :: "bytes \<Rightarrow> bool" where
  "isComment line \<longleftrightarrow> line = [] \<or> hd line = 35 \<or> hd line = 59 \<or> HasPrefix line [47, 47]"

fun filter_loop :: "int \<Rightarrow> bytes list \<Rightarrow> IPFilter \<Rightarrow> ipRange list \<Rightarrow> IPFilter \<times> ipRange list" where
  "filter_loop minLevel [] out blocking = (out, blocking)"
| "filter_loop minLevel (text # rest) out blocking =
     (let line = TrimSpace text
      in if isComment line then filter_loop minLevel rest out blocking
         else case parseIPFilterLine line of
           None \<Rightarrow> filter_loop minLevel rest (out\<lparr>ipf_Skipped := ipf_Skipped out + 1\<rparr>) blocking
         | Some (rng, level) \<Rightarrow>
             filter_loop minLevel rest (out\<lparr>ipf_Parsed := ipf_Parsed out + 1\<rparr>)
               (if level < minLevel then blocking @ [rng] else blocking))"

definition ParseIPFilter :: "bytes \<Rightarrow> int \<Rightarrow> IPFilter res" where
  "ParseIPFilter r minLevel =
     (let minLevel = (if minLevel \<le> 0 then DefaultMinLevel else minLevel)
      in if \<exists>l \<in> set (rawLines r). length l \<ge> maxLine then Err (Wrapf ''read ipfilter'' [] (ErrNew ''token too long''))
         else case filter_loop minLevel (map dropCR (rawLines r))
                \<lparr>ipf_ranges = [], ipf_Parsed = 0, ipf_Blocking = 0, ipf_Skipped = 0\<rparr> [] of
           (out, blocking) \<Rightarrow> Ok (out\<lparr>ipf_Blocking := length blocking, ipf_ranges := mergeRanges blocking\<rparr>))"

subsection \<open>The filter\<close>

record GeoIP =
  geo_db :: "(bytes \<Rightarrow> bytes option) option"
  geo_denied :: "bytes list"

record Filter =
  flt_ipf :: "IPFilter option"
  flt_geo :: "GeoIP option"
  flt_blockedIP :: u64
  flt_blockedGeo :: u64

definition geo_Lookup :: "GeoIP option \<Rightarrow> bytes \<Rightarrow> bytes" where
  "geo_Lookup g ip =
     (case g of None \<Rightarrow> []
      | Some g \<Rightarrow> (case geo_db g of None \<Rightarrow> []
                  | Some db \<Rightarrow> (case db ip of None \<Rightarrow> [] | Some code \<Rightarrow> code)))"

definition geo_Blocked :: "GeoIP option \<Rightarrow> bytes \<Rightarrow> bool \<times> bytes" where
  "geo_Blocked g ip =
     (case g of None \<Rightarrow> (False, [])
      | Some g \<Rightarrow>
          (case geo_db g of None \<Rightarrow> (False, [])
           | Some db \<Rightarrow>
               if geo_denied g = [] then (False, [])
               else (case db ip of None \<Rightarrow> (False, [])
                     | Some code \<Rightarrow>
                         if code = [] then (False, [])
                         else if code \<in> set (geo_denied g) then (True, str ''country='' @ code) else (False, []))))"

definition Blocked :: "Filter option \<Rightarrow> bytes \<Rightarrow> (bool \<times> bytes) \<times> Filter option" where
  "Blocked f ip =
     (case f of None \<Rightarrow> ((False, []), None)
      | Some flt \<Rightarrow>
          if ip = [] then ((False, []), f)
          else case ipf_Blocked (flt_ipf flt) ip of
            (True, desc) \<Rightarrow> ((True, str ''ipfilter '' @ desc), Some (flt\<lparr>flt_blockedIP := flt_blockedIP flt + 1\<rparr>))
          | (False, _) \<Rightarrow>
              (case geo_Blocked (flt_geo flt) ip of
                 (True, desc) \<Rightarrow> ((True, str ''geoip '' @ desc), Some (flt\<lparr>flt_blockedGeo := flt_blockedGeo flt + 1\<rparr>))
               | (False, _) \<Rightarrow> ((False, []), f)))"

definition Stats :: "Filter option \<Rightarrow> u64 \<times> u64" where
  "Stats f = (case f of None \<Rightarrow> (0, 0) | Some flt \<Rightarrow> (flt_blockedIP flt, flt_blockedGeo flt))"

definition Country :: "Filter option \<Rightarrow> bytes \<Rightarrow> bytes" where
  "Country f ip = (case f of None \<Rightarrow> [] | Some flt \<Rightarrow> geo_Lookup (flt_geo flt) ip)"

text \<open>One tick of \<open>reloadIPFilterLoop\<close>, with what reading the file gave.\<close>

definition reloadTick :: "IPFilter res \<Rightarrow> Filter \<Rightarrow> Filter" where
  "reloadTick loaded flt =
     (case loaded of
        Ok ipf \<Rightarrow>
          (case flt_ipf flt of
             Some prev \<Rightarrow> if Len (Some prev) = Len (Some ipf) \<and> ipf_Parsed prev = ipf_Parsed ipf then flt
                         else flt\<lparr>flt_ipf := Some ipf\<rparr>
           | None \<Rightarrow> flt\<lparr>flt_ipf := Some ipf\<rparr>)
      | _ \<Rightarrow> flt)"

subsection \<open>Merging keeps the blocked set\<close>

definition span :: "ipRange \<Rightarrow> u32 set" where
  "span r = {x. r_lo r \<le> x \<and> x \<le> r_hi r}"

definition apart :: "ipRange \<Rightarrow> ipRange \<Rightarrow> bool" where
  "apart a b \<longleftrightarrow> unat (r_hi a) + 1 < unat (r_lo b)"

definition merges :: "ipRange \<Rightarrow> ipRange list \<Rightarrow> ipRange list \<Rightarrow> bool" where
  "merges cur rs out \<longleftrightarrow> (\<Union>r \<in> set out. span r) = (\<Union>r \<in> set (cur # rs). span r) \<and> sorted_wrt apart out \<and>
     (\<forall>r \<in> set out. r_lo cur \<le> r_lo r \<and> r_lo r \<le> r_hi r) \<and> length out \<le> Suc (length rs)"

lemma apartI:
  assumes "r_hi a < r_lo b" "\<not> (r_hi a < NOT 0 \<and> r_lo b = r_hi a + 1)"
  shows "apart a b"
proof -
  have "r_hi a < NOT 0" using less_le_trans [OF assms(1) word_n1_ge] by simp
  then have ne: "r_lo b \<noteq> r_hi a + 1" using assms(2) by simp
  have "unat (r_lo b) < 2 ^ 32" using unsigned_less [of "r_lo b"] by simp
  then have "unat (r_hi a + 1) = unat (r_hi a) + 1"
    using assms(1) by (simp add: word_less_nat_alt unat_word_ariths)
  with ne assms(1) have "unat (r_lo b) \<noteq> unat (r_hi a) + 1" by (metis word_unat_eq_iff)
  with assms(1) show ?thesis by (simp add: apart_def word_less_nat_alt)
qed

lemma span_join:
  assumes "r_lo rng \<le> r_hi cur \<or> r_lo rng = r_hi cur + 1" "r_lo cur \<le> r_lo rng" "r_lo cur \<le> r_hi cur" "r_lo rng \<le> r_hi rng"
  shows "span (if r_hi cur < r_hi rng then cur\<lparr>r_hi := r_hi rng\<rparr> else cur) = span cur \<union> span rng"
proof -
  have "r_lo rng \<le> x" if "r_hi cur < x" for x
    using assms(1) that by (auto dest: inc_le)
  then show ?thesis using assms(2-4)
    by (auto simp: span_def not_less intro: order_trans less_imp_le)
qed

lemma mergeLoop_merges:
  assumes "r_lo cur \<le> r_hi cur" "\<forall>r \<in> set rs. r_lo cur \<le> r_lo r \<and> r_lo r \<le> r_hi r" "sorted (map r_lo rs)"
  shows "merges cur rs (mergeLoop cur rs)"
  using assms
proof (induction rs arbitrary: cur)
  case (Cons rng rs)
  let ?adj = "r_hi cur < NOT 0 \<and> r_lo rng = r_hi cur + 1"
  have le: "r_lo cur \<le> r_lo rng" "r_lo rng \<le> r_hi rng" using Cons.prems(2) by auto
  show ?case
  proof (cases "r_lo rng \<le> r_hi cur \<or> ?adj")
    case True
    define cur' where "cur' = (if r_hi cur < r_hi rng then cur\<lparr>r_hi := r_hi rng\<rparr> else cur)"
    have lo: "r_lo cur' = r_lo cur" by (simp add: cur'_def)
    have "r_lo cur' \<le> r_hi cur'" "\<forall>r \<in> set rs. r_lo cur' \<le> r_lo r \<and> r_lo r \<le> r_hi r" "sorted (map r_lo rs)"
      using Cons.prems le by (auto simp: cur'_def)
    note ih = Cons.IH [OF this]
    have sp: "span cur' = span cur \<union> span rng"
      unfolding cur'_def by (rule span_join) (use True le Cons.prems(1) in auto)
    have "mergeLoop cur (rng # rs) = mergeLoop cur' rs" using True by (simp add: cur'_def)
    then show ?thesis using ih sp lo by (auto simp: merges_def)
  next
    case False
    then have m: "mergeLoop cur (rng # rs) = cur # mergeLoop rng rs" by auto
    have "r_lo rng \<le> r_hi rng" "\<forall>r \<in> set rs. r_lo rng \<le> r_lo r \<and> r_lo r \<le> r_hi r" "sorted (map r_lo rs)"
      using Cons.prems by auto
    note ih = Cons.IH [OF this]
    have "apart cur rng" using False by (intro apartI) auto
    then have "apart cur r" if "r \<in> set (mergeLoop rng rs)" for r
      using ih that by (force simp: merges_def apart_def word_le_nat_alt)
    then show ?thesis using ih Cons.prems(1) le unfolding m by (auto simp: merges_def intro: order_trans)
  qed
qed (simp add: merges_def)

lemma sorted_key_lo: "sorted (map (\<lambda>r. (r_lo r, r_hi r)) xs) \<Longrightarrow> sorted (map r_lo xs)"
  by (induction xs) (auto simp: less_eq_prod_def)

lemma mergeRanges_spec:
  assumes "\<forall>r \<in> set xs. r_lo r \<le> r_hi r"
  shows "(\<Union>r \<in> set (mergeRanges xs). span r) = (\<Union>r \<in> set xs. span r) \<and> sorted_wrt apart (mergeRanges xs) \<and>
    (\<forall>r \<in> set (mergeRanges xs). r_lo r \<le> r_hi r) \<and> length (mergeRanges xs) \<le> length xs"
proof -
  define ys where "ys = sort_key (\<lambda>r. (r_lo r, r_hi r)) xs"
  have ys: "set ys = set xs" "length ys = length xs" by (simp_all add: ys_def)
  have so: "sorted (map r_lo ys)" by (rule sorted_key_lo) (simp add: ys_def)
  show ?thesis
  proof (cases ys)
    case (Cons cur rest)
    have "merges cur rest (mergeLoop cur rest)"
      using so assms ys(1) by (intro mergeLoop_merges) (auto simp: Cons)
    then show ?thesis
      using ys unfolding mergeRanges_def ys_def [symmetric] by (auto simp: merges_def Cons)
  qed (use ys in \<open>simp add: mergeRanges_def ys_def [symmetric]\<close>)
qed

subsection \<open>Binary search\<close>

text \<open>The invariant of the search: below \<open>i\<close> the predicate is false, from \<open>j\<close> on it is true.\<close>

definition brackets :: "(nat \<Rightarrow> bool) \<Rightarrow> nat \<Rightarrow> nat \<Rightarrow> nat \<Rightarrow> bool" where
  "brackets f n i j \<longleftrightarrow> i \<le> j \<and> j \<le> n \<and> (\<forall>k < i. \<not> f k) \<and> (\<forall>k. j \<le> k \<and> k < n \<longrightarrow> f k)"

lemma brackets_lower:
  assumes "brackets f n i j" "\<forall>a b. f a \<and> a \<le> b \<and> b < n \<longrightarrow> f b" "i \<le> h" "h < j"
  shows "f h \<Longrightarrow> brackets f n i h" "\<not> f h \<Longrightarrow> brackets f n (h + 1) j"
  using assms unfolding brackets_def by (simp_all) (meson less_Suc_eq_le less_le_trans order_less_imp_le)+

lemma sort_Search_spec:
  assumes "\<forall>a b. f a \<and> a \<le> b \<and> b < n \<longrightarrow> f b" "brackets f n i j"
  shows "brackets f n (sort_Search f i j) (sort_Search f i j)"
  using assms(2)
proof (induction "j - i" arbitrary: i j rule: less_induct)
  case less
  show ?case
  proof (cases "i < j")
    case True
    define h where "h = (i + j) div 2"
    have h: "i \<le> h" "h < j" using True by (auto simp: h_def)
    have e: "sort_Search f i j = (if \<not> f h then sort_Search f (h + 1) j else sort_Search f i h)"
      unfolding h_def by (subst sort_Search.simps) (simp only: True if_True Let_def)
    have "h - i < j - i" "j - (h + 1) < j - i" using h by simp_all
    then show ?thesis
      unfolding e using less.hyps brackets_lower [OF less.prems assms(1) h] by (cases "f h") simp_all
  next
    case False
    then have "sort_Search f i j = i" by (simp add: sort_Search.simps [of f i j])
    moreover have "i = j" using False less.prems by (simp add: brackets_def)
    ultimately show ?thesis using less.prems by simp
  qed
qed

lemma apart_mono:
  assumes "sorted_wrt apart rs" "\<forall>r \<in> set rs. r_lo r \<le> r_hi r" "i < j" "j < length rs"
  shows "r_hi (rs ! i) < r_lo (rs ! j)"
  using sorted_wrt_nth_less [OF assms(1,3,4)] by (simp add: apart_def word_less_nat_alt)

lemma search_ranges:
  assumes "sorted_wrt apart rs" "\<forall>r \<in> set rs. r_lo r \<le> r_hi r" "k = sort_Search (\<lambda>k. r_lo (rs ! k) > x) 0 (length rs)"
  shows "(\<exists>r \<in> set rs. x \<in> span r) \<longleftrightarrow> k \<noteq> 0 \<and> x \<le> r_hi (rs ! (k - 1))"
proof -
  have lo: "r_lo (rs ! i) \<le> r_lo (rs ! j)" if "i \<le> j" "j < length rs" for i j
  proof (cases "i = j")
    case False
    have "r_lo (rs ! i) \<le> r_hi (rs ! i)" using assms(2) that by simp
    also have "\<dots> \<le> r_lo (rs ! j)" using apart_mono [OF assms(1,2), of i j] that False by simp
    finally show ?thesis .
  qed simp
  have "brackets (\<lambda>k. x < r_lo (rs ! k)) (length rs) 0 (length rs)" by (auto simp: brackets_def)
  moreover have "\<forall>a b. x < r_lo (rs ! a) \<and> a \<le> b \<and> b < length rs \<longrightarrow> x < r_lo (rs ! b)"
    using lo less_le_trans by blast
  ultimately have "brackets (\<lambda>k. x < r_lo (rs ! k)) (length rs) k k"
    unfolding assms(3) by (intro sort_Search_spec)
  then have k: "k \<le> length rs" "\<And>i. i < k \<Longrightarrow> r_lo (rs ! i) \<le> x" "\<And>i. k \<le> i \<Longrightarrow> i < length rs \<Longrightarrow> x < r_lo (rs ! i)"
    by (simp_all add: brackets_def not_less)
  show ?thesis
  proof
    assume "\<exists>r \<in> set rs. x \<in> span r"
    then obtain i where i: "i < length rs" "r_lo (rs ! i) \<le> x" "x \<le> r_hi (rs ! i)"
      by (auto simp: in_set_conv_nth span_def)
    have "i < k" using k(3) [of i] i by (cases "i < k") (simp_all add: word_le_nat_alt word_less_nat_alt)
    moreover have "i = k - 1"
    proof (rule ccontr)
      assume "i \<noteq> k - 1"
      then have "i < k - 1" using \<open>i < k\<close> by simp
      then have "r_hi (rs ! i) < r_lo (rs ! (k - 1))" using k(1) \<open>i < k\<close> by (intro apart_mono [OF assms(1,2)]) auto
      moreover have "r_lo (rs ! (k - 1)) \<le> x" using k(2) [of "k - 1"] \<open>i < k\<close> by simp
      ultimately show False using i(3) by (simp add: word_le_nat_alt word_less_nat_alt)
    qed
    ultimately show "k \<noteq> 0 \<and> x \<le> r_hi (rs ! (k - 1))" using i by auto
  next
    assume a: "k \<noteq> 0 \<and> x \<le> r_hi (rs ! (k - 1))"
    have "rs ! (k - 1) \<in> set rs" using a k(1) by (intro nth_mem) auto
    moreover have "r_lo (rs ! (k - 1)) \<le> x" using a k(2) [of "k - 1"] by simp
    ultimately show "\<exists>r \<in> set rs. x \<in> span r" using a by (auto simp: span_def)
  qed
qed

subsection \<open>What a file blocks\<close>

definition listed :: "bytes \<Rightarrow> (ipRange \<times> int) option" where
  "listed text = (if isComment (TrimSpace text) then None else parseIPFilterLine (TrimSpace text))"

lemma word_le_or: "(x :: 'a::len word) \<le> x OR y"
  by (simp add: word_le_def uint_or or_greater_eq)

lemma parseRangeField_ordered: "parseRangeField f = Some (lo, hi) \<Longrightarrow> lo \<le> hi"
  by (auto simp: parseRangeField_def Let_def word_le_or split: if_splits prod.splits option.splits bool.splits)

lemma listed_ordered: "listed text = Some (rng, level) \<Longrightarrow> r_lo rng \<le> r_hi rng"
  by (auto simp: listed_def parseIPFilterLine_def Let_def split: if_splits prod.splits option.splits
      dest: parseRangeField_ordered)

definition below :: "int \<Rightarrow> bytes list \<Rightarrow> ipRange list" where
  "below minLevel texts = map fst (filter (\<lambda>(_, level). level < minLevel) (List.map_filter listed texts))"

lemma below_Cons:
  "below m (t # ts) = (case listed t of Some (rng, level) \<Rightarrow> if level < m then rng # below m ts else below m ts | None \<Rightarrow> below m ts)"
  by (auto simp: below_def map_filter_simps split: option.splits)

lemma filter_loop_spec:
  "filter_loop m ts out bl =
     (out\<lparr>ipf_Parsed := ipf_Parsed out + length (List.map_filter listed ts),
          ipf_Skipped := ipf_Skipped out + length (filter (\<lambda>t. \<not> isComment (TrimSpace t) \<and> listed t = None) ts)\<rparr>,
      bl @ below m ts)"
proof (induction ts arbitrary: out bl)
  case Nil
  then show ?case by (simp add: below_def map_filter_simps)
next
  case (Cons t ts)
  show ?case
    by (auto simp: Let_def below_Cons map_filter_simps listed_def Cons split: option.splits)
qed

lemma in_below: "rng \<in> set (below m ts) \<longleftrightarrow> (\<exists>t \<in> set ts. \<exists>level. listed t = Some (rng, level) \<and> level < m)"
  by (induction ts) (auto simp: below_Cons below_def [of m "[]"] map_filter_simps split: option.splits)

lemma ParseIPFilter_Ok:
  assumes "ParseIPFilter file minLevel = Ok f"
  defines "ts \<equiv> map dropCR (rawLines file)" and "m \<equiv> if minLevel \<le> 0 then DefaultMinLevel else minLevel"
  shows "ipf_ranges f = mergeRanges (below m ts)" "ipf_Blocking f = length (below m ts)"
    "ipf_Parsed f = length (List.map_filter listed ts)"
  using assms(1) by (auto simp: ParseIPFilter_def filter_loop_spec Let_def ts_def m_def split: if_splits)

lemma below_ordered: "\<forall>r \<in> set (below m ts). r_lo r \<le> r_hi r"
  using listed_ordered by (auto simp: in_below)

lemma ipf_Blocked_iff:
  assumes "sorted_wrt apart (ipf_ranges f)" "\<forall>r \<in> set (ipf_ranges f). r_lo r \<le> r_hi r"
  shows "fst (ipf_Blocked (Some f) ip) \<longleftrightarrow> To4 ip \<noteq> [] \<and> (\<exists>r \<in> set (ipf_ranges f). be32 (To4 ip) \<in> span r)"
  unfolding search_ranges [OF assms refl]
  by (auto simp: ipf_Blocked_def Let_def not_less sort_Search.simps [of _ 0 0])

text \<open>C7: An address is blocked exactly when it is IPv4 and some line of the file that is not a
  comment parses to a range around it with a level below the threshold: sorting, merging
  and binary search neither add nor lose an address.
\<close>

theorem blocked_exactly:
  assumes "ParseIPFilter file minLevel = Ok f"
  shows "fst (ipf_Blocked (Some f) ip) \<longleftrightarrow>
    To4 ip \<noteq> [] \<and> (\<exists>text \<in> set (map dropCR (rawLines file)). \<exists>rng level. listed text = Some (rng, level) \<and>
      level < (if minLevel \<le> 0 then DefaultMinLevel else minLevel) \<and>
      r_lo rng \<le> be32 (To4 ip) \<and> be32 (To4 ip) \<le> r_hi rng)"
proof -
  define ts m where "ts = map dropCR (rawLines file)" and "m = (if minLevel \<le> 0 then DefaultMinLevel else minLevel)"
  note f = ParseIPFilter_Ok [OF assms, folded ts_def m_def]
  note mr = mergeRanges_spec [OF below_ordered, of m ts, folded f(1)]
  have "(\<exists>r \<in> set (ipf_ranges f). be32 (To4 ip) \<in> span r) \<longleftrightarrow> (\<exists>r \<in> set (below m ts). be32 (To4 ip) \<in> span r)"
    using mr by blast
  also have "\<dots> \<longleftrightarrow> (\<exists>t \<in> set ts. \<exists>rng level. listed t = Some (rng, level) \<and> level < m \<and> r_lo rng \<le> be32 (To4 ip) \<and> be32 (To4 ip) \<le> r_hi rng)"
    using in_below [of _ m ts] unfolding span_def by blast
  finally show ?thesis
    unfolding ipf_Blocked_iff [OF conjunct1 [OF conjunct2 [OF mr]] conjunct1 [OF conjunct2 [OF conjunct2 [OF mr]]]]
      ts_def [symmetric] m_def [symmetric]
    by simp
qed

lemmas filter_eval = listed_def isComment_def HasPrefix_def parseIPFilterLine_def stripComment_def lineFields_def Cut_def
  splitWhitespaceForm_def Fields_def fields_loop.simps parseRangeField_def parseMask_def parseV4_def ParseUint_def Atoi_def
  TrimSpace_def trimLeft.simps trimRightRev.simps space1_def space2_def space3_def str_def be32_def Let_def

definition sample_filter :: bytes where
  "sample_filter = str ''#x'' @ 10 # str ''10.0.0.0-10.0.0.9,0,a'' @ 13 # 10 # str ''10.0.0.10/31 5 b'' @ 10 #
     str ''11.0.0.0/8,120,c''"

lemma sample_lines:
  "listed (str ''#x'') = None"
  "listed (str ''10.0.0.0-10.0.0.9,0,a'') = Some (\<lparr>r_lo = 0x0A000000, r_hi = 0x0A000009, r_desc = str ''a''\<rparr>, 0)"
  "listed (str ''10.0.0.10/31 5 b'') = Some (\<lparr>r_lo = 0x0A00000A, r_hi = 0x0A00000B, r_desc = str ''b''\<rparr>, 5)"
  "listed (str ''11.0.0.0/8,120,c'') = Some (\<lparr>r_lo = 0x0B000000, r_hi = 0x0BFFFFFF, r_desc = str ''c''\<rparr>, 120)"
  by (simp_all add: filter_eval mask_eq_exp_minus_1)

lemma sample_filter_lines: "map dropCR (rawLines sample_filter) =
    [str ''#x'', str ''10.0.0.0-10.0.0.9,0,a'', str ''10.0.0.10/31 5 b'', str ''11.0.0.0/8,120,c'']"
  by (simp add: sample_filter_def rawLines_def dropCR_def str_def Let_def)

lemma sample_filter_parsed: "\<exists>f. ParseIPFilter sample_filter 0 = Ok f"
proof -
  have "\<forall>l \<in> set (rawLines sample_filter). length l < maxLine"
    by (simp add: sample_filter_def rawLines_def str_def Let_def)
  then show ?thesis by (force simp: ParseIPFilter_def Let_def filter_loop_spec)
qed

theorem blocked_exactly_witness:
  "\<exists>f. ParseIPFilter sample_filter 0 = Ok f \<and> fst (ipf_Blocked (Some f) [10, 0, 0, 11]) \<and>
     \<not> fst (ipf_Blocked (Some f) [11, 0, 0, 1])"
proof -
  obtain f where f: "ParseIPFilter sample_filter 0 = Ok f" using sample_filter_parsed by blast
  have "fst (ipf_Blocked (Some f) [10, 0, 0, 11])" "\<not> fst (ipf_Blocked (Some f) [11, 0, 0, 1])"
    unfolding blocked_exactly [OF f] sample_filter_lines by (simp_all add: sample_lines To4_def be32_def)
  with f show ?thesis by blast
qed

subsection \<open>The textual forms\<close>

definition plain :: "bytes \<Rightarrow> bool" where
  "plain s \<longleftrightarrow> (\<forall>c \<in> set s. 45 \<le> c \<and> c \<le> 57)"

lemma plain_simps [simp]: "plain []" "plain (c # s) \<longleftrightarrow> 45 \<le> c \<and> c \<le> 57 \<and> plain s" "plain (s @ t) \<longleftrightarrow> plain s \<and> plain t"
  by (auto simp: plain_def)

lemma plain_rev [simp]: "plain (rev s) = plain s"
  by (simp add: plain_def)

lemma plain_printable: "plain s \<Longrightarrow> printable s"
  by (auto simp: plain_def printable_def word_le_nat_alt)

lemma TrimSpace_plain: "plain s \<Longrightarrow> TrimSpace s = s"
  by (simp add: plain_printable TrimSpace_printable)

lemma digits_value_parse: "parse_digits k s = Some v \<Longrightarrow> digits_value k s = Some v"
  by (induction k s rule: parse_digits.induct) (auto split: if_splits)

lemma decimal_digits:
  assumes "n \<le> 255"
  shows "digits_value 0 (decimal n) = Some n" "decimal n \<noteq> []" "length (decimal n) \<le> 3" "\<forall>c \<in> set (decimal n). 48 \<le> c \<and> c \<le> 57"
proof -
  show "decimal n \<noteq> []" "length (decimal n) \<le> 3" by (simp_all add: decimal_def)
  then show "digits_value 0 (decimal n) = Some n"
    using parse_digits_decimal [OF assms] by (simp add: ParseUint8_def digits_value_parse)
  have "n div 100 < 10" "n div 10 mod 10 < 10" "n mod 10 < 10" using assms by auto
  then show "\<forall>c \<in> set (decimal n). 48 \<le> c \<and> c \<le> 57"
    using digit_byte(1,2) by (auto simp: decimal_def simp del: of_nat_add)
qed

lemma plain_digits: "\<forall>c \<in> set s. 48 \<le> c \<and> c \<le> 57 \<Longrightarrow> plain s"
  by (auto simp: plain_def intro: order_trans [of "45 :: u8" "48 :: u8"])

lemma digits_not: "\<forall>c \<in> set s. 48 \<le> c \<and> c \<le> 57 \<Longrightarrow> (x :: u8) < 48 \<Longrightarrow> x \<notin> set s"
  by force

lemma plain_not: "plain s \<Longrightarrow> c < 45 \<or> 57 < c \<Longrightarrow> c \<notin> set s"
  by (force simp: plain_def)

lemma decimal_octet:
  fixes a :: u8
  shows "plain (decimal (unat a))" "46 \<notin> set (decimal (unat a))" "45 \<notin> set (decimal (unat a))" "47 \<notin> set (decimal (unat a))"
    "ParseUint 32 (decimal (unat a)) = Some (unat a)" "decimal (unat a) \<noteq> []" "length (decimal (unat a)) \<le> 3"
proof -
  note d = decimal_digits [OF unat_le_255, of a]
  show "plain (decimal (unat a))" by (rule plain_digits [OF d(4)])
  show "46 \<notin> set (decimal (unat a))" "45 \<notin> set (decimal (unat a))" "47 \<notin> set (decimal (unat a))"
    by (rule digits_not [OF d(4)], simp)+
  have "unat a < 2 ^ 32" using unat_le_255 [of a] by (rule le_less_trans) simp
  then show "ParseUint 32 (decimal (unat a)) = Some (unat a)" using d(1,2) by (simp add: ParseUint_def)
  show "decimal (unat a) \<noteq> []" "length (decimal (unat a)) \<le> 3" using d(2,3) .
qed

lemma dotted_plain: "plain (dotted a b c d)" "45 \<notin> set (dotted a b c d)" "47 \<notin> set (dotted a b c d)"
    "dotted a b c d \<noteq> []"
  by (simp_all add: dotted_def decimal_octet)

lemma parseV4_dotted: "parseV4 (dotted a b c d) = Some [a, b, c, d]"
proof -
  have "split_on 46 (dotted a b c d) = [decimal (unat a), decimal (unat b), decimal (unat c), decimal (unat d)]"
    by (simp add: dotted_def split_on_append split_on_none decimal_octet)
  then show ?thesis
    using unat_le_255 by (simp add: parseV4_def decimal_octet Let_def not_less)
qed

lemma Atoi_decimal:
  assumes "n \<le> 255"
  shows "Atoi (decimal n) = Some (int n)"
proof -
  note d = decimal_digits [OF assms]
  have "hd (decimal n) \<noteq> 45" "hd (decimal n) \<noteq> 43" using d(2,4) hd_in_set by fastforce+
  then show ?thesis using d assms by (simp add: Atoi_def)
qed

lemma Cut_none: "c \<notin> set s \<Longrightarrow> Cut c s = (s, [], False)"
  by (simp add: Cut_def)

lemma Cut_some: "c \<notin> set s \<Longrightarrow> Cut c (s @ c # t) = (s, t, True)"
  by (simp add: Cut_def takeWhile_append dropWhile_append)

text \<open>The addresses between the bounds of a prefix are those with the prefix.\<close>

lemma prefix_bounds:
  fixes x y :: u32
  assumes "k \<le> 32"
  shows "x AND NOT (mask k) \<le> y \<and> y \<le> (x AND NOT (mask k)) OR mask k \<longleftrightarrow> drop_bit k y = drop_bit k x"
proof -
  define X Y :: nat where "X = unat x" and "Y = unat y"
  have lo: "x AND NOT (mask k) = push_bit k (drop_bit k x)" by (rule bit_word_eqI) (auto simp: bit_simps)
  have X: "X < 2 ^ 32" using unsigned_less [of x] by (simp add: X_def)
  have ulo: "unat (push_bit k (drop_bit k x)) = X div 2 ^ k * 2 ^ k"
    using X le_less_trans [OF div_times_less_eq_dividend X, of "2 ^ k"]
    unfolding unsigned_push_bit_eq unat_drop_bit_eq
    by (simp add: X_def push_bit_eq_mult drop_bit_eq_div take_bit_nat_eq_self)
  have "unat (mask k :: u32) = mask k"
  proof -
    have "uint (mask k :: u32) = mask k" using assms by (simp add: uint_mask_eq)
    then show ?thesis by (metis nat_mask_eq unat_eq_nat_uint)
  qed
  then have "unat (push_bit k (drop_bit k x) OR mask k) = push_bit k (X div 2 ^ k) OR mask k"
    unfolding unsigned_or_eq ulo by (simp add: push_bit_eq_mult)
  also have "\<dots> = push_bit k (X div 2 ^ k) + mask k"
    by (rule disjunctive_add [symmetric]) (auto simp: bit_simps)
  finally have uhi: "unat (push_bit k (drop_bit k x) OR mask k) = X div 2 ^ k * 2 ^ k + (2 ^ k - 1)"
    by (simp add: push_bit_eq_mult mask_eq_exp_minus_1)
  have "X div 2 ^ k * 2 ^ k \<le> Y \<and> Y \<le> X div 2 ^ k * 2 ^ k + (2 ^ k - 1) \<longleftrightarrow> Y div 2 ^ k = X div 2 ^ k"
  proof
    assume a: "X div 2 ^ k * 2 ^ k \<le> Y \<and> Y \<le> X div 2 ^ k * 2 ^ k + (2 ^ k - 1)"
    have "(X div 2 ^ k + 1) * 2 ^ k = X div 2 ^ k * 2 ^ k + 2 ^ k" by simp
    moreover have "(0 :: nat) < 2 ^ k" by simp
    ultimately have "Y < (X div 2 ^ k + 1) * 2 ^ k" using a by linarith
    then show "Y div 2 ^ k = X div 2 ^ k" using a by (intro div_nat_eqI) (simp_all add: mult.commute)
  next
    assume a: "Y div 2 ^ k = X div 2 ^ k"
    have "Y = X div 2 ^ k * 2 ^ k + Y mod 2 ^ k" unfolding a [symmetric] by (rule div_mult_mod_eq [symmetric])
    moreover have "Y mod 2 ^ k < 2 ^ k" by simp
    ultimately show "X div 2 ^ k * 2 ^ k \<le> Y \<and> Y \<le> X div 2 ^ k * 2 ^ k + (2 ^ k - 1)" by linarith
  qed
  moreover have "drop_bit k y = drop_bit k x \<longleftrightarrow> Y div 2 ^ k = X div 2 ^ k"
    unfolding word_unat_eq_iff unat_drop_bit_eq by (simp add: drop_bit_eq_div X_def Y_def)
  ultimately show ?thesis unfolding lo word_le_nat_alt ulo uhi Y_def [symmetric] by simp
qed

text \<open>C31: A line written as an address and a prefix length covers exactly the addresses that share
  that many leading bits with it, from every address at length 0 to the single address at
  length 32.
\<close>

theorem prefix_form_exact:
  assumes "n \<le> 32"
  shows "\<exists>lo hi. parseRangeField (dotted a b c d @ 47 # decimal n) = Some (lo, hi) \<and>
    (\<forall>y. lo \<le> y \<and> y \<le> hi \<longleftrightarrow> drop_bit (32 - n) y = drop_bit (32 - n) (be32 [a, b, c, d]))"
proof -
  have n: "n \<le> 255" using assms by simp
  note d = decimal_digits [OF n]
  have pl: "plain (decimal n)" "45 \<notin> set (decimal n)" "46 \<notin> set (decimal n)" using d(4) by (auto intro: plain_digits dest: digits_not)
  have mask: "parseMask (decimal n) = Some (NOT (mask (32 - n)))"
    using assms pl(3) by (auto simp: parseMask_def Atoi_decimal [OF n] push_bit_minus_one_eq_not_mask mask_eq_exp_minus_1)
  have "parseRangeField (dotted a b c d @ 47 # decimal n) =
      Some (be32 [a, b, c, d] AND NOT (mask (32 - n)), (be32 [a, b, c, d] AND NOT (mask (32 - n))) OR mask (32 - n))"
    using pl dotted_plain [of a b c d]
    by (simp add: parseRangeField_def Cut_none Cut_some TrimSpace_plain parseV4_dotted mask Let_def)
  with prefix_bounds [of "32 - n" "be32 [a, b, c, d]"] show ?thesis by auto
qed


theorem prefix_form_exact_witness:
  "\<exists>lo hi. parseRangeField (dotted 10 1 2 3 @ 47 # decimal 8) = Some (lo, hi) \<and>
     (\<forall>y. lo \<le> y \<and> y \<le> hi \<longleftrightarrow> drop_bit 24 y = drop_bit 24 (be32 [10, 1, 2, 3]))"
  using prefix_form_exact [of 8 10 1 2 3] by simp


text \<open>C22: The merged list of a loaded file is sorted, its ranges are proper, and no two of them
  overlap or touch, so that the list is the shortest for its set; it is never longer than
  the number of blocking lines, which is never more than the number of parsed ones.
\<close>

theorem merged_canonical:
  assumes "ParseIPFilter file minLevel = Ok f"
  shows "sorted_wrt (\<lambda>a b. unat (r_hi a) + 1 < unat (r_lo b)) (ipf_ranges f) \<and> (\<forall>r \<in> set (ipf_ranges f). r_lo r \<le> r_hi r) \<and>
    Len (Some f) \<le> ipf_Blocking f \<and> ipf_Blocking f \<le> ipf_Parsed f"
proof -
  define ts m where "ts = map dropCR (rawLines file)" and "m = (if minLevel \<le> 0 then DefaultMinLevel else minLevel)"
  note f = ParseIPFilter_Ok [OF assms, folded ts_def m_def]
  have "ipf_Blocking f \<le> ipf_Parsed f" by (simp add: f below_def)
  then show ?thesis
    using mergeRanges_spec [OF below_ordered, of m ts, folded f(1)] by (simp add: apart_def [abs_def] Len_def f(2))
qed

theorem merged_canonical_witness:
  "\<exists>f. ParseIPFilter sample_filter 0 = Ok f \<and> sorted_wrt (\<lambda>a b. unat (r_hi a) + 1 < unat (r_lo b)) (ipf_ranges f) \<and>
     Len (Some f) \<le> ipf_Blocking f"
  using sample_filter_parsed merged_canonical by blast

definition old_file :: bytes where "old_file = str ''1.0.0.0/8''"
definition new_file :: bytes where "new_file = str ''2.0.0.0/8''"

lemma edited_files:
  "listed old_file = Some (\<lparr>r_lo = 0x01000000, r_hi = 0x01FFFFFF, r_desc = []\<rparr>, 0)"
  "listed new_file = Some (\<lparr>r_lo = 0x02000000, r_hi = 0x02FFFFFF, r_desc = []\<rparr>, 0)"
  "map dropCR (rawLines old_file) = [old_file]" "map dropCR (rawLines new_file) = [new_file]"
  by (simp_all add: old_file_def new_file_def filter_eval mask_eq_exp_minus_1 rawLines_def dropCR_def)

lemma edited_files_parsed: "\<exists>f. ParseIPFilter old_file 0 = Ok f" "\<exists>f. ParseIPFilter new_file 0 = Ok f"
  using edited_files(3,4)
  by (simp_all add: ParseIPFilter_def Let_def filter_loop_spec rawLines_def dropCR_def old_file_def new_file_def str_def)


end
