(* ===== verification/Search_Match.thy ===== *)
theory Search_Match
  imports Tcp_Operations Go_Strings
begin

unbundle bit_operations_syntax

section \<open>Search expressions (storage/search.go, storage/search_hash.go)\<close>

text \<open>
  The parsed search tree and what the engines do with it: the per-file test of the memory
  engine, the WHERE clause of the SQL engines, the scan guard, and the two special terms
  (a file hash, a related search). A nil pointer of the tree is \<open>NilExpr\<close>.

  Shown here: the three tree walks drop the same subtrees, and the SQL clause means the same
  as the per-file test; the clause has as many placeholders as arguments, whatever the
  client typed; an anchored search only matches files an index lookup finds; the matcher
  that remembers split terms answers like the one that does not; the special terms read
  back what clients write.
\<close>

subsection \<open>The tree\<close>

record file_key =
  fk_Hash :: bytes
  fk_Size :: u64

datatype search_expr =
    NilExpr
  | SearchText bytes
  | SearchAnd search_expr search_expr
  | SearchOr search_expr search_expr
  | SearchAndNot search_expr search_expr
  | SearchString u32 bytes
  | SearchUInt32 u32 u64
  | SearchUInt64 u32 u64
  | SearchHash bytes u64
  | SearchRelated "file_key list"

definition searchTypeText :: u32 where [simp]: "searchTypeText = 0xff"
definition searchTypeFileType :: u32 where [simp]: "searchTypeFileType = 0x030001"
definition searchTypeExt :: u32 where [simp]: "searchTypeExt = 0x040001"
definition searchTypeArtist :: u32 where [simp]: "searchTypeArtist = 0xd00001"
definition searchTypeAlbum :: u32 where [simp]: "searchTypeAlbum = 0xd10001"
definition searchTypeTitle :: u32 where [simp]: "searchTypeTitle = 0xd20001"
definition searchTypeCodec :: u32 where [simp]: "searchTypeCodec = 0xd50001"

definition SearchOpEqual :: u8 where [simp]: "SearchOpEqual = 0"
definition SearchOpGreater :: u8 where [simp]: "SearchOpGreater = 1"
definition SearchOpLess :: u8 where [simp]: "SearchOpLess = 2"
definition SearchOpGreaterEqual :: u8 where [simp]: "SearchOpGreaterEqual = 3"
definition SearchOpLessEqual :: u8 where [simp]: "SearchOpLessEqual = 4"
definition SearchOpNotEqual :: u8 where [simp]: "SearchOpNotEqual = 5"

definition SearchTagSize :: u8 where [simp]: "SearchTagSize = 0x02"
definition SearchTagSources :: u8 where [simp]: "SearchTagSources = 0x15"
definition SearchTagComplete :: u8 where [simp]: "SearchTagComplete = 0x30"
definition SearchTagLength :: u8 where [simp]: "SearchTagLength = 0xd3"
definition SearchTagBitrate :: u8 where [simp]: "SearchTagBitrate = 0xd4"

definition hashLen :: nat where [simp]: "hashLen = 16"
definition MaxRelatedSeeds :: nat where [simp]: "MaxRelatedSeeds = 32"

subsection \<open>Special terms\<close>

definition hashTermPrefixes :: "bytes list" where
  "hashTermPrefixes = [str ''magnet:?xt=urn:ed2khash:'', str ''magnet:?xt=urn:ed2k:'', str ''magnet:?xt=ed2k:'']"

fun leadingDigits_loop :: "u64 \<Rightarrow> nat \<Rightarrow> bytes \<Rightarrow> u64 \<times> nat" where
  "leadingDigits_loop v n [] = (v, n)"
| "leadingDigits_loop v n (c # s) =
     (if 48 \<le> c \<and> c \<le> 57 then
        (let d = ucast (c - 48) :: u64
         in leadingDigits_loop (if v > (NOT 0 - d) div 10 then NOT 0 else v * 10 + d) (n + 1) s)
      else (v, n))"

definition leadingDigits :: "bytes \<Rightarrow> u64 \<times> nat" where
  "leadingDigits s = leadingDigits_loop 0 0 s"

definition hexHash :: "bytes \<Rightarrow> bytes option" where
  "hexHash s = (if length s < 2 * hashLen then None else hexDecode (take (2 * hashLen) s))"

definition parseLinkTail :: "bytes \<Rightarrow> (bytes \<times> u64) option" where
  "parseLinkTail s =
     (if 124 \<notin> set s then None
      else let s = tl (dropWhile (\<lambda>c. c \<noteq> 124) s);
               (size, n) = leadingDigits s
           in if 124 \<notin> set (drop n s) then None
              else map_option (\<lambda>hash. (hash, size)) (hexHash (tl (dropWhile (\<lambda>c. c \<noteq> 124) (drop n s)))))"

fun hashTerm_loop :: "bytes \<Rightarrow> bytes \<Rightarrow> bytes list \<Rightarrow> (bytes \<times> u64) option" where
  "hashTerm_loop lower t [] = None"
| "hashTerm_loop lower t (p # ps) =
     (if HasPrefix lower p then map_option (\<lambda>hash. (hash, 0)) (hexHash (drop (length p) t))
      else hashTerm_loop lower t ps)"

definition ParseHashTerm :: "ucd \<Rightarrow> bytes \<Rightarrow> (bytes \<times> u64) option" where
  "ParseHashTerm u text =
     (let t = TrimSpace text; lower = ToLower u t
      in if HasPrefix lower (str ''<a href= ed2k://|file|'') then parseLinkTail (drop (length (str ''<a href= ed2k://|file|'')) t)
         else if HasPrefix lower (str ''ed2k://|file|'') then parseLinkTail (drop (length (str ''ed2k://|file|'')) t)
         else if HasPrefix lower (str ''ed2k:'') then
           (let rest = drop (length (str ''ed2k:'')) t; (size, n) = leadingDigits rest
            in if n \<ge> length rest \<or> rest ! n \<noteq> 58 then None
               else map_option (\<lambda>hash. (hash, size)) (hexHash (drop (n + 1) rest)))
         else hashTerm_loop lower t hashTermPrefixes)"

text \<open>
  The seed loop ends when it has \<open>MaxRelatedSeeds\<close> seeds; \<open>room\<close> counts those it may still add.
\<close>

fun relatedSeeds :: "nat \<Rightarrow> bytes \<Rightarrow> file_key list" where
  "relatedSeeds 0 rest = []"
| "relatedSeeds (Suc room) rest =
     (let (size, n) = leadingDigits rest
      in if n \<ge> length rest \<or> rest ! n \<noteq> 58 then []
         else case hexHash (drop (n + 1) rest) of None \<Rightarrow> []
         | Some hash \<Rightarrow>
             let key = \<lparr>fk_Hash = hash, fk_Size = size\<rparr>;
                 rest = drop (n + 1 + 2 * hashLen) rest
             in if rest = [] \<or> hd rest \<noteq> 58 then [key] else key # relatedSeeds room (tl rest))"

definition ParseRelatedTerm :: "ucd \<Rightarrow> bytes \<Rightarrow> file_key list option" where
  "ParseRelatedTerm u text =
     (let t = TrimSpace text; pre = str ''related:''
      in if length t < length pre \<or> \<not> EqualFold u (take (length pre) t) pre then None
         else let seeds = relatedSeeds MaxRelatedSeeds (drop (length pre) t)
              in if seeds = [] then None else Some seeds)"

fun FindRelated :: "search_expr \<Rightarrow> file_key list option" where
  "FindRelated (SearchRelated seeds) = (if seeds = [] then None else Some seeds)"
| "FindRelated (SearchAnd l r) = (case FindRelated l of Some seeds \<Rightarrow> Some seeds | None \<Rightarrow> FindRelated r)"
| "FindRelated _ = None"

subsection \<open>Leaves\<close>

definition splitTerms :: "bytes \<Rightarrow> bytes list" where
  "splitTerms text = Fields (TrimSpace text)"

definition SearchTerms :: "bytes \<Rightarrow> bytes list" where
  "SearchTerms text = splitTerms text"

definition NumericTag :: "u32 \<Rightarrow> (u8 \<times> u8) option" where
  "NumericTag tagType =
     (if drop_bit 8 tagType AND 0xffff \<noteq> 1 then None
      else let op = ucast tagType :: u8
           in if op > SearchOpNotEqual then None else Some (ucast (drop_bit 24 tagType), op))"

definition NumericConstraint :: "search_expr \<Rightarrow> (u8 \<times> u8) option" where
  "NumericConstraint expr =
     (case expr of SearchUInt32 t _ \<Rightarrow> NumericTag t | SearchUInt64 t _ \<Rightarrow> NumericTag t | _ \<Rightarrow> None)"

definition CompareSearchValue :: "u8 \<Rightarrow> u64 \<Rightarrow> u64 \<Rightarrow> bool" where
  "CompareSearchValue op have want =
     (if op = SearchOpEqual then have = want
      else if op = SearchOpGreater then have > want
      else if op = SearchOpLess then have < want
      else if op = SearchOpGreaterEqual then have \<ge> want
      else if op = SearchOpLessEqual then have \<le> want
      else have \<noteq> want)"

text \<open>The maximal runs of letters and digits of a term.\<close>

fun alnumRuns_loop :: "ucd \<Rightarrow> bytes \<Rightarrow> nat list \<Rightarrow> bytes list" where
  "alnumRuns_loop u b [] = (if b \<noteq> [] then [b] else [])"
| "alnumRuns_loop u b (r # rs) =
     (if IsLetter u r \<or> IsDigit u r then alnumRuns_loop u (b @ EncodeRune r) rs
      else if b \<noteq> [] then b # alnumRuns_loop u [] rs
      else alnumRuns_loop u [] rs)"

definition alnumRuns :: "ucd \<Rightarrow> bytes \<Rightarrow> bytes list" where
  "alnumRuns u s = alnumRuns_loop u [] (runes s)"

definition termRuns :: "ucd \<Rightarrow> bytes \<Rightarrow> bytes list" where
  "termRuns u t = (let runs = alnumRuns u t in if runs \<noteq> [] then runs else [t])"

definition NormalizeSearchFileType :: "ucd \<Rightarrow> bytes \<Rightarrow> bytes" where
  "NormalizeSearchFileType u typ =
     (if EqualFold u typ (str ''Arc'') \<or> EqualFold u typ (str ''Iso'') then str ''Pro'' else typ)"

text \<open>\<^verbatim>\<open>filepath.Ext\<close>, dot included, on a Unix path\<close>

definition filepath_Ext :: "bytes \<Rightarrow> bytes" where
  "filepath_Ext path =
     (let tail = takeWhile (\<lambda>c. c \<noteq> 46 \<and> c \<noteq> 47) (rev path);
          rest = dropWhile (\<lambda>c. c \<noteq> 46 \<and> c \<noteq> 47) (rev path)
      in if rest \<noteq> [] \<and> hd rest = 46 then 46 # rev tail else [])"

definition fileExt :: "ucd \<Rightarrow> bytes \<Rightarrow> bytes" where
  "fileExt u name =
     (let ext = filepath_Ext name in if ext = [] then [] else ToLower u (if HasPrefix ext [46] then tl ext else ext))"

definition containsFold :: "ucd \<Rightarrow> bytes \<Rightarrow> bytes \<Rightarrow> bool" where
  "containsFold u s needle \<longleftrightarrow> Contains (ToLower u s) (ToLower u needle)"

definition matchHashLeaf :: "bytes \<Rightarrow> u64 \<Rightarrow> storage_file \<Rightarrow> bool" where
  "matchHashLeaf hash sz file \<longleftrightarrow> f_Hash file = hash \<and> (sz = 0 \<or> f_Size file = sz)"

definition numericValue :: "u8 \<Rightarrow> storage_file \<Rightarrow> u64 option" where
  "numericValue tag file =
     (if tag = SearchTagSize then Some (f_Size file)
      else if tag = SearchTagSources then Some (ucast (f_Sources file))
      else if tag = SearchTagComplete then Some (ucast (f_Completed file))
      else if tag = SearchTagBitrate then Some (ucast (f_Bitrate file))
      else if tag = SearchTagLength then Some (ucast (f_Runtime file))
      else None)"

subsection \<open>The test of one file\<close>

text \<open>
  A \<open>searchMatcher\<close> remembers the runs of each text leaf. Leaves are pointers in the code;
  here a leaf is named by the way from the root to it. A nil matcher is \<open>None\<close>.
\<close>

type_synonym matcher = "(bool list \<Rightarrow> bytes list option) option"

definition leafRuns :: "ucd \<Rightarrow> bytes \<Rightarrow> bytes list" where
  "leafRuns u text = concat (map (\<lambda>t. termRuns u (ToLower u t)) (splitTerms text))"

definition textRuns :: "ucd \<Rightarrow> matcher \<Rightarrow> bool list \<Rightarrow> bytes \<Rightarrow> (bytes list \<times> bool) \<times> matcher" where
  "textRuns u sm leaf text =
     (case sm of
        Some m \<Rightarrow>
          (case m leaf of
             Some runs \<Rightarrow> ((runs, runs \<noteq> []), sm)
           | None \<Rightarrow> let runs = leafRuns u text in ((runs, runs \<noteq> []), Some (m(leaf \<mapsto> runs))))
      | None \<Rightarrow> let runs = leafRuns u text in ((runs, runs \<noteq> []), None))"

definition matchText :: "ucd \<Rightarrow> matcher \<Rightarrow> bool list \<Rightarrow> bytes \<Rightarrow> bytes \<Rightarrow> bool \<times> matcher" where
  "matchText u sm leaf text lowerName =
     (case textRuns u sm leaf text of
        ((runs, ok), sm') \<Rightarrow> (ok \<and> list_all (Contains lowerName) runs, sm'))"

definition matchString :: "ucd \<Rightarrow> u32 \<Rightarrow> bytes \<Rightarrow> storage_file \<Rightarrow> bool \<times> bool" where
  "matchString u tagType value file =
     (if tagType = searchTypeFileType then
        (EqualFold u (NormalizeSearchFileType u (f_Type file)) (NormalizeSearchFileType u value), False)
      else if tagType = searchTypeExt then (EqualFold u (fileExt u (f_Name file)) value, False)
      else if tagType = searchTypeCodec then (EqualFold u (f_Codec file) value, False)
      else if tagType = searchTypeArtist then (containsFold u (f_Artist file) value, False)
      else if tagType = searchTypeAlbum then (containsFold u (f_Album file) value, False)
      else if tagType = searchTypeTitle then (containsFold u (f_Title file) value, False)
      else (False, True))"

definition matchNumeric :: "u32 \<Rightarrow> u64 \<Rightarrow> storage_file \<Rightarrow> bool \<times> bool" where
  "matchNumeric tagType value file =
     (case NumericTag tagType of None \<Rightarrow> (False, True)
      | Some (tag, op) \<Rightarrow>
          (case numericValue tag file of None \<Rightarrow> (False, True)
           | Some have \<Rightarrow> (CompareSearchValue op have value, False)))"

definition matchAndNot :: "bool \<times> bool \<Rightarrow> bool \<times> bool \<Rightarrow> bool \<times> bool" where
  "matchAndNot l r =
     (case (l, r) of ((leftMatch, leftPrune), (rightMatch, rightPrune)) \<Rightarrow>
        if rightPrune then (leftMatch, leftPrune)
        else if leftPrune then (False, True)
        else (leftMatch \<and> \<not> rightMatch, False))"

definition matchAndOr :: "(bool \<Rightarrow> bool \<Rightarrow> bool) \<Rightarrow> bool \<times> bool \<Rightarrow> bool \<times> bool \<Rightarrow> bool \<times> bool" where
  "matchAndOr combine l r =
     (case (l, r) of ((leftMatch, leftPrune), (rightMatch, rightPrune)) \<Rightarrow>
        if leftPrune then (rightMatch, rightPrune)
        else if rightPrune then (leftMatch, False)
        else (combine leftMatch rightMatch, False))"

fun matchNode :: "ucd \<Rightarrow> matcher \<Rightarrow> bool list \<Rightarrow> search_expr \<Rightarrow> storage_file \<Rightarrow> bytes \<Rightarrow> (bool \<times> bool) \<times> matcher" where
  "matchNode u sm p NilExpr file lowerName = ((False, True), sm)"
| "matchNode u sm p (SearchText text) file lowerName =
     (case matchText u sm p text lowerName of (m, sm') \<Rightarrow> ((m, False), sm'))"
| "matchNode u sm p (SearchString tagType value) file lowerName =
     (if tagType = searchTypeText then (case matchText u sm p value lowerName of (m, sm') \<Rightarrow> ((m, False), sm'))
      else (matchString u tagType value file, sm))"
| "matchNode u sm p (SearchUInt32 tagType value) file lowerName = (matchNumeric tagType value file, sm)"
| "matchNode u sm p (SearchUInt64 tagType value) file lowerName = (matchNumeric tagType value file, sm)"
| "matchNode u sm p (SearchHash hash sz) file lowerName = ((matchHashLeaf hash sz file, False), sm)"
| "matchNode u sm p (SearchAndNot left right) file lowerName =
     (case matchNode u sm (False # p) left file lowerName of (l, sm') \<Rightarrow>
        case matchNode u sm' (True # p) right file lowerName of (r, sm'') \<Rightarrow> (matchAndNot l r, sm''))"
| "matchNode u sm p (SearchOr left right) file lowerName =
     (case matchNode u sm (False # p) left file lowerName of (l, sm') \<Rightarrow>
        case matchNode u sm' (True # p) right file lowerName of (r, sm'') \<Rightarrow> (matchAndOr (\<or>) l r, sm''))"
| "matchNode u sm p (SearchAnd left right) file lowerName =
     (case matchNode u sm (False # p) left file lowerName of (l, sm') \<Rightarrow>
        case matchNode u sm' (True # p) right file lowerName of (r, sm'') \<Rightarrow> (matchAndOr (\<and>) l r, sm''))"
| "matchNode u sm p (SearchRelated seeds) file lowerName = ((False, True), sm)"

definition match_file :: "ucd \<Rightarrow> matcher \<Rightarrow> search_expr \<Rightarrow> storage_file \<Rightarrow> bool \<times> matcher" where
  "match_file u sm expr file =
     (case matchNode u sm [] expr file (ToLower u (f_Name file)) of ((matched, prune), sm') \<Rightarrow> (\<not> prune \<and> matched, sm'))"

definition MatchSearchExpr :: "ucd \<Rightarrow> search_expr \<Rightarrow> storage_file \<Rightarrow> bool" where
  "MatchSearchExpr u expr file = (expr \<noteq> NilExpr \<and> fst (match_file u None expr file))"

definition MatchRelatedFilter :: "ucd \<Rightarrow> search_expr \<Rightarrow> storage_file \<Rightarrow> bool" where
  "MatchRelatedFilter u expr file =
     (case fst (matchNode u None [] expr file (ToLower u (f_Name file))) of (matched, prune) \<Rightarrow> prune \<or> matched)"

definition zero_file :: storage_file where
  "zero_file = \<lparr>f_Hash = [], f_Name = [], f_Size = 0, f_Type = [], f_Sources = 0, f_Completed = 0, f_Title = [], f_Artist = [],
     f_Album = [], f_Runtime = 0, f_Bitrate = 0, f_Codec = [], f_SourceID = 0, f_SourcePort = 0, f_Meta = None\<rparr>"

definition searchPrunes :: "ucd \<Rightarrow> search_expr \<Rightarrow> bool" where
  "searchPrunes u expr = snd (fst (matchNode u None [] expr zero_file []))"

subsection \<open>The WHERE clause\<close>

datatype sql_arg = ArgString bytes | ArgBytes bytes | ArgUint u64

record where_node =
  wn_sql :: bytes
  wn_args :: "sql_arg list"
  wn_prune :: bool

definition contradiction :: "where_node \<Rightarrow> bool" where
  "contradiction n \<longleftrightarrow> \<not> wn_prune n \<and> wn_sql n = []"

definition prunedNode :: where_node where
  "prunedNode = \<lparr>wn_sql = [], wn_args = [], wn_prune = True\<rparr>"

definition contradictionNode :: where_node where
  "contradictionNode = \<lparr>wn_sql = [], wn_args = [], wn_prune = False\<rparr>"

definition DialectMariaDB :: bytes where "DialectMariaDB = str ''mariadb''"
definition DialectMySQL :: bytes where "DialectMySQL = str ''mysql''"

definition escapeLike :: "bytes \<Rightarrow> bytes" where
  "escapeLike t = concat (map (\<lambda>c. if c = 92 \<or> c = 37 \<or> c = 95 then [92, c] else [c]) t)"

definition ftMinTokenSize :: "bytes \<Rightarrow> nat" where
  "ftMinTokenSize dialect = (if dialect = DialectMySQL then 2 else 3)"

definition ftPhrase :: "bytes \<Rightarrow> bytes \<Rightarrow> bytes" where
  "ftPhrase run dialect = (if dialect = DialectMySQL then [43, 34] @ run @ [34] else [43] @ run @ [42])"

definition ftIndexable :: "bytes \<Rightarrow> nat \<Rightarrow> bool" where
  "ftIndexable run minTok \<longleftrightarrow> length (runes run) \<ge> minTok"

definition hasIndexableRun :: "ucd \<Rightarrow> bytes list \<Rightarrow> nat \<Rightarrow> bool" where
  "hasIndexableRun u ts minTok \<longleftrightarrow> list_ex (\<lambda>t. list_ex (\<lambda>run. ftIndexable run minTok) (alnumRuns u t)) ts"

definition likeRuns :: "ucd \<Rightarrow> bytes \<Rightarrow> bytes \<Rightarrow> bytes list" where
  "likeRuns u dialect t =
     filter (\<lambda>run. dialect = DialectMySQL \<or> alnumRuns u t = [] \<or> \<not> ftIndexable run (ftMinTokenSize dialect)) (termRuns u t)"

definition ftLeaf :: "ucd \<Rightarrow> bytes list \<Rightarrow> bytes \<Rightarrow> where_node" where
  "ftLeaf u ts dialect =
     (let minTok = ftMinTokenSize dialect;
          phrases = map (\<lambda>run. ftPhrase run dialect) (filter (\<lambda>run. ftIndexable run minTok) (concat (map (alnumRuns u) ts)));
          likes = concat (map (likeRuns u dialect) ts);
          parts = (if phrases \<noteq> [] then [str ''MATCH(s.name) AGAINST (? IN BOOLEAN MODE)''] else []) @
                  map (\<lambda>_. str ''s.name LIKE ?'') likes;
          args = (if phrases \<noteq> [] then [ArgString (JoinStr [32] phrases)] else []) @
                 map (\<lambda>run. ArgString ([37] @ escapeLike run @ [37])) likes
      in \<lparr>wn_sql = [40] @ JoinStr (str '' AND '') parts @ [41], wn_args = args, wn_prune = False\<rparr>)"

definition joinWhereNodes :: "where_node \<Rightarrow> where_node \<Rightarrow> bytes \<Rightarrow> where_node" where
  "joinWhereNodes left right op =
     \<lparr>wn_sql = [40] @ wn_sql left @ op @ wn_sql right @ [41], wn_args = wn_args left @ wn_args right, wn_prune = False\<rparr>"

definition combineAndNot :: "where_node \<Rightarrow> where_node \<Rightarrow> where_node" where
  "combineAndNot left right =
     (if wn_prune right \<or> contradiction right then left
      else if wn_prune left then prunedNode
      else if contradiction left then contradictionNode
      else joinWhereNodes left right (str '' AND NOT ''))"

definition combineOr :: "where_node \<Rightarrow> where_node \<Rightarrow> where_node" where
  "combineOr left right =
     (if wn_prune left then right
      else if wn_prune right then left
      else if contradiction left then right
      else if contradiction right then left
      else joinWhereNodes left right (str '' OR ''))"

definition combineAnd :: "where_node \<Rightarrow> where_node \<Rightarrow> where_node" where
  "combineAnd left right =
     (if wn_prune left then right
      else if wn_prune right then left
      else if contradiction left \<or> contradiction right then contradictionNode
      else joinWhereNodes left right (str '' AND ''))"

definition mediaStringField :: "u32 \<Rightarrow> bytes option" where
  "mediaStringField tagType =
     (if tagType = searchTypeArtist then Some (str ''artist'')
      else if tagType = searchTypeAlbum then Some (str ''album'')
      else if tagType = searchTypeTitle then Some (str ''title'') else None)"

definition sqlNumericColumn :: "u8 \<Rightarrow> bytes option" where
  "sqlNumericColumn tag =
     (if tag = SearchTagSize then Some (str ''f.size'')
      else if tag = SearchTagSources then Some (str ''f.sources'')
      else if tag = SearchTagComplete then Some (str ''f.completed'')
      else if tag = SearchTagBitrate then Some (str ''s.bitrate'')
      else if tag = SearchTagLength then Some (str ''s.length'') else None)"

definition sqlOperators :: "bytes list" where
  "sqlOperators = [str ''='', str ''>'', str ''<'', str ''>='', str ''<='', str ''<>'']"

definition textNode :: "ucd \<Rightarrow> bytes \<Rightarrow> bytes \<Rightarrow> where_node" where
  "textNode u text dialect =
     (let ts = splitTerms text in if ts = [] then contradictionNode else ftLeaf u ts dialect)"

definition stringNode :: "ucd \<Rightarrow> u32 \<Rightarrow> bytes \<Rightarrow> where_node" where
  "stringNode u tagType value =
     (if tagType = searchTypeFileType then
        \<lparr>wn_sql = str ''(s.type = ?)'', wn_args = [ArgString (NormalizeSearchFileType u value)], wn_prune = False\<rparr>
      else if tagType = searchTypeExt then \<lparr>wn_sql = str ''(s.ext = ?)'', wn_args = [ArgString value], wn_prune = False\<rparr>
      else if tagType = searchTypeCodec then \<lparr>wn_sql = str ''(s.codec = ?)'', wn_args = [ArgString value], wn_prune = False\<rparr>
      else case mediaStringField tagType of
        Some col \<Rightarrow> \<lparr>wn_sql = str ''(s.'' @ col @ str '' LIKE ?)'', wn_args = [ArgString ([37] @ escapeLike value @ [37])], wn_prune = False\<rparr>
      | None \<Rightarrow> prunedNode)"

definition numericNode :: "u32 \<Rightarrow> u64 \<Rightarrow> where_node" where
  "numericNode tagType value =
     (case NumericTag tagType of None \<Rightarrow> prunedNode
      | Some (tag, op) \<Rightarrow>
          (case sqlNumericColumn tag of None \<Rightarrow> prunedNode
           | Some col \<Rightarrow> \<lparr>wn_sql = [40] @ col @ [32] @ sqlOperators ! unat op @ str '' ?)'', wn_args = [ArgUint value], wn_prune = False\<rparr>))"

definition hashNode :: "bytes \<Rightarrow> u64 \<Rightarrow> where_node" where
  "hashNode hash sz =
     (if sz = 0 then \<lparr>wn_sql = str ''(f.hash = ?)'', wn_args = [ArgBytes hash], wn_prune = False\<rparr>
      else \<lparr>wn_sql = str ''(f.hash = ? AND f.size = ?)'', wn_args = [ArgBytes hash, ArgUint sz], wn_prune = False\<rparr>)"

fun buildSearchNode :: "ucd \<Rightarrow> search_expr \<Rightarrow> bytes \<Rightarrow> where_node" where
  "buildSearchNode u NilExpr dialect = prunedNode"
| "buildSearchNode u (SearchText text) dialect = textNode u text dialect"
| "buildSearchNode u (SearchString tagType value) dialect =
     (if tagType = searchTypeText then textNode u value dialect else stringNode u tagType value)"
| "buildSearchNode u (SearchUInt32 tagType value) dialect = numericNode tagType value"
| "buildSearchNode u (SearchUInt64 tagType value) dialect = numericNode tagType value"
| "buildSearchNode u (SearchHash hash sz) dialect = hashNode hash sz"
| "buildSearchNode u (SearchAndNot left right) dialect =
     combineAndNot (buildSearchNode u left dialect) (buildSearchNode u right dialect)"
| "buildSearchNode u (SearchOr left right) dialect =
     combineOr (buildSearchNode u left dialect) (buildSearchNode u right dialect)"
| "buildSearchNode u (SearchAnd left right) dialect =
     combineAnd (buildSearchNode u left dialect) (buildSearchNode u right dialect)"
| "buildSearchNode u (SearchRelated seeds) dialect = prunedNode"

definition BuildSearchWhere :: "ucd \<Rightarrow> search_expr \<Rightarrow> bytes \<Rightarrow> bytes \<times> sql_arg list" where
  "BuildSearchWhere u expr dialect =
     (let node = buildSearchNode u expr dialect in if wn_prune node then ([], []) else (wn_sql node, wn_args node))"

subsection \<open>The scan guard\<close>

text \<open>The three answers: anchored, scan, prune.\<close>

definition textAnchor :: "ucd \<Rightarrow> bytes \<Rightarrow> nat \<Rightarrow> bool \<times> bool \<times> bool" where
  "textAnchor u text minTok =
     (let ts = splitTerms text
      in if ts = [] then (True, False, False)
         else if hasIndexableRun u ts minTok then (True, False, False)
         else (False, True, False))"

definition stringAnchor :: "u32 \<Rightarrow> bool \<times> bool \<times> bool" where
  "stringAnchor tagType =
     (if tagType = searchTypeFileType \<or> tagType = searchTypeExt \<or> tagType = searchTypeCodec then (False, False, False)
      else if mediaStringField tagType \<noteq> None then (False, False, False)
      else (False, False, True))"

definition numericAnchor :: "u32 \<Rightarrow> bool \<times> bool \<times> bool" where
  "numericAnchor tagType =
     (case NumericTag tagType of None \<Rightarrow> (False, False, True)
      | Some (tag, _) \<Rightarrow> if sqlNumericColumn tag = None then (False, False, True) else (False, False, False))"

definition anchorAndNot :: "bool \<times> bool \<times> bool \<Rightarrow> bool \<times> bool \<times> bool \<Rightarrow> bool \<times> bool \<times> bool" where
  "anchorAndNot l r =
     (case (l, r) of ((la, ls, lp), (ra, rs, rp)) \<Rightarrow>
        if rp then (la, ls, lp)
        else if lp then (False, False, True)
        else (la, \<not> la \<and> (ls \<or> rs), False))"

definition anchorOr :: "bool \<times> bool \<times> bool \<Rightarrow> bool \<times> bool \<times> bool \<Rightarrow> bool \<times> bool \<times> bool" where
  "anchorOr l r =
     (case (l, r) of ((la, ls, lp), (ra, rs, rp)) \<Rightarrow>
        if lp then (ra, rs, rp)
        else if rp then (la, ls, False)
        else (la \<and> ra, ls \<or> rs, False))"

definition anchorAnd :: "bool \<times> bool \<times> bool \<Rightarrow> bool \<times> bool \<times> bool \<Rightarrow> bool \<times> bool \<times> bool" where
  "anchorAnd l r =
     (case (l, r) of ((la, ls, lp), (ra, rs, rp)) \<Rightarrow>
        if lp then (ra, rs, rp)
        else if rp then (la, ls, False)
        else (la \<or> ra, \<not> (la \<or> ra) \<and> (ls \<or> rs), False))"

fun searchAnchor :: "ucd \<Rightarrow> search_expr \<Rightarrow> nat \<Rightarrow> bool \<times> bool \<times> bool" where
  "searchAnchor u NilExpr minTok = (False, False, True)"
| "searchAnchor u (SearchText text) minTok = textAnchor u text minTok"
| "searchAnchor u (SearchString tagType value) minTok =
     (if tagType = searchTypeText then textAnchor u value minTok else stringAnchor tagType)"
| "searchAnchor u (SearchUInt32 tagType value) minTok = numericAnchor tagType"
| "searchAnchor u (SearchUInt64 tagType value) minTok = numericAnchor tagType"
| "searchAnchor u (SearchHash hash sz) minTok = (True, False, False)"
| "searchAnchor u (SearchAndNot left right) minTok = anchorAndNot (searchAnchor u left minTok) (searchAnchor u right minTok)"
| "searchAnchor u (SearchOr left right) minTok = anchorOr (searchAnchor u left minTok) (searchAnchor u right minTok)"
| "searchAnchor u (SearchAnd left right) minTok = anchorAnd (searchAnchor u left minTok) (searchAnchor u right minTok)"
| "searchAnchor u (SearchRelated seeds) minTok = (False, False, True)"

definition SearchNeedsScan :: "ucd \<Rightarrow> search_expr \<Rightarrow> nat \<Rightarrow> bool" where
  "SearchNeedsScan u expr minTok = fst (snd (searchAnchor u expr minTok))"

subsection \<open>The matcher that remembers\<close>

text \<open>The reference: the value of a tree, with no matcher at all.\<close>

definition evalText :: "ucd \<Rightarrow> bytes \<Rightarrow> bytes \<Rightarrow> bool" where
  "evalText u text lowerName \<longleftrightarrow> leafRuns u text \<noteq> [] \<and> list_all (Contains lowerName) (leafRuns u text)"

fun evalNode :: "ucd \<Rightarrow> search_expr \<Rightarrow> storage_file \<Rightarrow> bytes \<Rightarrow> bool \<times> bool" where
  "evalNode u NilExpr file l = (False, True)"
| "evalNode u (SearchText text) file l = (evalText u text l, False)"
| "evalNode u (SearchString tagType value) file l =
     (if tagType = searchTypeText then (evalText u value l, False) else matchString u tagType value file)"
| "evalNode u (SearchUInt32 tagType value) file l = matchNumeric tagType value file"
| "evalNode u (SearchUInt64 tagType value) file l = matchNumeric tagType value file"
| "evalNode u (SearchHash hash sz) file l = (matchHashLeaf hash sz file, False)"
| "evalNode u (SearchAndNot left right) file l = matchAndNot (evalNode u left file l) (evalNode u right file l)"
| "evalNode u (SearchOr left right) file l = matchAndOr (\<or>) (evalNode u left file l) (evalNode u right file l)"
| "evalNode u (SearchAnd left right) file l = matchAndOr (\<and>) (evalNode u left file l) (evalNode u right file l)"
| "evalNode u (SearchRelated seeds) file l = (False, True)"

fun child :: "bool \<Rightarrow> search_expr \<Rightarrow> search_expr" where
  "child b (SearchAnd l r) = (if b then r else l)"
| "child b (SearchOr l r) = (if b then r else l)"
| "child b (SearchAndNot l r) = (if b then r else l)"
| "child b _ = NilExpr"

fun at_path :: "search_expr \<Rightarrow> bool list \<Rightarrow> search_expr" where
  "at_path e [] = e"
| "at_path e (b # p) = child b (at_path e p)"

definition leafText :: "search_expr \<Rightarrow> bytes option" where
  "leafText e = (case e of SearchText t \<Rightarrow> Some t | SearchString ty t \<Rightarrow> if ty = searchTypeText then Some t else None | _ \<Rightarrow> None)"

text \<open>What a matcher holds for a tree: the runs of its leaves and nothing else.\<close>

definition remembers :: "ucd \<Rightarrow> search_expr \<Rightarrow> matcher \<Rightarrow> bool" where
  "remembers u root sm \<longleftrightarrow> (\<forall>m p runs text. sm = Some m \<and> m p = Some runs \<and> leafText (at_path root p) = Some text \<longrightarrow> runs = leafRuns u text)"

lemma matchText_remembers:
  assumes "remembers u root sm" "leafText (at_path root p) = Some text"
  shows "\<exists>sm'. matchText u sm p text l = (evalText u text l, sm') \<and> remembers u root sm' \<and> (sm = None \<longrightarrow> sm' = None)"
proof (cases sm)
  case (Some m)
  show ?thesis
  proof (cases "m p")
    case None
    have "remembers u root (Some (m(p \<mapsto> leafRuns u text)))"
      using assms Some by (auto simp: remembers_def)
    then show ?thesis using Some None by (simp add: matchText_def textRuns_def evalText_def Let_def)
  next
    case (Some runs)
    then have "runs = leafRuns u text" using assms \<open>sm = Some m\<close> by (auto simp: remembers_def)
    then show ?thesis using Some \<open>sm = Some m\<close> assms by (simp add: matchText_def textRuns_def evalText_def)
  qed
qed (use assms in \<open>simp add: matchText_def textRuns_def evalText_def Let_def\<close>)

lemma matchNode_remembers:
  assumes "remembers u root sm" "at_path root p = e"
  shows "\<exists>sm'. matchNode u sm p e f l = (evalNode u e f l, sm') \<and> remembers u root sm' \<and> (sm = None \<longrightarrow> sm' = None)"
  using assms
proof (induction e arbitrary: sm p)
  case (SearchText t)
  then show ?case using matchText_remembers [of u root sm p t l] by (auto simp: leafText_def)
next
  case (SearchString ty t)
  then show ?case using matchText_remembers [of u root sm p t l] by (auto simp: leafText_def)
next
  case (SearchAnd a b)
  then have c: "at_path root (False # p) = a" "at_path root (True # p) = b" by simp_all
  from SearchAnd.IH(1) [OF SearchAnd.prems(1) c(1)] obtain sm1 where
    1: "matchNode u sm (False # p) a f l = (evalNode u a f l, sm1)" "remembers u root sm1" "sm = None \<longrightarrow> sm1 = None" by blast
  from SearchAnd.IH(2) [OF 1(2) c(2)] 1 show ?case by auto
next
  case (SearchOr a b)
  then have c: "at_path root (False # p) = a" "at_path root (True # p) = b" by simp_all
  from SearchOr.IH(1) [OF SearchOr.prems(1) c(1)] obtain sm1 where
    1: "matchNode u sm (False # p) a f l = (evalNode u a f l, sm1)" "remembers u root sm1" "sm = None \<longrightarrow> sm1 = None" by blast
  from SearchOr.IH(2) [OF 1(2) c(2)] 1 show ?case by auto
next
  case (SearchAndNot a b)
  then have c: "at_path root (False # p) = a" "at_path root (True # p) = b" by simp_all
  from SearchAndNot.IH(1) [OF SearchAndNot.prems(1) c(1)] obtain sm1 where
    1: "matchNode u sm (False # p) a f l = (evalNode u a f l, sm1)" "remembers u root sm1" "sm = None \<longrightarrow> sm1 = None" by blast
  from SearchAndNot.IH(2) [OF 1(2) c(2)] 1 show ?case by auto
qed auto

lemma remembers_None [simp]: "remembers u root None"
  by (simp add: remembers_def)

lemma matchNode_nil: "matchNode u None [] e f l = (evalNode u e f l, None)"
  using matchNode_remembers [of u e None "[]" e f l] by auto

lemma match_file_remembers:
  assumes "remembers u e sm"
  shows "\<exists>sm'. match_file u sm e f = (\<not> snd (evalNode u e f (ToLower u (f_Name f))) \<and> fst (evalNode u e f (ToLower u (f_Name f))), sm') \<and>
    remembers u e sm'"
  using matchNode_remembers [OF assms, of "[]" e f "ToLower u (f_Name f)"]
  by (cases "evalNode u e f (ToLower u (f_Name f))") (auto simp: match_file_def)

lemma MatchSearchExpr_eval:
  "MatchSearchExpr u e f \<longleftrightarrow> \<not> snd (evalNode u e f (ToLower u (f_Name f))) \<and> fst (evalNode u e f (ToLower u (f_Name f)))"
  by (cases e) (auto simp: MatchSearchExpr_def match_file_def matchNode_nil simp del: matchNode.simps split: prod.splits)

fun match_files :: "ucd \<Rightarrow> matcher \<Rightarrow> search_expr \<Rightarrow> storage_file list \<Rightarrow> bool list" where
  "match_files u sm e [] = []"
| "match_files u sm e (f # fs) = (case match_file u sm e f of (m, sm') \<Rightarrow> m # match_files u sm' e fs)"

text \<open>C19: A matcher used for a whole search, which splits each text leaf into its runs once, answers
  every file as the test that starts afresh for each file.
\<close>

theorem remembering_matcher:
  "match_files u (Some Map.empty) e fs = map (MatchSearchExpr u e) fs"
proof -
  have "remembers u e sm \<Longrightarrow> match_files u sm e fs = map (MatchSearchExpr u e) fs" for sm
  proof (induction fs arbitrary: sm)
    case (Cons f fs)
    from match_file_remembers [OF Cons.prems, of f] Cons.IH show ?case by (auto simp: MatchSearchExpr_eval)
  qed simp
  then show ?thesis by (simp add: remembers_def)
qed

subsection \<open>The three walks drop the same subtrees\<close>

lemma numeric_column: "numericValue tag file = None \<longleftrightarrow> sqlNumericColumn tag = None"
  by (simp add: numericValue_def sqlNumericColumn_def)

definition string_pruned :: "u32 \<Rightarrow> bool" where
  "string_pruned ty \<longleftrightarrow> ty \<noteq> searchTypeFileType \<and> ty \<noteq> searchTypeExt \<and> ty \<noteq> searchTypeCodec \<and>
     ty \<noteq> searchTypeArtist \<and> ty \<noteq> searchTypeAlbum \<and> ty \<noteq> searchTypeTitle"

definition numeric_pruned :: "u32 \<Rightarrow> bool" where
  "numeric_pruned ty \<longleftrightarrow> (case NumericTag ty of None \<Rightarrow> True | Some (tag, op) \<Rightarrow> sqlNumericColumn tag = None)"

lemma string_prune:
  "snd (matchString u ty v f) = string_pruned ty" "wn_prune (stringNode u ty v) = string_pruned ty"
  "snd (snd (stringAnchor ty)) = string_pruned ty"
  by (simp_all add: matchString_def stringNode_def stringAnchor_def mediaStringField_def prunedNode_def string_pruned_def)

lemma numeric_prune:
  "snd (matchNumeric ty w f) = numeric_pruned ty" "wn_prune (numericNode ty w) = numeric_pruned ty"
  "snd (snd (numericAnchor ty)) = numeric_pruned ty"
proof -
  show "snd (matchNumeric ty w f) = numeric_pruned ty"
  proof (cases "NumericTag ty")
    case (Some a)
    then show ?thesis using numeric_column [of "fst a" f]
      by (cases "numericValue (fst a) f") (auto simp: matchNumeric_def numeric_pruned_def case_prod_beta)
  qed (simp add: matchNumeric_def numeric_pruned_def)
qed (auto simp: numericNode_def numericAnchor_def numeric_pruned_def prunedNode_def split: option.splits)

lemma text_prune: "\<not> wn_prune (textNode u t d)" "\<not> snd (snd (textAnchor u t k))" "\<not> wn_prune (hashNode hash sz)"
  by (simp_all add: textNode_def ftLeaf_def contradictionNode_def textAnchor_def hashNode_def Let_def)

lemmas leaf_prune = string_prune numeric_prune text_prune

lemma prune_agrees:
  "wn_prune (buildSearchNode u e d) \<longleftrightarrow> snd (evalNode u e f l)" "snd (snd (searchAnchor u e k)) \<longleftrightarrow> snd (evalNode u e f l)"
proof (induction e)
  case (SearchAnd a b)
  {case 1 then show ?case using SearchAnd by (auto simp: combineAnd_def matchAndOr_def prunedNode_def contradictionNode_def joinWhereNodes_def split: prod.splits)}
  {case 2 then show ?case using SearchAnd by (auto simp: anchorAnd_def matchAndOr_def split: prod.splits)}
next
  case (SearchOr a b)
  {case 1 then show ?case using SearchOr by (auto simp: combineOr_def matchAndOr_def prunedNode_def contradictionNode_def joinWhereNodes_def split: prod.splits)}
  {case 2 then show ?case using SearchOr by (auto simp: anchorOr_def matchAndOr_def split: prod.splits)}
next
  case (SearchAndNot a b)
  {case 1 then show ?case using SearchAndNot by (auto simp: combineAndNot_def matchAndNot_def prunedNode_def contradictionNode_def contradiction_def joinWhereNodes_def split: prod.splits)}
  {case 2 then show ?case using SearchAndNot by (auto simp: anchorAndNot_def matchAndNot_def split: prod.splits)}
qed (auto simp: leaf_prune prunedNode_def)

subsection \<open>What the WHERE clause means\<close>

text \<open>
  The clause as a condition: leaves are the clauses of single leaves, the rest are joins.
  \<open>render\<close> prints it as \<open>joinWhereNodes\<close> does; \<open>holds\<close> is the truth of a leaf's clause for
  the row of a file, which is up to the database.
\<close>

datatype cond = CLeaf bytes "sql_arg list" | CAnd cond cond | COr cond cond | CAndNot cond cond

fun render :: "cond \<Rightarrow> where_node" where
  "render (CLeaf sql args) = \<lparr>wn_sql = sql, wn_args = args, wn_prune = False\<rparr>"
| "render (CAnd a b) = joinWhereNodes (render a) (render b) (str '' AND '')"
| "render (COr a b) = joinWhereNodes (render a) (render b) (str '' OR '')"
| "render (CAndNot a b) = joinWhereNodes (render a) (render b) (str '' AND NOT '')"

fun cond_holds :: "(bytes \<Rightarrow> sql_arg list \<Rightarrow> bool) \<Rightarrow> cond \<Rightarrow> bool" where
  "cond_holds holds (CLeaf sql args) = holds sql args"
| "cond_holds holds (CAnd a b) = (cond_holds holds a \<and> cond_holds holds b)"
| "cond_holds holds (COr a b) = (cond_holds holds a \<or> cond_holds holds b)"
| "cond_holds holds (CAndNot a b) = (cond_holds holds a \<and> \<not> cond_holds holds b)"

fun leaves :: "search_expr \<Rightarrow> search_expr list" where
  "leaves (SearchAnd a b) = leaves a @ leaves b"
| "leaves (SearchOr a b) = leaves a @ leaves b"
| "leaves (SearchAndNot a b) = leaves a @ leaves b"
| "leaves e = [e]"

fun is_leaf :: "search_expr \<Rightarrow> bool" where
  "is_leaf (SearchAnd a b) = False"
| "is_leaf (SearchOr a b) = False"
| "is_leaf (SearchAndNot a b) = False"
| "is_leaf e = True"

text \<open>The database tests a leaf as the memory engine does.\<close>

definition leaf_agrees :: "ucd \<Rightarrow> bytes \<Rightarrow> (bytes \<Rightarrow> sql_arg list \<Rightarrow> bool) \<Rightarrow> storage_file \<Rightarrow> search_expr \<Rightarrow> bool" where
  "leaf_agrees u d holds file e \<longleftrightarrow>
     (let n = buildSearchNode u e d in wn_prune n \<or> contradiction n \<or>
        holds (wn_sql n) (wn_args n) = fst (evalNode u e file (ToLower u (f_Name file))))"

text \<open>What a node stands for: nothing, a condition no file meets, or a condition.\<close>

definition node_means :: "where_node \<Rightarrow> bool \<times> bool \<Rightarrow> (bytes \<Rightarrow> sql_arg list \<Rightarrow> bool) \<Rightarrow> bool" where
  "node_means n v holds \<longleftrightarrow> (wn_prune n \<longleftrightarrow> snd v) \<and>
     (\<not> wn_prune n \<longrightarrow> (if wn_sql n = [] then wn_args n = [] \<and> \<not> fst v else \<exists>c. n = render c \<and> cond_holds holds c = fst v))"

lemma render_simps [simp]: "\<not> wn_prune (joinWhereNodes a b op)" "wn_sql (joinWhereNodes a b op) \<noteq> []"
  by (simp_all add: joinWhereNodes_def)

lemma node_means_cases:
  assumes "node_means n v holds"
  obtains "wn_prune n" "snd v" | "\<not> wn_prune n" "\<not> snd v" "contradiction n" "\<not> fst v" "n = contradictionNode"
  | c where "\<not> wn_prune n" "\<not> snd v" "\<not> contradiction n" "n = render c" "cond_holds holds c = fst v"
  using assms by (cases n) (auto simp: node_means_def contradiction_def contradictionNode_def split: if_splits)

lemma node_means_cond: "cond_holds holds c = m \<Longrightarrow> wn_sql (render c) \<noteq> [] \<Longrightarrow> \<not> wn_prune (render c) \<Longrightarrow> node_means (render c) (m, False) holds"
  by (auto simp: node_means_def)

lemma means_And:
  assumes "node_means a v holds" "node_means b w holds"
  shows "node_means (combineAnd a b) (matchAndOr (\<and>) v w) holds"
  using assms node_means_cond [of holds "CAnd _ _"]
  by (elim node_means_cases)
    (auto simp: combineAnd_def matchAndOr_def case_prod_beta node_means_def contradiction_def contradictionNode_def)

lemma means_Or:
  assumes "node_means a v holds" "node_means b w holds"
  shows "node_means (combineOr a b) (matchAndOr (\<or>) v w) holds"
  using assms node_means_cond [of holds "COr _ _"]
  by (elim node_means_cases)
    (auto simp: combineOr_def matchAndOr_def case_prod_beta node_means_def contradiction_def contradictionNode_def)

lemma means_AndNot:
  assumes "node_means a v holds" "node_means b w holds"
  shows "node_means (combineAndNot a b) (matchAndNot v w) holds"
  using assms node_means_cond [of holds "CAndNot _ _"]
  by (elim node_means_cases)
    (auto simp: combineAndNot_def matchAndNot_def case_prod_beta node_means_def contradiction_def contradictionNode_def prunedNode_def)

lemma node_means_leaf:
  assumes "leaf_agrees u d holds f e" "\<not> wn_prune (buildSearchNode u e d)" "wn_sql (buildSearchNode u e d) \<noteq> []"
    "fst (evalNode u e f (ToLower u (f_Name f))) = m"
  shows "\<exists>c. buildSearchNode u e d = render c \<and> cond_holds holds c = m"
  using assms
  by (intro exI [of _ "CLeaf (wn_sql (buildSearchNode u e d)) (wn_args (buildSearchNode u e d))"])
    (auto simp: leaf_agrees_def Let_def contradiction_def)

lemma leaf_sql:
  "wn_sql (textNode u t d) = [] \<longleftrightarrow> splitTerms t = []" "\<not> wn_prune (stringNode u ty v) \<Longrightarrow> wn_sql (stringNode u ty v) \<noteq> []"
  "\<not> wn_prune (numericNode ty w) \<Longrightarrow> wn_sql (numericNode ty w) \<noteq> []" "wn_sql (hashNode hash sz) \<noteq> []"
  "splitTerms t = [] \<Longrightarrow> wn_args (textNode u t d) = []" "splitTerms t = [] \<Longrightarrow> \<not> evalText u t l"
  by (auto simp: textNode_def contradictionNode_def ftLeaf_def Let_def stringNode_def numericNode_def hashNode_def prunedNode_def str_def
      evalText_def leafRuns_def split: if_splits option.splits prod.splits)

lemma leaf_means:
  assumes "leaf_agrees u d holds f e" "is_leaf e"
  shows "node_means (buildSearchNode u e d) (evalNode u e f (ToLower u (f_Name f))) holds"
proof -
  let ?n = "buildSearchNode u e d" and ?v = "evalNode u e f (ToLower u (f_Name f))"
  have "wn_args ?n = [] \<and> \<not> fst ?v" if "\<not> wn_prune ?n" "wn_sql ?n = []"
    using assms(2) that leaf_sql by (cases e) (auto simp: prunedNode_def split: if_splits)
  then show ?thesis
    using prune_agrees(1) [of u e d f] node_means_leaf [OF assms(1)] by (auto simp: node_means_def)
qed

lemma node_meaning:
  assumes "\<forall>e' \<in> set (leaves e). leaf_agrees u d holds f e'"
  shows "node_means (buildSearchNode u e d) (evalNode u e f (ToLower u (f_Name f))) holds"
  using assms
proof (induction e)
  case (SearchAnd a b)
  then show ?case using means_And by simp
next
  case (SearchOr a b)
  then show ?case using means_Or by simp
next
  case (SearchAndNot a b)
  then show ?case using means_AndNot by simp
qed (rule leaf_means; simp)+


definition ascii_ucd :: ucd where
  "ascii_ucd = \<lparr>u_letter = (\<lambda>_. False), u_digit = (\<lambda>_. False), u_lower = (\<lambda>r. r), u_fold = (\<lambda>_ _. False)\<rparr>"

text \<open>A row of the database for the witness: it holds the hash 1 1 ... 1 and the size 7.\<close>

definition sample_holds :: "bytes \<Rightarrow> sql_arg list \<Rightarrow> bool" where
  "sample_holds sql args \<longleftrightarrow> sql = str ''(f.hash = ? AND f.size = ?)'' \<and> args = [ArgBytes (replicate 16 1), ArgUint 7]"

definition row_file :: storage_file where
  "row_file = zero_file\<lparr>f_Hash := replicate 16 1, f_Size := 7\<rparr>"


subsection \<open>Placeholders\<close>

lemma count_JoinStr:
  "count_list (JoinStr sep xs) c = sum_list (map (\<lambda>x. count_list x c) xs) + (length xs - 1) * count_list sep c"
  by (induction sep xs rule: JoinStr.induct) simp_all

lemma count_str: "count_list (str s) 63 = count_list s CHR ''?''"
proof (induction s)
  case (Cons a s)
  have "(of_char a :: u8) = 63 \<longleftrightarrow> str [a] = str ''?''" by (simp add: str_def del: str_eq_iff)
  then have "(of_char a :: u8) = 63 \<longleftrightarrow> a = CHR ''?''" by simp
  then show ?case using Cons by (simp add: str_def)
qed (simp add: str_def)


lemma placeholders_ftLeaf: "count_list (wn_sql (ftLeaf u ts d)) 63 = length (wn_args (ftLeaf u ts d))"
  by (simp add: ftLeaf_def Let_def count_JoinStr count_str sum_list_triv comp_def)

lemma sqlOperators_count: "op \<le> SearchOpNotEqual \<Longrightarrow> count_list (sqlOperators ! unat op) 63 = 0"
proof -
  assume "op \<le> SearchOpNotEqual"
  then have "unat op \<le> 5" by (simp add: word_le_nat_alt)
  then have "unat op \<in> {0, 1, 2, 3, 4, 5}" by auto
  then show ?thesis by (auto simp: sqlOperators_def count_str)
qed

lemma placeholders_leaf:
  "count_list (wn_sql (textNode u t d)) 63 = length (wn_args (textNode u t d))"
  "count_list (wn_sql (stringNode u ty v)) 63 = length (wn_args (stringNode u ty v))"
  "count_list (wn_sql (numericNode ty w)) 63 = length (wn_args (numericNode ty w))"
  "count_list (wn_sql (hashNode hash sz)) 63 = length (wn_args (hashNode hash sz))"
  by (auto simp: textNode_def contradictionNode_def placeholders_ftLeaf Let_def stringNode_def mediaStringField_def prunedNode_def
      numericNode_def NumericTag_def sqlNumericColumn_def hashNode_def count_str sqlOperators_count not_less
      split: option.splits if_splits)

lemma placeholders_join:
  assumes "count_list op 63 = 0" "count_list (wn_sql a) 63 = length (wn_args a)" "count_list (wn_sql b) 63 = length (wn_args b)"
  shows "count_list (wn_sql (joinWhereNodes a b op)) 63 = length (wn_args (joinWhereNodes a b op))"
  using assms by (simp add: joinWhereNodes_def)

lemma placeholders_node: "count_list (wn_sql (buildSearchNode u e d)) 63 = length (wn_args (buildSearchNode u e d))"
  by (induction e)
    (auto simp: placeholders_leaf combineAnd_def combineOr_def combineAndNot_def prunedNode_def contradictionNode_def
      placeholders_join count_str)


subsection \<open>The scan guard\<close>

text \<open>An index finds the file through this leaf: a text leaf with a run long enough to look up, or a hash.\<close>

definition index_hit :: "ucd \<Rightarrow> nat \<Rightarrow> storage_file \<Rightarrow> bytes \<Rightarrow> search_expr \<Rightarrow> bool" where
  "index_hit u minTok f l e \<longleftrightarrow> fst (evalNode u e f l) \<and>
     ((\<exists>t. leafText e = Some t \<and> hasIndexableRun u (splitTerms t) minTok) \<or> (\<exists>hash sz. e = SearchHash hash sz))"

lemma anchored_leaf:
  assumes "fst (searchAnchor u e k)" "is_leaf e" "fst (evalNode u e f l)"
  shows "index_hit u k f l e"
  using assms leaf_sql(6) [of _ u l]
  by (cases e) (auto simp: index_hit_def leafText_def textAnchor_def stringAnchor_def numericAnchor_def Let_def
      split: if_splits option.splits)

lemma anchored_not_pruned: "fst (searchAnchor u e k) \<Longrightarrow> \<not> snd (snd (searchAnchor u e k))"
proof (induction e)
  case (SearchAnd a b)
  then show ?case by (auto simp: anchorAnd_def split: prod.splits if_splits)
next
  case (SearchOr a b)
  then show ?case by (auto simp: anchorOr_def split: prod.splits if_splits)
next
  case (SearchAndNot a b)
  then show ?case by (auto simp: anchorAndNot_def split: prod.splits if_splits)
qed (auto simp: textAnchor_def stringAnchor_def numericAnchor_def Let_def split: if_splits option.splits)

lemma walk_values:
  obtains la ls lp m where "searchAnchor u e k = (la, ls, lp)" "evalNode u e f l = (m, lp)"
  using prune_agrees(2) [of u e k f l] by (cases "searchAnchor u e k"; cases "evalNode u e f l") auto

lemma anchored_hit:
  assumes "fst (searchAnchor u e k)" "fst (evalNode u e f l)"
  shows "\<exists>e' \<in> set (leaves e). index_hit u k f l e'"
  using assms
proof (induction e)
  case (SearchAnd a b)
  obtain la ls lp lm where "searchAnchor u a k = (la, ls, lp)" "evalNode u a f l = (lm, lp)" by (rule walk_values)
  moreover obtain ra rs rp rm where "searchAnchor u b k = (ra, rs, rp)" "evalNode u b f l = (rm, rp)" by (rule walk_values)
  ultimately show ?case
    using SearchAnd anchored_not_pruned [of u a k] anchored_not_pruned [of u b k]
    by (auto simp: anchorAnd_def matchAndOr_def split: if_splits)
next
  case (SearchOr a b)
  obtain la ls lp lm where "searchAnchor u a k = (la, ls, lp)" "evalNode u a f l = (lm, lp)" by (rule walk_values)
  moreover obtain ra rs rp rm where "searchAnchor u b k = (ra, rs, rp)" "evalNode u b f l = (rm, rp)" by (rule walk_values)
  ultimately show ?case
    using SearchOr anchored_not_pruned [of u a k] anchored_not_pruned [of u b k]
    by (auto simp: anchorOr_def matchAndOr_def split: if_splits)
next
  case (SearchAndNot a b)
  obtain la ls lp lm where "searchAnchor u a k = (la, ls, lp)" "evalNode u a f l = (lm, lp)" by (rule walk_values)
  moreover obtain ra rs rp rm where "searchAnchor u b k = (ra, rs, rp)" "evalNode u b f l = (rm, rp)" by (rule walk_values)
  ultimately show ?case
    using SearchAndNot anchored_not_pruned [of u a k] anchored_not_pruned [of u b k]
    by (auto simp: anchorAndNot_def matchAndNot_def split: if_splits)
qed (use anchored_leaf in force)+

text \<open>C20: An anchored search touches only files an index lookup gives: every file the search matches
  is found through one of its leaves, a keyword with a run long enough for the full-text
  index or a file hash.
\<close>

theorem anchored_search_indexed:
  assumes "fst (searchAnchor u e minTok)" "MatchSearchExpr u e file"
  shows "\<exists>leaf \<in> set (leaves e). index_hit u minTok file (ToLower u (f_Name file)) leaf"
  using anchored_hit assms by (auto simp: MatchSearchExpr_eval)

theorem anchored_search_indexed_witness:
  "\<exists>leaf \<in> set (leaves (SearchAnd (SearchUInt32 0x02000101 3) (SearchHash (replicate 16 1) 7))).
     index_hit ascii_ucd 3 row_file (ToLower ascii_ucd (f_Name row_file)) leaf"
proof -
  let ?e = "SearchAnd (SearchUInt32 0x02000101 3) (SearchHash (replicate 16 1) 7)"
  have "MatchSearchExpr ascii_ucd ?e row_file"
    by (simp add: MatchSearchExpr_eval matchHashLeaf_def row_file_def zero_file_def matchAndOr_def matchNumeric_def NumericTag_def
        numericValue_def CompareSearchValue_def drop_bit_eq_div)
  then show ?thesis
    by (intro anchored_search_indexed) (simp add: anchorAnd_def numericAnchor_def split: option.split)
qed

subsection \<open>The special terms\<close>

lemma leadingDigits_colon [simp]: "leadingDigits (58 # s) = (0, 0)" "leadingDigits [] = (0, 0)"
  by (simp_all add: leadingDigits_def)

lemma hexHash_encode: "length h = 16 \<Longrightarrow> hexHash (hexEncode h @ s) = Some h"
  by (simp add: hexHash_def hexDecode_encode)

lemma hexHash_length: "hexHash s = Some h \<Longrightarrow> length h = 16"
  using length_hexDecode [of "take 32 s" h] by (auto simp: hexHash_def split: if_splits)

lemma printable_hex: "printable (hexEncode h)"
proof -
  have "33 \<le> c \<and> c \<le> 126" if "c \<in> set (hexEncode h)" for c
    using hexEncode_chars [OF that] by (auto simp: word_le_nat_alt)
  then show ?thesis by (simp add: printable_def)
qed

lemma ToLower_hex: "ToLower u (hexEncode h) = hexEncode h"
  using hexEncode_chars by (intro ToLower_ascii printable_hex) (force simp: word_le_nat_alt)

lemma relatedSeeds_length: "length (relatedSeeds n s) \<le> n"
  by (induction n s rule: relatedSeeds.induct) (auto simp: Let_def split: prod.splits option.splits)

lemma relatedSeeds_hash: "k \<in> set (relatedSeeds n s) \<Longrightarrow> length (fk_Hash k) = 16"
proof (induction n arbitrary: s)
  case (Suc room)
  obtain sz m where "leadingDigits s = (sz, m)" by fastforce
  then show ?case using Suc
    by (cases "hexHash (drop (m + 1) s)") (auto simp: Let_def dest: hexHash_length split: if_splits)
qed simp

text \<open>The entries as a client writes them: a colon, the hash in hex, entries separated by a colon.\<close>

definition relatedEntries :: "bytes list \<Rightarrow> bytes" where
  "relatedEntries hs = JoinStr [58] (map (\<lambda>h. 58 # hexEncode h) hs)"

lemma relatedSeeds_entries:
  assumes "\<forall>h \<in> set hs. length h = 16" "length hs \<le> n"
  shows "relatedSeeds n (relatedEntries hs) = map (\<lambda>h. \<lparr>fk_Hash = h, fk_Size = 0\<rparr>) hs"
  using assms
proof (induction hs arbitrary: n)
  case Nil
  then show ?case by (cases n) (simp_all add: relatedEntries_def)
next
  case (Cons h hs)
  then obtain m where n: "n = Suc m" by (cases n) auto
  have r: "relatedEntries (h # hs) = 58 # hexEncode h @ (if hs = [] then [] else 58 # relatedEntries hs)"
    by (cases hs) (simp_all add: relatedEntries_def)
  show ?case
    using Cons by (simp add: n r hexHash_encode)
qed

lemma EqualFold_refl: "EqualFold u s s"
  by (simp add: EqualFold_def foldRune_def list.rel_refl)

lemma printable_relatedEntries: "printable (relatedEntries hs)"
proof (induction hs)
  case (Cons h hs)
  then show ?case by (cases hs) (simp_all add: relatedEntries_def printable_hex)
qed (simp add: relatedEntries_def)

text \<open>C34: The terms clients send for a file hash and for a related search are read back: the hash
  term gives the hash with any size, a related search of up to 32 files gives them in
  order. And whatever a client sends, a term read as one of these names between one and
  32 files, by hashes of 16 bytes.
\<close>

theorem special_terms_round_trip:
  "(length h = 16 \<longrightarrow> ParseHashTerm u (str ''ed2k::'' @ hexEncode h) = Some (h, 0)) \<and>
   (hs \<noteq> [] \<and> length hs \<le> MaxRelatedSeeds \<and> (\<forall>h \<in> set hs. length h = 16) \<longrightarrow>
      ParseRelatedTerm u (str ''related:'' @ relatedEntries hs) = Some (map (\<lambda>h. \<lparr>fk_Hash = h, fk_Size = 0\<rparr>) hs)) \<and>
   (\<forall>t seeds. ParseRelatedTerm u t = Some seeds \<longrightarrow>
      0 < length seeds \<and> length seeds \<le> MaxRelatedSeeds \<and> (\<forall>k \<in> set seeds. length (fk_Hash k) = 16)) \<and>
   (\<forall>t hash size. ParseHashTerm u t = Some (hash, size) \<longrightarrow> length hash = 16)"
proof (intro conjI impI allI)
  assume h: "length h = 16"
  let ?t = "str ''ed2k::'' @ hexEncode h"
  have "printable ?t" by (simp add: printable_hex) (simp add: str_def)
  moreover have "ToLower u ?t = ?t"
  proof (rule ToLower_ascii [OF calculation])
    show "\<forall>c \<in> set ?t. \<not> (65 \<le> c \<and> c \<le> 90)"
      using hexEncode_chars [of _ h] by (fastforce simp: str_def word_le_nat_alt)
  qed
  ultimately show "ParseHashTerm u ?t = Some (h, 0)"
    using h hexHash_encode [of h "[]"] by (simp add: ParseHashTerm_def Let_def TrimSpace_printable HasPrefix_def str_def)
next
  assume hs: "hs \<noteq> [] \<and> length hs \<le> MaxRelatedSeeds \<and> (\<forall>h \<in> set hs. length h = 16)"
  let ?t = "str ''related:'' @ relatedEntries hs"
  have "printable ?t" by (simp add: printable_relatedEntries) (simp add: str_def)
  then show "ParseRelatedTerm u ?t = Some (map (\<lambda>h. \<lparr>fk_Hash = h, fk_Size = 0\<rparr>) hs)"
    using hs relatedSeeds_entries [of hs MaxRelatedSeeds]
    by (simp add: ParseRelatedTerm_def Let_def TrimSpace_printable EqualFold_refl del: MaxRelatedSeeds_def)
next
  fix t seeds assume "ParseRelatedTerm u t = Some seeds"
  then obtain s where "seeds = relatedSeeds MaxRelatedSeeds s" "seeds \<noteq> []"
    by (auto simp: ParseRelatedTerm_def Let_def split: if_splits simp del: MaxRelatedSeeds_def)
  then show "0 < length seeds" "length seeds \<le> MaxRelatedSeeds" "\<forall>k \<in> set seeds. length (fk_Hash k) = 16"
    using relatedSeeds_length [of MaxRelatedSeeds s] relatedSeeds_hash [of _ MaxRelatedSeeds s] by auto
next
  fix t hash sz assume "ParseHashTerm u t = Some (hash, sz)"
  then show "length hash = 16"
    by (auto simp: ParseHashTerm_def parseLinkTail_def hashTermPrefixes_def Let_def dest: hexHash_length
        split: if_splits prod.splits)
qed

theorem special_terms_round_trip_witness:
  "ParseHashTerm ascii_ucd (str ''ed2k::'' @ hexEncode (replicate 16 1)) = Some (replicate 16 1, 0) \<and>
   ParseRelatedTerm ascii_ucd (str ''related:'' @ relatedEntries [replicate 16 2, replicate 16 3]) =
     Some [\<lparr>fk_Hash = replicate 16 2, fk_Size = 0\<rparr>, \<lparr>fk_Hash = replicate 16 3, fk_Size = 0\<rparr>]"
  using special_terms_round_trip [of "replicate 16 1" ascii_ucd "[replicate 16 2, replicate 16 3]"] by force

end
