(* ===== verification/Search_Parse.thy ===== *)
theory Search_Parse
  imports Search_Match
begin

unbundle bit_operations_syntax

section \<open>Parsing a search request (ed2k/search.go)\<close>

text \<open>
  The prefix-coded search tree of a client. The parser counts nesting levels up to
  \<open>MaxSearchExprDepth\<close> and leaves up to \<open>MaxSearchExprLeaves\<close>; here it is given the levels that
  are left instead, which makes it structurally recursive. The leaf counter is a pointer
  in the code, here passed in and returned.

  Shown here: the parser never faults and never returns a tree beyond its limits, and it
  accepts and reads back every tree within them that a client writes.
\<close>

definition MaxSearchExprDepth :: nat where [simp]: "MaxSearchExprDepth = 24"
definition MaxSearchExprLeaves :: nat where [simp]: "MaxSearchExprLeaves = 64"

definition specialKeywordLeaf :: "ucd \<Rightarrow> bytes \<Rightarrow> search_expr option" where
  "specialKeywordLeaf u s =
     (case ParseRelatedTerm u s of
        Some seeds \<Rightarrow> Some (SearchRelated seeds)
      | None \<Rightarrow> (case ParseHashTerm u s of Some (hash, sz) \<Rightarrow> Some (SearchHash hash sz) | None \<Rightarrow> None))"

definition keywordLeaf :: "ucd \<Rightarrow> bytes \<Rightarrow> search_expr" where
  "keywordLeaf u s = (case specialKeywordLeaf u s of Some leaf \<Rightarrow> leaf | None \<Rightarrow> SearchText s)"

definition readSearchTagName :: "(u16 \<times> u8) io" where
  "readSearchTagName =
     bind_io GetUInt16LE (\<lambda>nameLen.
     bind_io (guard_remaining (unat nameLen)) (\<lambda>_.
     bind_io (Get (int (unat nameLen))) (\<lambda>name.
       ret (nameLen, if nameLen = 1 then name ! 0 else 0))))"

definition readSearchNumericType :: "u32 io" where
  "readSearchNumericType =
     bind_io GetUInt8 (\<lambda>op.
     bind_io readSearchTagName (\<lambda>(nameLen, code).
       ret (ucast op OR push_bit 8 (ucast nameLen) OR push_bit 24 (ucast code))))"

definition stringLeaf :: "ucd \<Rightarrow> bytes \<Rightarrow> u16 \<Rightarrow> u8 \<Rightarrow> search_expr" where
  "stringLeaf u s nameLen code =
     (let ty = ucast nameLen OR push_bit 16 (ucast code) :: u32
      in if ty = searchTypeText then
           (case specialKeywordLeaf u s of Some leaf \<Rightarrow> leaf | None \<Rightarrow> SearchString ty s)
         else SearchString ty s)"

definition boolNode :: "u8 \<Rightarrow> search_expr \<Rightarrow> search_expr \<Rightarrow> search_expr" where
  "boolNode op left right =
     (if op = 1 then SearchOr left right else if op = 2 then SearchAndNot left right else SearchAnd left right)"

fun parseSearchExpr :: "ucd \<Rightarrow> nat \<Rightarrow> nat \<Rightarrow> (search_expr \<times> nat) io" where
  "parseSearchExpr u 0 lvs = fail (ErrNew ''search expression nested deeper than 24 levels'')"
| "parseSearchExpr u (Suc room) lvs =
     bind_io GetUInt8 (\<lambda>token.
       let lvs = (if token \<noteq> 0 then lvs + 1 else lvs) in
       if token \<noteq> 0 \<and> lvs > MaxSearchExprLeaves then fail ErrSearchTooManyLeaves
       else if token = 1 then bind_io GetString (\<lambda>s. ret (keywordLeaf u s, lvs))
       else if token = TypeString then
         bind_io GetString (\<lambda>s. bind_io readSearchTagName (\<lambda>(nameLen, code). ret (stringLeaf u s nameLen code, lvs)))
       else if token = TypeUint32 then
         bind_io GetUInt32LE (\<lambda>v. bind_io readSearchNumericType (\<lambda>ty. ret (SearchUInt32 ty (ucast v), lvs)))
       else if token = 8 then
         bind_io GetUInt32LE (\<lambda>lo. bind_io GetUInt32LE (\<lambda>hi. bind_io readSearchNumericType (\<lambda>ty.
           ret (SearchUInt64 ty (ucast lo + push_bit 32 (ucast hi)), lvs))))
       else if token = 0 then
         bind_io GetUInt8 (\<lambda>op.
         bind_io (parseSearchExpr u room lvs) (\<lambda>(left, lvs).
         bind_io (parseSearchExpr u room lvs) (\<lambda>(right, lvs).
           ret (boolNode op left right, lvs))))
       else fail (ErrNew ''unknown search token''))"

definition ParseSearchExpr :: "ucd \<Rightarrow> search_expr io" where
  "ParseSearchExpr u = bind_io (parseSearchExpr u MaxSearchExprDepth 0) (\<lambda>(e, _). ret e)"

subsection \<open>Limits\<close>

fun height :: "search_expr \<Rightarrow> nat" where
  "height (SearchAnd a b) = Suc (max (height a) (height b))"
| "height (SearchOr a b) = Suc (max (height a) (height b))"
| "height (SearchAndNot a b) = Suc (max (height a) (height b))"
| "height e = 1"

lemma safe_case_prod [safe_intros]: "(\<And>a b. safe (f a b)) \<Longrightarrow> safe (case p of (a, b) \<Rightarrow> f a b)"
  by (cases p) simp

lemma safe_readSearchTagName [safe_intros]: "safe readSearchTagName"
  unfolding readSearchTagName_def by (intro safe_intros) simp

lemma safe_readSearchNumericType [safe_intros]: "safe readSearchNumericType"
  unfolding readSearchNumericType_def by (intro safe_intros)

lemma safe_parseSearchExpr [safe_intros]: "safe (parseSearchExpr u room lvs)"
proof (induction room arbitrary: lvs)
  case (Suc room)
  show ?case unfolding parseSearchExpr.simps by (intro safe_intros Suc)
qed (auto intro: safe_intros)

text \<open>What a reader returns when it returns.\<close>

definition yields :: "('a \<Rightarrow> bool) \<Rightarrow> 'a io \<Rightarrow> bool" where
  "yields P m \<longleftrightarrow> (\<forall>b v b'. m b = (Ok v, b') \<longrightarrow> P v)"

lemma yields_ret: "P v \<Longrightarrow> yields P (ret v)"
  by (simp add: yields_def ret_def)

lemma yields_fail: "yields P (fail e)"
  by (simp add: yields_def fail_def)

lemma yields_bind: "yields Q m \<Longrightarrow> (\<And>x. Q x \<Longrightarrow> yields P (f x)) \<Longrightarrow> yields P (bind_io m f)"
  unfolding yields_def bind_io_def by (fastforce split: prod.splits res.splits)

lemma yields_any: "(\<And>x. yields P (f x)) \<Longrightarrow> yields P (bind_io m f)"
  by (rule yields_bind [of "\<lambda>_. True"]) (auto simp: yields_def)

lemma yields_if: "(c \<Longrightarrow> yields P m) \<Longrightarrow> (\<not> c \<Longrightarrow> yields P m') \<Longrightarrow> yields P (if c then m else m')"
  by simp

lemma yields_prod: "(\<And>a b. p = (a, b) \<Longrightarrow> yields P (f a b)) \<Longrightarrow> yields P (case p of (a, b) \<Rightarrow> f a b)"
  by (cases p) simp

lemma boolNode_simps [simp]: "height (boolNode op l r) = Suc (max (height l) (height r))" "leaves (boolNode op l r) = leaves l @ leaves r"
  by (simp_all add: boolNode_def)

lemma leaf_simps [simp]: "height (keywordLeaf u s) = 1" "length (leaves (keywordLeaf u s)) = 1"
  "height (stringLeaf u s n c) = 1" "length (leaves (stringLeaf u s n c)) = 1" "NilExpr \<notin> set (leaves (keywordLeaf u s))"
  "NilExpr \<notin> set (leaves (stringLeaf u s n c))"
  by (auto simp: keywordLeaf_def stringLeaf_def specialKeywordLeaf_def Let_def split: option.splits)

definition within :: "nat \<Rightarrow> nat \<Rightarrow> search_expr \<times> nat \<Rightarrow> bool" where
  "within room lvs r \<longleftrightarrow> (case r of (e, lvs') \<Rightarrow> height e \<le> room \<and> lvs' = lvs + length (leaves e) \<and>
     (lvs \<le> MaxSearchExprLeaves \<longrightarrow> lvs' \<le> MaxSearchExprLeaves) \<and> NilExpr \<notin> set (leaves e))"

lemma within_pair: "within room lvs (e, lvs') \<longleftrightarrow> height e \<le> room \<and> lvs' = lvs + length (leaves e) \<and>
    (lvs \<le> MaxSearchExprLeaves \<longrightarrow> lvs' \<le> MaxSearchExprLeaves) \<and> NilExpr \<notin> set (leaves e)"
  by (simp add: within_def)

lemma parseSearchExpr_within: "yields (within room lvs) (parseSearchExpr u room lvs)"
proof (induction room arbitrary: lvs)
  case (Suc room)
  have sub: "yields (within (Suc room) lvs)
      (bind_io (parseSearchExpr u room lvs) (\<lambda>(left, lvs). bind_io (parseSearchExpr u room lvs) (\<lambda>(right, lvs).
         ret (boolNode op left right, lvs))))" for op
    by (intro yields_bind [OF Suc] yields_prod yields_ret) (auto simp: within_def)
  show ?case
    unfolding parseSearchExpr.simps Let_def using sub
    by (intro yields_any [of _ _ GetUInt8] yields_if yields_fail yields_any [of _ _ GetString] yields_any [of _ _ readSearchTagName]
        yields_any [of _ _ GetUInt32LE] yields_any [of _ _ readSearchNumericType] yields_prod yields_ret)
      (simp_all add: within_pair)
qed (simp add: yields_fail)



subsection \<open>Reading back what a client writes\<close>

text \<open>
  The bytes a client writes for a tree whose tags have one-byte names, and the leaves it
  can write so: a keyword that is none of the special terms, a string or numeric leaf
  whose type carries the one-byte name.
\<close>

definition enc_name :: "u8 \<Rightarrow> bytes" where
  "enc_name code = le_put 2 (1 :: u16) @ [code]"

definition enc_numeric :: "u32 \<Rightarrow> bytes" where
  "enc_numeric ty = le_put 1 (ucast ty :: u8) @ enc_name (ucast (drop_bit 24 ty))"

fun enc_expr :: "search_expr \<Rightarrow> bytes" where
  "enc_expr (SearchText s) = le_put 1 (1 :: u8) @ enc_string s"
| "enc_expr (SearchString ty s) = le_put 1 TypeString @ enc_string s @ enc_name (ucast (drop_bit 16 ty))"
| "enc_expr (SearchUInt32 ty v) = le_put 1 TypeUint32 @ le_put 4 (ucast v :: u32) @ enc_numeric ty"
| "enc_expr (SearchUInt64 ty v) =
     le_put 1 (8 :: u8) @ le_put 4 (ucast v :: u32) @ le_put 4 (ucast (drop_bit 32 v) :: u32) @ enc_numeric ty"
| "enc_expr (SearchAnd a b) = le_put 1 (0 :: u8) @ le_put 1 (0 :: u8) @ enc_expr a @ enc_expr b"
| "enc_expr (SearchOr a b) = le_put 1 (0 :: u8) @ le_put 1 (1 :: u8) @ enc_expr a @ enc_expr b"
| "enc_expr (SearchAndNot a b) = le_put 1 (0 :: u8) @ le_put 1 (2 :: u8) @ enc_expr a @ enc_expr b"
| "enc_expr _ = []"

definition name_type :: "u32 \<Rightarrow> bool" where
  "name_type ty \<longleftrightarrow> ty = 1 OR push_bit 16 (ucast (ucast (drop_bit 16 ty) :: u8))"

definition numeric_type :: "u32 \<Rightarrow> bool" where
  "numeric_type ty \<longleftrightarrow> ty = ucast (ucast ty :: u8) OR push_bit 8 1 OR push_bit 24 (ucast (ucast (drop_bit 24 ty) :: u8))"

fun writable :: "ucd \<Rightarrow> search_expr \<Rightarrow> bool" where
  "writable u (SearchText s) \<longleftrightarrow> length s < 65536 \<and> specialKeywordLeaf u s = None"
| "writable u (SearchString ty s) \<longleftrightarrow> length s < 65536 \<and> name_type ty"
| "writable u (SearchUInt32 ty v) \<longleftrightarrow> v = ucast (ucast v :: u32) \<and> numeric_type ty"
| "writable u (SearchUInt64 ty v) \<longleftrightarrow> numeric_type ty"
| "writable u (SearchAnd a b) \<longleftrightarrow> writable u a \<and> writable u b"
| "writable u (SearchOr a b) \<longleftrightarrow> writable u a \<and> writable u b"
| "writable u (SearchAndNot a b) \<longleftrightarrow> writable u a \<and> writable u b"
| "writable u _ \<longleftrightarrow> False"

lemma reads_bind_fin: "reads m xs v \<Longrightarrow> f v = ret w \<Longrightarrow> reads (bind_io m f) xs w"
  using reads_bind [of m xs v f "[]" w] by (simp add: reads_ret)

lemma reads_readSearchTagName: "reads readSearchTagName (enc_name code) (1, code)"
  unfolding readSearchTagName_def enc_name_def
proof (rule reads_bind [OF reads_GetUInt16LE], rule reads_guard_remaining)
  show "reads (bind_io (Get (int (unat (1 :: u16)))) (\<lambda>name. ret (1, if (1 :: u16) = 1 then name ! 0 else 0))) [code] (1, code)"
    using reads_bind_fin [OF reads_Get [of "[code]"], of "\<lambda>name. ret (1, name ! 0)" "(1, code)"] by simp
qed simp

lemma reads_readSearchNumericType:
  "numeric_type ty \<Longrightarrow> reads readSearchNumericType (enc_numeric ty) ty"
  unfolding readSearchNumericType_def enc_numeric_def
  by (rule reads_bind [OF reads_GetUInt8], rule reads_bind_fin [OF reads_readSearchTagName]) (simp add: numeric_type_def)

lemma split_u64: "ucast (ucast (v :: u64) :: u32) + push_bit 32 (ucast (ucast (drop_bit 32 v) :: u32)) = v"
proof -
  have "ucast (ucast v :: u32) + push_bit 32 (ucast (ucast (drop_bit 32 v) :: u32)) =
    ucast (ucast v :: u32) OR push_bit 32 (ucast (ucast (drop_bit 32 v) :: u32) :: u64)"
    by (rule disjunctive_add) (auto simp: bit_simps)
  also have "\<dots> = v" by (rule bit_word_eqI) (auto simp: bit_simps)
  finally show ?thesis .
qed

lemma stringLeaf_name_type:
  assumes "name_type ty"
  shows "stringLeaf u s 1 (ucast (drop_bit 16 ty)) = SearchString ty s"
proof -
  have ty: "1 OR push_bit 16 (ucast (ucast (drop_bit 16 ty) :: u8)) = ty"
    using assms by (simp add: name_type_def)
  have "\<not> bit ty 1" by (subst ty [symmetric]) (simp add: bit_simps)
  then have "ty \<noteq> searchTypeText" by auto
  then show ?thesis using ty by (simp add: stringLeaf_def Let_def)
qed

lemma reads_boolean:
  assumes "reads (parseSearchExpr u room lvs) (enc_expr a) (a, lvs')"
    "reads (parseSearchExpr u room lvs') (enc_expr b) (b, lvs'')"
  shows "reads (parseSearchExpr u (Suc room) lvs) (le_put 1 (0 :: u8) @ le_put 1 op @ enc_expr a @ enc_expr b) (boolNode op a b, lvs'')"
proof -
  have "reads (bind_io (parseSearchExpr u room lvs') (\<lambda>(right, lvs). ret (boolNode op a right, lvs))) (enc_expr b) (boolNode op a b, lvs'')"
    by (rule reads_bind_fin [OF assms(2)]) simp
  then have "reads (bind_io GetUInt8 (\<lambda>op. bind_io (parseSearchExpr u room lvs) (\<lambda>(left, lvs).
      bind_io (parseSearchExpr u room lvs) (\<lambda>(right, lvs). ret (boolNode op left right, lvs)))))
      (le_put 1 op @ enc_expr a @ enc_expr b) (boolNode op a b, lvs'')"
    by (intro reads_bind [OF reads_GetUInt8] reads_bind [OF assms(1)]) simp
  then show ?thesis
    unfolding parseSearchExpr.simps Let_def
    by (intro reads_bind [OF reads_GetUInt8]) (simp del: le_put.simps One_nat_def)
qed

lemma height_pos: "0 < height e"
  by (cases e) auto

lemma leaf_not_boolean: "height e = 1 \<Longrightarrow> e \<noteq> SearchAnd a b \<and> e \<noteq> SearchOr a b \<and> e \<noteq> SearchAndNot a b"
  using height_pos [of a] height_pos [of b] by (cases e) auto

lemma reads_leaf:
  assumes "height e = 1" "length (leaves e) = 1" "writable u e" "lvs < MaxSearchExprLeaves"
  shows "reads (parseSearchExpr u (Suc room) lvs) (enc_expr e) (e, lvs + 1)"
proof (cases e)
  case (SearchText s)
  have k: "reads (bind_io GetString (\<lambda>s. ret (keywordLeaf u s, lvs + 1))) (enc_string s) (e, lvs + 1)"
    by (rule reads_bind_fin [OF reads_GetString]) (use assms(3) SearchText in \<open>auto simp: keywordLeaf_def\<close>)
  show ?thesis unfolding parseSearchExpr.simps Let_def SearchText enc_expr.simps
    by (rule reads_bind [OF reads_GetUInt8]) (use assms SearchText k in \<open>simp del: le_put.simps\<close>)
next
  case (SearchString ty s)
  have "reads (bind_io readSearchTagName (\<lambda>(nameLen, code). ret (stringLeaf u s nameLen code, lvs + 1)))
      (enc_name (ucast (drop_bit 16 ty))) (e, lvs + 1)"
    by (rule reads_bind_fin [OF reads_readSearchTagName]) (use assms(3) SearchString in \<open>auto simp: stringLeaf_name_type\<close>)
  then have k: "reads (bind_io GetString (\<lambda>s. bind_io readSearchTagName (\<lambda>(nameLen, code). ret (stringLeaf u s nameLen code, lvs + 1))))
      (enc_string s @ enc_name (ucast (drop_bit 16 ty))) (e, lvs + 1)"
    by (intro reads_bind [OF reads_GetString]) (use assms(3) SearchString in auto)
  show ?thesis unfolding parseSearchExpr.simps Let_def SearchString enc_expr.simps
    by (rule reads_bind [OF reads_GetUInt8]) (use assms SearchString k in \<open>simp del: le_put.simps\<close>)
next
  case (SearchUInt32 ty v)
  have "reads (bind_io readSearchNumericType (\<lambda>ty. ret (SearchUInt32 ty (ucast (ucast v :: u32)), lvs + 1)))
      (enc_numeric ty) (e, lvs + 1)"
    by (rule reads_bind_fin [OF reads_readSearchNumericType]) (use assms(3) SearchUInt32 in auto)
  then have k: "reads (bind_io GetUInt32LE (\<lambda>v. bind_io readSearchNumericType (\<lambda>ty. ret (SearchUInt32 ty (ucast v), lvs + 1))))
      (le_put 4 (ucast v :: u32) @ enc_numeric ty) (e, lvs + 1)"
    by (intro reads_bind [OF reads_GetUInt32LE])
  show ?thesis unfolding parseSearchExpr.simps Let_def SearchUInt32 enc_expr.simps
    by (rule reads_bind [OF reads_GetUInt8]) (use assms SearchUInt32 k in \<open>simp del: le_put.simps\<close>)
next
  case (SearchUInt64 ty v)
  have "reads (bind_io readSearchNumericType (\<lambda>ty.
        ret (SearchUInt64 ty (ucast (ucast v :: u32) + push_bit 32 (ucast (ucast (drop_bit 32 v) :: u32))), lvs + 1)))
      (enc_numeric ty) (e, lvs + 1)"
    by (rule reads_bind_fin [OF reads_readSearchNumericType])
      (use assms(3) SearchUInt64 split_u64 [of v] in \<open>simp_all only: writable.simps\<close>)
  then have k: "reads (bind_io GetUInt32LE (\<lambda>lo. bind_io GetUInt32LE (\<lambda>hi. bind_io readSearchNumericType (\<lambda>ty.
        ret (SearchUInt64 ty (ucast lo + push_bit 32 (ucast hi)), lvs + 1)))))
      (le_put 4 (ucast v :: u32) @ le_put 4 (ucast (drop_bit 32 v) :: u32) @ enc_numeric ty) (e, lvs + 1)"
    by (intro reads_bind [OF reads_GetUInt32LE])
  show ?thesis unfolding parseSearchExpr.simps Let_def SearchUInt64 enc_expr.simps
    by (rule reads_bind [OF reads_GetUInt8]) (use assms SearchUInt64 k in \<open>simp del: le_put.simps\<close>)
qed (use assms leaf_not_boolean [OF assms(1)] in simp_all)

lemma reads_both:
  assumes "\<And>room lvs. height a \<le> room \<Longrightarrow> lvs + length (leaves a) \<le> MaxSearchExprLeaves \<Longrightarrow>
      reads (parseSearchExpr u room lvs) (enc_expr a) (a, lvs + length (leaves a))"
    "\<And>room lvs. height b \<le> room \<Longrightarrow> lvs + length (leaves b) \<le> MaxSearchExprLeaves \<Longrightarrow>
      reads (parseSearchExpr u room lvs) (enc_expr b) (b, lvs + length (leaves b))"
    "height (boolNode op a b) \<le> room" "lvs + length (leaves (boolNode op a b)) \<le> MaxSearchExprLeaves"
  shows "reads (parseSearchExpr u room lvs) (le_put 1 (0 :: u8) @ le_put 1 op @ enc_expr a @ enc_expr b)
    (boolNode op a b, lvs + length (leaves (boolNode op a b)))"
proof -
  obtain r where r: "room = Suc r" using assms(3) by (cases room) auto
  show ?thesis using reads_boolean [OF assms(1) assms(2), of r lvs op] assms(3,4) r
    by (simp add: add.assoc del: le_put.simps One_nat_def)
qed

lemma reads_parseSearchExpr:
  "writable u e \<Longrightarrow> height e \<le> room \<Longrightarrow> lvs + length (leaves e) \<le> MaxSearchExprLeaves \<Longrightarrow>
   reads (parseSearchExpr u room lvs) (enc_expr e) (e, lvs + length (leaves e))"
proof (induction e arbitrary: room lvs)
  case (SearchAnd a b)
  then show ?case using reads_both [of a u b 0 room lvs] by (simp add: boolNode_def del: le_put.simps One_nat_def)
next
  case (SearchOr a b)
  then show ?case using reads_both [of a u b 1 room lvs] by (simp add: boolNode_def del: le_put.simps One_nat_def)
next
  case (SearchAndNot a b)
  then show ?case using reads_both [of a u b 2 room lvs] by (simp add: boolNode_def del: le_put.simps One_nat_def)
next
  case (SearchText s)
  then show ?case using reads_leaf [of "SearchText s" u lvs "room - 1"] by (cases room) auto
next
  case (SearchString ty s)
  then show ?case using reads_leaf [of "SearchString ty s" u lvs "room - 1"] by (cases room) auto
next
  case (SearchUInt32 ty v)
  then show ?case using reads_leaf [of "SearchUInt32 ty v" u lvs "room - 1"] by (cases room) auto
next
  case (SearchUInt64 ty v)
  then show ?case using reads_leaf [of "SearchUInt64 ty v" u lvs "room - 1"] by (cases room) auto
qed simp_all

text \<open>C10: A search tree of keywords, one-byte-named constraints and boolean operators, nested at
  most 24 levels and with at most 64 leaves, is read back as the client wrote it, and
  the reader stops exactly at its end.
\<close>

theorem search_expr_round_trip:
  assumes "writable u e" "height e \<le> MaxSearchExprDepth" "length (leaves e) \<le> MaxSearchExprLeaves"
  shows "ParseSearchExpr u (buf_at pre (enc_expr e @ post)) = (Ok e, buf_at (pre @ enc_expr e) post)"
proof -
  have "reads (ParseSearchExpr u) (enc_expr e) e"
    unfolding ParseSearchExpr_def
    by (rule reads_bind_fin [OF reads_parseSearchExpr [OF assms(1,2)]]) (use assms(3) in auto)
  then show ?thesis by (rule readsD)
qed

theorem search_expr_round_trip_witness:
  "let e = SearchAnd (SearchString 0x00030001 (str ''Video'')) (SearchUInt32 0x02000101 7) in
   writable ascii_ucd e \<and> ParseSearchExpr ascii_ucd (buf_at [9] (enc_expr e @ [5])) = (Ok e, buf_at ([9] @ enc_expr e) [5])"
  using search_expr_round_trip [of ascii_ucd "SearchAnd (SearchString 0x00030001 (str ''Video'')) (SearchUInt32 0x02000101 7)" "[9]" "[5]"]
  by (simp add: Let_def name_type_def numeric_type_def str_def del: enc_expr.simps)

lemma reads_long_name:
  assumes "length name < 65536" "length name \<noteq> 1"
  shows "reads readSearchTagName (enc_string name) (of_nat (length name), 0)"
  unfolding readSearchTagName_def enc_string_def
proof (rule reads_bind [OF reads_GetUInt16LE], rule reads_guard_remaining)
  have u: "unat (of_nat (length name) :: u16) = length name" using assms by (simp add: unat_of_nat_lt)
  then have "(of_nat (length name) :: u16) \<noteq> 1" using assms by (metis unat_1)
  then show "reads (bind_io (Get (int (unat (of_nat (length name) :: u16)))) (\<lambda>bs. ret (of_nat (length name) :: u16,
      if (of_nat (length name) :: u16) = 1 then bs ! 0 else 0))) name (of_nat (length name), 0)"
    unfolding u by (intro reads_bind_fin [OF reads_Get]) simp
  show "unat (of_nat (length name) :: u16) \<le> length name" using u by simp
qed

lemma stringLeaf_long:
  fixes n :: u16
  shows "n \<noteq> 255 \<Longrightarrow> n \<noteq> 1 \<Longrightarrow> searchPrunes u (stringLeaf u s n 0)"
    "specialKeywordLeaf u s = None \<Longrightarrow> stringLeaf u s 255 0 = SearchString searchTypeText s"
proof -
  assume n: "n \<noteq> 255" "n \<noteq> 1"
  have un: "unat (ucast n :: u32) = unat n" by (simp add: unat_ucast_up)
  have lt: "unat (ucast n :: u32) < 65536" unfolding un using unsigned_less [of n, where 'a = nat] by simp
  have "(ucast n :: u32) \<noteq> 255" using n(1) un by (auto simp: word_unat_eq_iff)
  moreover have "(ucast n :: u32) \<noteq> k" if "65536 \<le> unat k" for k using lt that by auto
  ultimately show "searchPrunes u (stringLeaf u s n 0)"
    by (simp add: searchPrunes_def stringLeaf_def matchString_def)
qed (simp add: stringLeaf_def)

text \<open>C35: A string constraint whose tag name is not one byte long is read to its end and, but for
  one length, becomes a constraint no file is tested against: the matcher drops it. With
  a name of 255 bytes its type is the keyword marker, so its value is searched for as
  a keyword of the file names instead.
\<close>

theorem named_constraint_is_dropped:
  assumes "length s < 65536" "length name < 65536" "length name \<noteq> 1"
  shows "\<exists>e. ParseSearchExpr u (buf_at pre ((le_put 1 TypeString @ enc_string s @ enc_string name) @ post))
           = (Ok e, buf_at (pre @ le_put 1 TypeString @ enc_string s @ enc_string name) post) \<and>
         (if length name = 255 then specialKeywordLeaf u s = None \<longrightarrow> e = SearchString searchTypeText s
          else searchPrunes u e)"
proof -
  let ?n = "of_nat (length name) :: u16" and ?room = "23 :: nat"
  have "reads (bind_io readSearchTagName (\<lambda>(nameLen, code). ret (stringLeaf u s nameLen code, 1 :: nat)))
      (enc_string name) (stringLeaf u s ?n 0, 1)"
    by (rule reads_bind_fin [OF reads_long_name]) (use assms in auto)
  then have "reads (bind_io GetString (\<lambda>s. bind_io readSearchTagName (\<lambda>(nameLen, code). ret (stringLeaf u s nameLen code, 1 :: nat))))
      (enc_string s @ enc_string name) (stringLeaf u s ?n 0, 1)"
    by (intro reads_bind [OF reads_GetString]) (use assms in auto)
  then have "reads (parseSearchExpr u (Suc ?room) 0) (le_put 1 TypeString @ enc_string s @ enc_string name) (stringLeaf u s ?n 0, 1)"
    unfolding parseSearchExpr.simps Let_def by (intro reads_bind [OF reads_GetUInt8]) (simp del: le_put.simps)
  from reads_bind_fin [OF this, of "\<lambda>(e, _). ret e"]
  have "reads (ParseSearchExpr u) (le_put 1 TypeString @ enc_string s @ enc_string name) (stringLeaf u s ?n 0)"
    by (simp add: ParseSearchExpr_def numeral_eq_Suc)
  note parsed = readsD [OF this, of pre post]
  have "unat ?n = length name" using assms by (simp add: unat_of_nat_lt)
  then have "?n \<noteq> 1" "?n = 255 \<longleftrightarrow> length name = 255" using assms by (auto simp: word_unat_eq_iff)
  then have "if length name = 255 then specialKeywordLeaf u s = None \<longrightarrow> stringLeaf u s ?n 0 = SearchString searchTypeText s
      else searchPrunes u (stringLeaf u s ?n 0)"
    using stringLeaf_long(1) [of ?n u s] stringLeaf_long(2) [of u s] by auto
  with parsed show ?thesis by blast
qed

theorem named_constraint_is_dropped_witness:
  "(\<exists>e b'. ParseSearchExpr ascii_ucd (buf_at [] ((le_put 1 TypeString @ enc_string (str ''x'') @ enc_string (str ''abc'')) @ [])) = (Ok e, b') \<and>
      searchPrunes ascii_ucd e) \<and>
   (\<exists>b'. ParseSearchExpr ascii_ucd (buf_at [] ((le_put 1 TypeString @ enc_string [] @ enc_string (replicate 255 97)) @ [])) =
      (Ok (SearchString searchTypeText []), b'))"
proof
  show "\<exists>e b'. ParseSearchExpr ascii_ucd (buf_at [] ((le_put 1 TypeString @ enc_string (str ''x'') @ enc_string (str ''abc'')) @ [])) = (Ok e, b') \<and>
      searchPrunes ascii_ucd e"
    using named_constraint_is_dropped [of "str ''x''" "str ''abc''" ascii_ucd "[]" "[]"] by (force simp: str_def)
  have "specialKeywordLeaf ascii_ucd [] = None" by code_simp
  then show "\<exists>b'. ParseSearchExpr ascii_ucd (buf_at [] ((le_put 1 TypeString @ enc_string [] @ enc_string (replicate 255 97)) @ [])) =
      (Ok (SearchString searchTypeText []), b')"
    using named_constraint_is_dropped [of "[]" "replicate 255 97" ascii_ucd "[]" "[]"] by force
qed

end
