(* ===== verification/LowId_Clients.thy ===== *)
theory LowId_Clients
  imports Net_Address
begin

unbundle bit_operations_syntax

section \<open>LowID allocation (ed2k/lowidclients.go)\<close>

text \<open>
  The identifiers handed to firewalled clients. An identifier is found by probing: the
  FNV-1a hash of the client's address and a counter, reduced to the identifiers of the
  wanted parity. The map of clients is a partial function, the client value a type
  parameter; counters keep their 32 bits.

  Shown here: over every sequence of operations the counters agree with the map and every
  identifier is a valid LowID; a granted identifier was free, lies in the configured range
  and has the parity asked for, and nobody else loses theirs; a range is reported full
  without probing exactly when it is; but probing can also miss a free identifier.
\<close>

record 'c lowid_clients =
  l_min :: u32
  l_max :: u32
  l_count :: u32
  l_oddCount :: u32
  l_allowLowIDs :: bool
  l_clients :: "u32 \<Rightarrow> 'c option"

definition LowIDAnyParity :: int where [simp]: "LowIDAnyParity = - 1"
definition LowIDEvenParity :: int where [simp]: "LowIDEvenParity = 0"
definition LowIDOddParity :: int where [simp]: "LowIDOddParity = 1"
definition lowIDCeiling :: u32 where [simp]: "lowIDCeiling = 0xffffff"

definition NewLowIDClients :: "bool \<Rightarrow> u32 \<Rightarrow> u32 \<Rightarrow> 'c lowid_clients" where
  "NewLowIDClients allow mn mx =
     (let mn = (if mn = 0 then 1 else mn);
          mx = (if mx = 0 \<or> mx > lowIDCeiling then lowIDCeiling else mx);
          (mn, mx) = (if mn > mx then (1, lowIDCeiling) else (mn, mx))
      in \<lparr>l_min = mn, l_max = mx, l_count = 0, l_oddCount = 0, l_allowLowIDs = allow, l_clients = (\<lambda>_. None)\<rparr>)"

definition rangeSizeLocked :: "'c lowid_clients \<Rightarrow> u32" where
  "rangeSizeLocked l = l_max l - l_min l + 1"

definition fnv32a :: "bytes \<Rightarrow> u32" where
  "fnv32a bs = foldl (\<lambda>h b. (h XOR ucast b) * 0x01000193) 0x811c9dc5 bs"

definition hashLowIDSeed :: "bytes \<Rightarrow> u32 \<Rightarrow> u32" where
  "hashLowIDSeed key nonce = fnv32a (key @ le_put 4 nonce) AND 0x00ffffff"

definition paritySpanLocked :: "'c lowid_clients \<Rightarrow> int \<Rightarrow> u32 \<times> u32" where
  "paritySpanLocked l parity =
     (if parity = LowIDAnyParity then (l_min l, rangeSizeLocked l)
      else let first = (if uint (l_min l AND 1) \<noteq> parity then l_min l + 1 else l_min l)
           in if first > l_max l then (first, 0) else (first, (l_max l - first) div 2 + 1))"

definition usedLocked :: "'c lowid_clients \<Rightarrow> int \<Rightarrow> u32" where
  "usedLocked l parity =
     (if parity = LowIDOddParity then l_oddCount l
      else if parity = LowIDEvenParity then l_count l - l_oddCount l
      else l_count l)"

definition putLocked :: "u32 \<Rightarrow> 'c \<Rightarrow> 'c lowid_clients \<Rightarrow> 'c lowid_clients" where
  "putLocked lid client l =
     l\<lparr>l_clients := (l_clients l)(lid \<mapsto> client), l_count := l_count l + 1,
       l_oddCount := (if lid AND 1 = 1 then l_oddCount l + 1 else l_oddCount l)\<rparr>"

function probeLowID :: "(u32 \<Rightarrow> 'c option) \<Rightarrow> bytes \<Rightarrow> u32 \<Rightarrow> u32 \<Rightarrow> u32 \<Rightarrow> u32 \<Rightarrow> u32 option" where
  "probeLowID clients key first step span nonce =
     (if nonce < span then
        let lid = first + step * (hashLowIDSeed key nonce mod span)
        in if clients lid \<noteq> None then probeLowID clients key first step span (nonce + 1) else Some lid
      else None)"
  by pat_completeness auto
termination
proof (relation "measure (\<lambda>(_, _, _, _, span, nonce). unat span - unat nonce)", goal_cases)
  case (2 clients key first step span nonce)
  then have "unat nonce < unat span" by (simp add: word_less_nat_alt)
  moreover from this have "unat (nonce + 1) = unat nonce + 1"
    using unsigned_less [of span, where 'a = nat] by (simp add: unat_word_ariths)
  ultimately show ?case by simp
qed simp

declare probeLowID.simps [simp del]

definition addByKeyLocked :: "bytes \<Rightarrow> 'c \<Rightarrow> int \<Rightarrow> 'c lowid_clients \<Rightarrow> (u32 \<times> bool) \<times> 'c lowid_clients" where
  "addByKeyLocked key client parity l =
     (if \<not> l_allowLowIDs l then ((0, False), l)
      else let (first, span) = paritySpanLocked l parity in
        if span = 0 \<or> usedLocked l parity \<ge> span then ((0, False), l)
        else let step = (if parity \<noteq> LowIDAnyParity then 2 else 1) in
          case probeLowID (l_clients l) key first step span 0 of
            Some lid \<Rightarrow> ((lid, True), putLocked lid client l)
          | None \<Rightarrow> ((0, False), l))"

definition lowid_Add :: "'c \<Rightarrow> 'c lowid_clients \<Rightarrow> (u32 \<times> bool) \<times> 'c lowid_clients" where
  "lowid_Add client = addByKeyLocked (str ''lowid-default-seed'') client LowIDAnyParity"

definition endpointKey :: "u32 \<Rightarrow> u16 \<Rightarrow> bytes" where
  "endpointKey ipv4 port = le_put 4 ipv4 @ le_put 2 port"

definition AddByEndpoint :: "u32 \<Rightarrow> u16 \<Rightarrow> 'c \<Rightarrow> 'c lowid_clients \<Rightarrow> (u32 \<times> bool) \<times> 'c lowid_clients" where
  "AddByEndpoint ipv4 port client = addByKeyLocked (endpointKey ipv4 port) client LowIDAnyParity"

definition AddByAddress :: "bytes \<Rightarrow> u32 \<Rightarrow> u16 \<Rightarrow> 'c \<Rightarrow> int \<Rightarrow> 'c lowid_clients \<Rightarrow> (u32 \<times> bool) \<times> 'c lowid_clients" where
  "AddByAddress ip ipv4 port client parity =
     (case IPv6Bytes ip of
        Some b \<Rightarrow> addByKeyLocked (b @ le_put 2 port) client parity
      | None \<Rightarrow> addByKeyLocked (endpointKey ipv4 port) client parity)"

definition lowid_Get :: "u32 \<Rightarrow> 'c lowid_clients \<Rightarrow> 'c option" where
  "lowid_Get lid l = l_clients l lid"

definition lowid_Restore :: "u32 \<Rightarrow> 'c \<Rightarrow> 'c lowid_clients \<Rightarrow> bool \<times> 'c lowid_clients" where
  "lowid_Restore lid client l =
     (if lid = 0 \<or> lid > lowIDCeiling then (False, l)
      else if l_clients l lid \<noteq> None then (False, l)
      else (True, putLocked lid client l))"

definition lowid_Remove :: "u32 \<Rightarrow> 'c lowid_clients \<Rightarrow> 'c lowid_clients" where
  "lowid_Remove lid l =
     (if l_clients l lid \<noteq> None then
        l\<lparr>l_clients := (l_clients l)(lid := None), l_count := l_count l - 1,
          l_oddCount := (if lid AND 1 = 1 then l_oddCount l - 1 else l_oddCount l)\<rparr>
      else l)"

text \<open>A sequence of calls on the allocator.\<close>

datatype 'c lowid_op = OpAdd bytes u32 u16 'c int | OpRestore u32 'c | OpRemove u32

fun lowid_step :: "'c lowid_op \<Rightarrow> 'c lowid_clients \<Rightarrow> 'c lowid_clients" where
  "lowid_step (OpAdd ip ipv4 port c parity) l = snd (AddByAddress ip ipv4 port c parity l)"
| "lowid_step (OpRestore lid c) l = snd (lowid_Restore lid c l)"
| "lowid_step (OpRemove lid) l = lowid_Remove lid l"

subsection \<open>Counters and identifiers\<close>

definition parity_ids :: "'c lowid_clients \<Rightarrow> int \<Rightarrow> u32 set" where
  "parity_ids l parity = {lid \<in> {l_min l .. l_max l}. parity = LowIDAnyParity \<or> uint (lid AND 1) = parity}"

definition lowid_inv :: "'c lowid_clients \<Rightarrow> bool" where
  "lowid_inv l \<longleftrightarrow> 1 \<le> l_min l \<and> l_min l \<le> l_max l \<and> l_max l \<le> lowIDCeiling \<and>
     dom (l_clients l) \<subseteq> {1 .. lowIDCeiling} \<and>
     unat (l_count l) = card (dom (l_clients l)) \<and>
     unat (l_oddCount l) = card {lid \<in> dom (l_clients l). lid AND 1 = 1}"

lemma lowid_inv_New: "lowid_inv (NewLowIDClients allow mn mx)"
proof -
  have "mn \<noteq> 0 \<Longrightarrow> 1 \<le> mn" by (simp add: word_le_nat_alt word_unat_eq_iff)
  then show ?thesis
    by (auto simp: lowid_inv_def NewLowIDClients_def Let_def not_le not_less split: if_splits)
qed

lemma card_ids: "A \<subseteq> {1 .. lowIDCeiling} \<Longrightarrow> card A \<le> 0xffffff"
proof -
  assume A: "A \<subseteq> {1 .. lowIDCeiling}"
  have "A \<subseteq> of_nat ` {1 .. 0xffffff}"
  proof
    fix x assume "x \<in> A"
    then have "1 \<le> unat x" "unat x \<le> 0xffffff" using A by (auto simp: word_le_nat_alt)
    then show "x \<in> of_nat ` {1 .. 0xffffff}" by (intro image_eqI [of _ _ "unat x"]) auto
  qed
  from card_mono [OF _ this] card_image_le [of "{1 .. 0xffffff :: nat}" "of_nat :: nat \<Rightarrow> u32"] show ?thesis by simp
qed

lemma odd_insert: "{x \<in> insert a A. P x} = (if P a then insert a {x \<in> A. P x} else {x \<in> A. P x})"
  by auto

lemma odd_remove: "{x \<in> A - {a}. P x} = {x \<in> A. P x} - {a}"
  by auto

lemma lowid_inv_finite: "lowid_inv l \<Longrightarrow> finite (dom (l_clients l))"
  by (auto simp: lowid_inv_def intro: finite_subset)

lemma unat_inc: "unat (n :: u32) \<le> 0xffffff \<Longrightarrow> unat (n + 1) = unat n + 1"
  by (simp add: unat_word_ariths)

lemma unat_dec: "0 < unat (n :: u32) \<Longrightarrow> unat (n - 1) = unat n - 1"
  by (simp add: unat_sub word_le_nat_alt)

lemma lowid_inv_put:
  assumes "lowid_inv l" "l_clients l lid = None" "1 \<le> lid" "lid \<le> lowIDCeiling"
  shows "lowid_inv (putLocked lid c l)"
proof -
  let ?D = "dom (l_clients l)"
  note inv = assms(1) [unfolded lowid_inv_def]
  have new: "lid \<notin> ?D" using assms(2) by auto
  have le: "card {x \<in> ?D. x AND 1 = 1} \<le> 0xffffff" "card ?D \<le> 0xffffff"
    using inv by (auto intro!: card_ids)
  have "unat (l_count l + 1) = card (insert lid ?D)"
    using inv le new lowid_inv_finite [OF assms(1)] by (simp add: unat_inc)
  moreover have "unat (if lid AND 1 = 1 then l_oddCount l + 1 else l_oddCount l) = card {x \<in> insert lid ?D. x AND 1 = 1}"
    unfolding odd_insert using inv le new lowid_inv_finite [OF assms(1)] by (simp add: unat_inc)
  ultimately show ?thesis using inv assms(3,4) by (simp add: lowid_inv_def putLocked_def)
qed

lemma lowid_inv_Remove:
  assumes "lowid_inv l"
  shows "lowid_inv (lowid_Remove lid l)"
proof (cases "l_clients l lid")
  case (Some c)
  let ?D = "dom (l_clients l)"
  note inv = assms [unfolded lowid_inv_def]
  have old: "lid \<in> ?D" using Some by auto
  have pos: "0 < card ?D" "lid AND 1 = 1 \<Longrightarrow> 0 < card {x \<in> ?D. x AND 1 = 1}"
    using old lowid_inv_finite [OF assms] by (auto simp: card_gt_0_iff)
  have "unat (l_count l - 1) = card (?D - {lid})"
    using inv pos old lowid_inv_finite [OF assms] by (simp add: unat_dec)
  moreover have "unat (if lid AND 1 = 1 then l_oddCount l - 1 else l_oddCount l) = card {x \<in> ?D - {lid}. x AND 1 = 1}"
    unfolding odd_remove using inv pos old lowid_inv_finite [OF assms] by (simp add: unat_dec card_Diff_singleton_if)
  moreover have "?D - {lid} \<subseteq> {1 .. lowIDCeiling}" using inv by auto
  ultimately show ?thesis using inv Some by (simp add: lowid_inv_def lowid_Remove_def dom_fun_upd)
qed (use assms in \<open>simp add: lowid_Remove_def\<close>)

lemma probe_Some:
  "probeLowID clients key first step span nonce = Some lid \<Longrightarrow>
     clients lid = None \<and> (\<exists>n < span. lid = first + step * (hashLowIDSeed key n mod span))"
proof (induction clients key first step span nonce rule: probeLowID.induct)
  case (1 clients key first step span nonce)
  then show ?case
    by (cases "nonce < span"; cases "clients (first + step * (hashLowIDSeed key nonce mod span))")
      (auto simp: Let_def probeLowID.simps [of clients key first step span nonce])
qed

lemma probe_None:
  "probeLowID clients key first step span nonce = None \<Longrightarrow> nonce \<le> n \<Longrightarrow> n < span \<Longrightarrow>
     clients (first + step * (hashLowIDSeed key n mod span)) \<noteq> None"
proof (induction clients key first step span nonce rule: probeLowID.induct)
  case (1 clients key first step span nonce)
  let ?i = "first + step * (hashLowIDSeed key nonce mod span)"
  have lt: "nonce < span" using "1.prems" by simp
  then have taken: "clients ?i \<noteq> None" "probeLowID clients key first step span (nonce + 1) = None"
    using "1.prems"(1) by (auto simp: Let_def probeLowID.simps [of clients key first step span nonce] split: if_splits)
  show ?case
  proof (cases "n = nonce")
    case False
    then have "nonce + 1 \<le> n" using "1.prems"(2) by (simp add: inc_le)
    then show ?thesis using "1.IH" [OF lt refl] taken "1.prems"(3) by blast
  qed (use taken in simp)
qed

lemma parity_bit: "uint ((x :: u32) AND 1) = int (unat x mod 2)"
  by (simp add: and_one_eq uint_mod zmod_int)

lemma odd_bit: "(x :: u32) AND 1 = 1 \<longleftrightarrow> odd (unat x)"
  using parity_bit [of x] by (auto simp: word_uint_eq_iff odd_iff_mod_2_eq_one)

text \<open>The identifiers a request competes for, as numbers.\<close>

lemma unat_image:
  "unat ` {x \<in> {a .. b}. P (unat x)} = {n \<in> {unat (a :: u32) .. unat b}. P n}"
proof (intro equalityI subsetI)
  fix n assume n: "n \<in> {n \<in> {unat a .. unat b}. P n}"
  then have "n < 2 ^ 32" using unsigned_less [of b, where 'a = nat] by auto
  then have "unat (of_nat n :: u32) = n" by (simp add: unat_of_nat_lt)
  then show "n \<in> unat ` {x \<in> {a .. b}. P (unat x)}"
    using n by (intro image_eqI [of _ _ "of_nat n"]) (auto simp: word_le_nat_alt)
qed (auto simp: word_le_nat_alt)

lemma residues:
  fixes mn mx p :: nat
  assumes "p < 2"
  defines "f \<equiv> if mn mod 2 \<noteq> p then mn + 1 else mn"
  shows "{n \<in> {mn .. mx}. n mod 2 = p} = (\<lambda>k. f + 2 * k) ` {..< (if f > mx then 0 else (mx - f) div 2 + 1)}"
proof (intro equalityI subsetI)
  have f: "mn \<le> f" "f mod 2 = p" using assms(1) by (auto simp: f_def mod_Suc)
  {
  fix n assume n: "n \<in> {n \<in> {mn .. mx}. n mod 2 = p}"
  then have le: "f \<le> n" by (cases "n = mn") (auto simp: f_def)
  have "2 dvd n - f" using mod_eq_dvd_iff_nat [OF le, of 2] n f(2) by simp
  then have "n = f + 2 * ((n - f) div 2)" using le by simp
  moreover have "(n - f) div 2 < (if f > mx then 0 else (mx - f) div 2 + 1)"
    using n le by (auto simp: less_Suc_eq_le intro: div_le_mono)
  ultimately show "n \<in> (\<lambda>k. f + 2 * k) ` {..< (if f > mx then 0 else (mx - f) div 2 + 1)}" by blast
  }
  fix n assume "n \<in> (\<lambda>k. f + 2 * k) ` {..< (if f > mx then 0 else (mx - f) div 2 + 1)}"
  then obtain k where k: "n = f + 2 * k" "f \<le> mx" "k \<le> (mx - f) div 2" by (auto split: if_splits)
  then have "n \<le> mx" by auto
  then show "n \<in> {n \<in> {mn .. mx}. n mod 2 = p}" using k(1) f by auto
qed

lemma interval_image: "a \<le> b \<Longrightarrow> {a .. b} = (\<lambda>k. a + k) ` {..< b - a + 1}" for a b :: nat
proof (intro equalityI subsetI)
  fix x assume "x \<in> {a .. b}"
  then show "x \<in> (\<lambda>k. a + k) ` {..< b - a + 1}" by (intro image_eqI [of _ _ "x - a"]) auto
qed auto

lemma span_nat:
  assumes "lowid_inv l" "parity \<in> {- 1, 0, 1}" "paritySpanLocked l parity = (first, span)"
  defines "st \<equiv> if parity \<noteq> LowIDAnyParity then 2 else 1 :: nat"
  shows "unat ` parity_ids l parity = (\<lambda>k. unat first + st * k) ` {..< unat span}"
proof (cases "parity = LowIDAnyParity")
  case True
  have le: "unat (l_min l) \<le> unat (l_max l)" "unat (l_max l) \<le> 0xffffff"
    using assms(1) by (simp_all add: lowid_inv_def word_le_nat_alt)
  have "unat span = unat (l_max l) - unat (l_min l) + 1" "first = l_min l"
    using assms(3) True le by (auto simp: paritySpanLocked_def rangeSizeLocked_def unat_inc unat_sub word_le_nat_alt)
  moreover note interval_image [OF le(1)]
  ultimately show ?thesis using True le unat_image [of "l_min l" "l_max l" "\<lambda>_. True"]
    by (simp add: parity_ids_def st_def)
next
  case False
  then obtain p where p: "parity = int p" "p < 2" using assms(2) by force
  let ?mn = "unat (l_min l)" and ?mx = "unat (l_max l)"
  have le: "?mn \<le> ?mx" "?mx \<le> 0xffffff"
    using assms(1) by (simp_all add: lowid_inv_def word_le_nat_alt)
  have f: "unat first = (if ?mn mod 2 \<noteq> p then ?mn + 1 else ?mn)"
    using assms(3) False p le by (auto simp: paritySpanLocked_def Let_def parity_bit unat_inc split: if_splits)
  have "unat span = (if unat first > ?mx then 0 else (?mx - unat first) div 2 + 1)"
    using assms(3) False le
    by (auto simp: paritySpanLocked_def Let_def unat_div unat_sub unat_inc word_le_nat_alt word_less_nat_alt split: if_splits)
  moreover have "unat ` parity_ids l parity = {n \<in> {?mn .. ?mx}. n mod 2 = p}"
    using False p unat_image [of "l_min l" "l_max l" "\<lambda>n. n mod 2 = p"]
    by (simp add: parity_ids_def parity_bit)
  ultimately show ?thesis using residues [OF p(2), of ?mn ?mx] False unfolding f by (simp add: st_def)
qed

lemma span_max:
  assumes "lowid_inv l" "parity \<in> {- 1, 0, 1}" "paritySpanLocked l parity = (first, span)" "k < unat span"
  shows "unat first + (if parity \<noteq> LowIDAnyParity then 2 else 1 :: nat) * k \<le> unat (l_max l)"
proof -
  have "unat first + (if parity \<noteq> LowIDAnyParity then 2 else 1) * k \<in> unat ` parity_ids l parity"
    unfolding span_nat [OF assms(1-3)] using assms(4) by blast
  then show ?thesis by (auto simp: parity_ids_def word_le_nat_alt)
qed

lemma span_card:
  assumes "lowid_inv l" "parity \<in> {- 1, 0, 1}" "paritySpanLocked l parity = (first, span)"
  shows "card (parity_ids l parity) = unat span"
proof -
  have "card (parity_ids l parity) = card (unat ` parity_ids l parity)"
    by (rule card_image [symmetric]) (simp add: inj_on_def word_unat_eq_iff)
  also have "\<dots> = unat span" unfolding span_nat [OF assms] by (subst card_image) (auto intro!: inj_onI)
  finally show ?thesis .
qed

lemma span_member:
  assumes "lowid_inv l" "parity \<in> {- 1, 0, 1}" "paritySpanLocked l parity = (first, span)" "k < span"
  shows "first + (if parity \<noteq> LowIDAnyParity then 2 else 1) * k \<in> parity_ids l parity"
proof -
  let ?st = "if parity \<noteq> LowIDAnyParity then 2 else 1 :: nat" and ?s = "if parity \<noteq> LowIDAnyParity then 2 else 1 :: u32"
  have k: "unat k < unat span" using assms(4) by (simp add: word_less_nat_alt)
  have "unat first + ?st * unat k \<le> unat (l_max l)" using span_max [OF assms(1-3) k] .
  moreover have "unat (l_max l) \<le> 0xffffff" using assms(1) by (simp add: lowid_inv_def word_le_nat_alt)
  ultimately have "unat (first + ?s * k) = unat first + ?st * unat k" by (auto simp: unat_word_ariths)
  then have "unat (first + ?s * k) \<in> unat ` parity_ids l parity"
    unfolding span_nat [OF assms(1-3)] using k by auto
  then obtain x where "x \<in> parity_ids l parity" "unat (first + ?s * k) = unat x" by blast
  then show ?thesis by (simp add: word_unat_eq_iff [symmetric])
qed

lemma used_card:
  assumes "lowid_inv l" "parity \<in> {- 1, 0, 1}"
  shows "unat (usedLocked l parity) = card {x \<in> dom (l_clients l). parity = LowIDAnyParity \<or> uint (x AND 1) = parity}"
proof -
  let ?D = "dom (l_clients l)"
  note inv = assms(1) [unfolded lowid_inv_def]
  have fin: "finite ?D" by (rule lowid_inv_finite [OF assms(1)])
  have split: "card ?D = card {x \<in> ?D. x AND 1 = 1} + card {x \<in> ?D. uint (x AND 1) = 0}"
    by (subst card_Un_disjoint [symmetric]) (use fin in \<open>auto simp: odd_bit parity_bit intro!: arg_cong [where f = card]\<close>)
  then have "unat (l_count l - l_oddCount l) = card {x \<in> ?D. uint (x AND 1) = 0}"
    using inv by (simp add: unat_sub word_le_nat_alt)
  moreover have "{x \<in> ?D. x AND 1 = 1} = {x \<in> ?D. uint (x AND 1) = 1}" by (auto simp: odd_bit parity_bit odd_iff_mod_2_eq_one)
  ultimately show ?thesis using inv assms(2) by (auto simp: usedLocked_def)
qed

lemma AddByAddress_key: "\<exists>key. AddByAddress ip ipv4 port c parity l = addByKeyLocked key c parity l"
  by (auto simp: AddByAddress_def split: option.splits)

text \<open>What a call grants.\<close>

lemma add_granted:
  assumes "lowid_inv l" "parity \<in> {- 1, 0, 1}" "addByKeyLocked key c parity l = ((lid, True), l')"
  shows "l_clients l lid = None \<and> lid \<in> parity_ids l parity \<and> l' = putLocked lid c l"
proof -
  obtain first span where fs: "paritySpanLocked l parity = (first, span)" by fastforce
  let ?st = "if parity \<noteq> LowIDAnyParity then 2 else 1 :: u32"
  have pr: "probeLowID (l_clients l) key first ?st span 0 = Some lid" "l' = putLocked lid c l"
    using assms(3) by (auto simp: addByKeyLocked_def Let_def fs split: if_splits option.splits)
  from probe_Some [OF pr(1)] obtain n where n: "l_clients l lid = None" "n < span" "lid = first + ?st * (hashLowIDSeed key n mod span)"
    by blast
  moreover have "hashLowIDSeed key n mod span < span" using n(2) by (simp add: word_less_nat_alt unat_mod)
  ultimately show ?thesis using span_member [OF assms(1,2) fs] pr(2) by blast
qed

lemma add_refused: "addByKeyLocked key c parity l = ((lid, False), l') \<Longrightarrow> lid = 0 \<and> l' = l"
  by (auto simp: addByKeyLocked_def Let_def split: if_splits option.splits prod.splits)

lemma parity_ids_valid: "lowid_inv l \<Longrightarrow> lid \<in> parity_ids l parity \<Longrightarrow> 1 \<le> lid \<and> lid \<le> lowIDCeiling"
  by (auto simp: lowid_inv_def parity_ids_def)

fun op_parity :: "'c lowid_op \<Rightarrow> bool" where
  "op_parity (OpAdd ip ipv4 port c parity) \<longleftrightarrow> parity \<in> {- 1, 0, 1}"
| "op_parity _ \<longleftrightarrow> True"

lemma lowid_inv_step:
  assumes "lowid_inv l" "op_parity op"
  shows "lowid_inv (lowid_step op l)"
proof (cases op)
  case (OpAdd ip ipv4 port c parity)
  obtain key where key: "AddByAddress ip ipv4 port c parity l = addByKeyLocked key c parity l" using AddByAddress_key [of ip ipv4 port c parity l] by blast
  obtain lid ok l' where r: "addByKeyLocked key c parity l = ((lid, ok), l')" by (metis surj_pair)
  show ?thesis
  proof (cases ok)
    case True
    with add_granted [of l parity key c lid l'] r assms OpAdd
    have "l_clients l lid = None" "lid \<in> parity_ids l parity" "l' = putLocked lid c l" by auto
    with lowid_inv_put [OF assms(1)] parity_ids_valid [OF assms(1)] show ?thesis using OpAdd key r by auto
  qed (use add_refused [of key c parity l lid l'] r assms OpAdd key in auto)
next
  case (OpRestore lid c)
  have "lid \<noteq> 0 \<Longrightarrow> 1 \<le> lid" by (simp add: word_le_nat_alt word_unat_eq_iff)
  then show ?thesis using OpRestore assms lowid_inv_put [of l lid c] by (auto simp: lowid_Restore_def not_less)
qed (use assms lowid_inv_Remove in auto)

lemma lowid_inv_run:
  "lowid_inv l \<Longrightarrow> list_all op_parity ops \<Longrightarrow> lowid_inv (fold lowid_step ops l)"
proof (induction ops arbitrary: l)
  case (Cons op ops)
  then show ?case using lowid_inv_step [of l op] by auto
qed simp

text \<open>C8: Whatever the configured range and whatever sequence of logins, handovers and
  disconnects, the two counters agree with the identifiers in use and never wrap, every
  identifier is between 1 and 0xffffff, and the range in force lies in that space.
\<close>

theorem lowid_counters_exact:
  assumes "list_all op_parity ops"
  shows "lowid_inv (fold lowid_step ops (NewLowIDClients allow mn mx))"
  using lowid_inv_run [OF lowid_inv_New assms] .

definition sample_ops :: "bool lowid_op list" where
  "sample_ops = [OpAdd [] 0x0100007f 1 True (- 1), OpAdd [] 0x0100007f 6 True (- 1)]"

theorem lowid_counters_exact_witness:
  "list_all op_parity sample_ops \<and> lowid_inv (fold lowid_step sample_ops (NewLowIDClients True 1 3))"
  using lowid_counters_exact [of sample_ops True 1 3] by (simp add: sample_ops_def)

text \<open>C14: A granted identifier was free, lies in the configured range, has the parity the server
  asked for and leads to the new client, and every other client keeps its identifier. A
  refusal answers 0 and changes nothing.
\<close>

theorem lowid_grant_sound:
  assumes "list_all op_parity ops" "parity \<in> {- 1, 0, 1}"
    "l = fold lowid_step ops (NewLowIDClients allow mn mx)"
    "AddByAddress ip ipv4 port c parity l = ((lid, ok), l')"
  shows "if ok then lowid_Get lid l = None \<and> l_min l \<le> lid \<and> lid \<le> l_max l \<and>
           (parity \<noteq> LowIDAnyParity \<longrightarrow> uint (lid AND 1) = parity) \<and>
           lowid_Get lid l' = Some c \<and> (\<forall>other. other \<noteq> lid \<longrightarrow> lowid_Get other l' = lowid_Get other l)
         else lid = 0 \<and> l' = l"
proof -
  have inv: "lowid_inv l" unfolding assms(3) by (rule lowid_inv_run [OF lowid_inv_New assms(1)])
  obtain key where key: "addByKeyLocked key c parity l = ((lid, ok), l')"
    using AddByAddress_key [of ip ipv4 port c parity l] assms(4) by auto
  show ?thesis
  proof (cases ok)
    case True
    with add_granted [OF inv assms(2), of key c lid l'] key show ?thesis by (auto simp: lowid_Get_def parity_ids_def putLocked_def)
  qed (use add_refused [of key c parity l lid l'] key in simp)
qed

theorem lowid_grant_sound_witness:
  "let l = fold lowid_step sample_ops (NewLowIDClients True 1 3); r = AddByAddress [] 0x0100007f 3 False LowIDOddParity l in
   snd (fst r) \<and> lowid_Get (fst (fst r)) l = None \<and> lowid_Get (fst (fst r)) (snd r) = Some False"
proof -
  let ?l = "fold lowid_step sample_ops (NewLowIDClients True 1 3)"
  have ok: "fst (AddByAddress [] 0x0100007f 3 False LowIDOddParity ?l) = (3, True)" by code_simp
  then have "AddByAddress [] 0x0100007f 3 False LowIDOddParity ?l = ((3, True), snd (AddByAddress [] 0x0100007f 3 False LowIDOddParity ?l))"
    by (metis prod.collapse)
  from lowid_grant_sound [OF _ _ refl this] show ?thesis
    unfolding Let_def ok by (simp add: sample_ops_def)
qed

definition addressKey :: "bytes \<Rightarrow> u32 \<Rightarrow> u16 \<Rightarrow> bytes" where
  "addressKey ip ipv4 port = (case IPv6Bytes ip of Some b \<Rightarrow> b @ le_put 2 port | None \<Rightarrow> endpointKey ipv4 port)"

lemma full_exact:
  assumes "lowid_inv l" "parity \<in> {- 1, 0, 1}" "dom (l_clients l) \<subseteq> {l_min l .. l_max l}"
    "paritySpanLocked l parity = (first, span)"
  shows "span = 0 \<or> usedLocked l parity \<ge> span \<longleftrightarrow> parity_ids l parity \<subseteq> dom (l_clients l)"
proof -
  let ?U = "{x \<in> dom (l_clients l). parity = LowIDAnyParity \<or> uint (x AND 1) = parity}"
  have U: "?U = parity_ids l parity \<inter> dom (l_clients l)" using assms(3) by (auto simp: parity_ids_def)
  have fin: "finite (parity_ids l parity)" by simp
  have "span \<le> usedLocked l parity \<longleftrightarrow> card (parity_ids l parity) \<le> card ?U"
    by (simp only: word_le_nat_alt used_card [OF assms(1,2)] span_card [OF assms(1,2,4)])
  also have "\<dots> \<longleftrightarrow> parity_ids l parity \<subseteq> dom (l_clients l)"
    unfolding U using card_seteq [OF fin Int_lower1, of "dom (l_clients l)"] by (auto simp: Int_absorb2)
  moreover have "span = 0 \<longleftrightarrow> parity_ids l parity = {}"
    using span_card [OF assms(1,2,4)] fin by (metis card_eq_0_iff unat_eq_zero)
  ultimately show ?thesis by auto
qed

text \<open>C9: As long as no handover brought in an identifier from outside the configured range, a
  client is refused exactly when LowIDs are switched off, when every identifier of the
  wanted parity is in use, or when all of its own probes hit identifiers in use. The last
  case does not need a full range: with identifiers 1 to 3 of which 3 is free, the third
  client of the witness is turned away.
\<close>

theorem lowid_refusal_exact:
  assumes "list_all op_parity ops" "parity \<in> {- 1, 0, 1}"
    "l = fold lowid_step ops (NewLowIDClients allow mn mx)" "dom (l_clients l) \<subseteq> {l_min l .. l_max l}"
    "paritySpanLocked l parity = (first, span)"
  shows "\<not> snd (fst (AddByAddress ip ipv4 port c parity l)) \<longleftrightarrow>
    \<not> l_allowLowIDs l \<or> parity_ids l parity \<subseteq> dom (l_clients l) \<or>
    (\<forall>n < span. lowid_Get (first + (if parity \<noteq> LowIDAnyParity then 2 else 1) *
        (hashLowIDSeed (addressKey ip ipv4 port) n mod span)) l \<noteq> None)"
proof -
  let ?st = "if parity \<noteq> LowIDAnyParity then 2 else 1 :: u32" and ?key = "addressKey ip ipv4 port"
  have inv: "lowid_inv l" unfolding assms(3) by (rule lowid_inv_run [OF lowid_inv_New assms(1)])
  have key: "AddByAddress ip ipv4 port c parity l = addByKeyLocked ?key c parity l"
    by (simp add: AddByAddress_def addressKey_def split: option.splits)
  have probe: "probeLowID (l_clients l) ?key first ?st span 0 = None \<longleftrightarrow>
      (\<forall>n < span. l_clients l (first + ?st * (hashLowIDSeed ?key n mod span)) \<noteq> None)"
    using probe_Some [of "l_clients l" ?key first ?st span 0] probe_None [of "l_clients l" ?key first ?st span 0]
    by (cases "probeLowID (l_clients l) ?key first ?st span 0") auto
  show ?thesis
    unfolding key addByKeyLocked_def lowid_Get_def
    using full_exact [OF inv assms(2,4,5)] probe by (auto simp: assms(5) Let_def split: option.splits)
qed

theorem lowid_refusal_exact_witness:
  "let l = fold lowid_step sample_ops (NewLowIDClients True 1 3) in
   \<not> snd (fst (AddByAddress [] 0x0100007f 4 True LowIDAnyParity l)) \<and> l_allowLowIDs l \<and> l_min l \<le> 3 \<and> 3 \<le> l_max l \<and> lowid_Get 3 l = None"
proof -
  let ?l = "fold lowid_step sample_ops (NewLowIDClients True 1 3)"
  have first: "hashLowIDSeed (endpointKey 0x0100007f 1) 0 mod 3 = 0" "hashLowIDSeed (endpointKey 0x0100007f 6) 0 mod 3 = 1"
    by code_simp+
  have l: "?l = \<lparr>l_min = 1, l_max = 3, l_count = 2, l_oddCount = 1, l_allowLowIDs = True, l_clients = [1 \<mapsto> True, 2 \<mapsto> True]\<rparr>"
    by (simp add: sample_ops_def NewLowIDClients_def AddByAddress_def IPv6Bytes_def addByKeyLocked_def paritySpanLocked_def
        rangeSizeLocked_def usedLocked_def putLocked_def probeLowID.simps [of _ _ _ _ _ 0] first Let_def word_le_nat_alt)
  have span: "paritySpanLocked ?l (- 1) = (1, 3)" unfolding l by (simp add: paritySpanLocked_def rangeSizeLocked_def)
  have "\<forall>n \<in> {0, 1, 2 :: u32}. hashLowIDSeed (addressKey [] 0x0100007f 4) n mod 3 \<in> {0, 1}" by code_simp
  moreover have "n \<in> {0, 1, 2}" if "n < 3" for n :: u32
  proof -
    have "unat n < 3" using that by (simp add: word_less_nat_alt)
    then have "unat n = 0 \<or> unat n = 1 \<or> unat n = 2" by arith
    then show ?thesis by (auto simp: word_unat_eq_iff)
  qed
  ultimately have "\<forall>n < 3. hashLowIDSeed (addressKey [] 0x0100007f 4) n mod 3 \<in> {0, 1}" by blast
  then have "\<not> snd (fst (AddByAddress [] 0x0100007f 4 True (- 1) ?l))"
    using lowid_refusal_exact [where ops = sample_ops and l = ?l and parity = "- 1" and ip = "[]" and ?ipv4.0 = "0x0100007f" and port = 4 and c = True, OF _ _ refl _ span] l
    by (auto simp: sample_ops_def lowid_Get_def)
  then show ?thesis using l by (simp add: Let_def lowid_Get_def)
qed

end
