(* ===== verification/Crypt.thy ===== *)
theory Crypt
  imports Net_Address
begin

unbundle bit_operations_syntax

section \<open>Obfuscation primitives and UDP (ed2k/crypt.go, ed2k/udpcrypt.go)\<close>

text \<open>
  RC4, the MD5 digest and the modular powers of the Go library, and the obfuscated datagrams
  built from them. Every call of \<open>RC4Crypt\<close> passes the length of its buffer, or no buffer
  at all to skip part of the key stream; the two uses are two functions here. Random
  values are arguments.

  Shown here: the cipher state stays a permutation, encrypting twice from the same state
  restores the text and splitting the text does not matter; a datagram obfuscated in
  either direction is read back by its receiver; a client that uses the key handed to its
  address is understood without any state.
\<close>

definition CryptPrimeSize :: nat where [simp]: "CryptPrimeSize = 96"
definition CryptDhaSize :: nat where [simp]: "CryptDhaSize = 16"
definition EmObfuscate :: u8 where [simp]: "EmObfuscate = 0"

subsection \<open>RC4\<close>

record rc4key =
  rc_State :: bytes
  rc_X :: u8
  rc_Y :: u8

definition swap :: "nat \<Rightarrow> nat \<Rightarrow> 'a list \<Rightarrow> 'a list" where
  "swap i j xs = xs[i := xs ! j, j := xs ! i]"

fun rc4Schedule :: "bytes \<Rightarrow> nat \<Rightarrow> nat \<Rightarrow> nat \<Rightarrow> nat \<Rightarrow> bytes \<Rightarrow> bytes" where
  "rc4Schedule keyphrase 0 i index1 index2 st = st"
| "rc4Schedule keyphrase (Suc n) i index1 index2 st =
     (let index2 = (unat (keyphrase ! index1) + unat (st ! i) + index2) mod 256
      in rc4Schedule keyphrase n (i + 1) ((index1 + 1) mod length keyphrase) index2 (swap i index2 st))"

definition rc4Next :: "rc4key \<Rightarrow> u8 \<times> rc4key" where
  "rc4Next key =
     (let x = rc_X key + 1;
          y = rc_State key ! unat x + rc_Y key;
          st = swap (unat x) (unat y) (rc_State key);
          xorIndex = st ! unat x + st ! unat y
      in (st ! unat xorIndex, \<lparr>rc_State = st, rc_X = x, rc_Y = y\<rparr>))"

fun rc4Skip :: "nat \<Rightarrow> rc4key \<Rightarrow> rc4key" where
  "rc4Skip 0 key = key"
| "rc4Skip (Suc n) key = rc4Skip n (snd (rc4Next key))"

fun RC4Crypt :: "bytes \<Rightarrow> rc4key \<Rightarrow> bytes \<times> rc4key" where
  "RC4Crypt [] key = ([], key)"
| "RC4Crypt (b # bs) key =
     (case rc4Next key of (k, key') \<Rightarrow> case RC4Crypt bs key' of (out, key'') \<Rightarrow> ((b XOR k) # out, key''))"

definition rc4Identity :: bytes where
  "rc4Identity = map of_nat [0..<256]"

definition RC4CreateKey :: "bytes \<Rightarrow> bool \<Rightarrow> rc4key" where
  "RC4CreateKey keyphrase drp =
     (if keyphrase = [] then \<lparr>rc_State = rc4Identity, rc_X = 0, rc_Y = 0\<rparr>
      else let key = \<lparr>rc_State = rc4Schedule keyphrase 256 0 0 0 rc4Identity, rc_X = 0, rc_Y = 0\<rparr>
           in if drp then rc4Skip 1024 key else key)"

subsection \<open>MD5\<close>

definition md5_K :: "u32 list" where
  "md5_K =
    [0xd76aa478, 0xe8c7b756, 0x242070db, 0xc1bdceee, 0xf57c0faf, 0x4787c62a, 0xa8304613, 0xfd469501,
     0x698098d8, 0x8b44f7af, 0xffff5bb1, 0x895cd7be, 0x6b901122, 0xfd987193, 0xa679438e, 0x49b40821,
     0xf61e2562, 0xc040b340, 0x265e5a51, 0xe9b6c7aa, 0xd62f105d, 0x02441453, 0xd8a1e681, 0xe7d3fbc8,
     0x21e1cde6, 0xc33707d6, 0xf4d50d87, 0x455a14ed, 0xa9e3e905, 0xfcefa3f8, 0x676f02d9, 0x8d2a4c8a,
     0xfffa3942, 0x8771f681, 0x6d9d6122, 0xfde5380c, 0xa4beea44, 0x4bdecfa9, 0xf6bb4b60, 0xbebfbc70,
     0x289b7ec6, 0xeaa127fa, 0xd4ef3085, 0x04881d05, 0xd9d4d039, 0xe6db99e5, 0x1fa27cf8, 0xc4ac5665,
     0xf4292244, 0x432aff97, 0xab9423a7, 0xfc93a039, 0x655b59c3, 0x8f0ccc92, 0xffeff47d, 0x85845dd1,
     0x6fa87e4f, 0xfe2ce6e0, 0xa3014314, 0x4e0811a1, 0xf7537e82, 0xbd3af235, 0x2ad7d2bb, 0xeb86d391]"

definition md5_shift :: "nat \<Rightarrow> nat" where
  "md5_shift i = [[7, 12, 17, 22], [5, 9, 14, 20], [4, 11, 16, 23], [6, 10, 15, 21]] ! (i div 16) ! (i mod 4)"

definition md5_step :: "u32 list \<Rightarrow> nat \<Rightarrow> u32 \<times> u32 \<times> u32 \<times> u32 \<Rightarrow> u32 \<times> u32 \<times> u32 \<times> u32" where
  "md5_step blk i s = (case s of (a, b, c, d) \<Rightarrow>
     let (f, g) = (if i < 16 then ((b AND c) OR (NOT b AND d), i)
                   else if i < 32 then ((d AND b) OR (NOT d AND c), (5 * i + 1) mod 16)
                   else if i < 48 then (b XOR c XOR d, (3 * i + 5) mod 16)
                   else (c XOR (b OR NOT d), (7 * i) mod 16))
     in (d, b + word_rotl (md5_shift i) (f + a + md5_K ! i + blk ! g), b, c))"

definition md5_block :: "u32 list \<Rightarrow> u32 \<times> u32 \<times> u32 \<times> u32 \<Rightarrow> u32 \<times> u32 \<times> u32 \<times> u32" where
  "md5_block blk s = (case s of (a, b, c, d) \<Rightarrow> case fold (md5_step blk) [0..<64] s of (a', b', c', d') \<Rightarrow> (a + a', b + b', c + c', d + d'))"

definition md5_pad :: "bytes \<Rightarrow> bytes" where
  "md5_pad msg = msg @ [0x80] @ replicate ((119 - length msg mod 64) mod 64) 0 @ le_put 8 (of_nat (8 * length msg) :: u64)"

fun md5_words :: "nat \<Rightarrow> bytes \<Rightarrow> u32 list" where
  "md5_words 0 bs = []"
| "md5_words (Suc n) bs = le_get (take 4 bs) # md5_words n (drop 4 bs)"

fun md5_loop :: "nat \<Rightarrow> bytes \<Rightarrow> u32 \<times> u32 \<times> u32 \<times> u32 \<Rightarrow> u32 \<times> u32 \<times> u32 \<times> u32" where
  "md5_loop 0 bs s = s"
| "md5_loop (Suc n) bs s = md5_loop n (drop 64 bs) (md5_block (md5_words 16 bs) s)"

definition MD5 :: "bytes \<Rightarrow> bytes" where
  "MD5 msg = (let bs = md5_pad msg in
     case md5_loop (length bs div 64) bs (0x67452301, 0xefcdab89, 0x98badcfe, 0x10325476) of (a, b, c, d) \<Rightarrow>
       le_put 4 a @ le_put 4 b @ le_put 4 c @ le_put 4 d)"

subsection \<open>Numbers as bytes, modular powers\<close>

definition SetBytes :: "bytes \<Rightarrow> nat" where
  "SetBytes bs = foldl (\<lambda>n b. 256 * n + unat b) 0 bs"

fun big_Bytes :: "nat \<Rightarrow> bytes" where
  "big_Bytes n = (if n = 0 then [] else big_Bytes (n div 256) @ [of_nat (n mod 256)])"

declare big_Bytes.simps [simp del]

fun big_Exp :: "nat \<Rightarrow> nat \<Rightarrow> nat \<Rightarrow> nat" where
  "big_Exp x y m =
     (if y = 0 then 1 mod m
      else let h = big_Exp x (y div 2) m; s = h * h mod m
           in if odd y then s * x mod m else s)"

declare big_Exp.simps [simp del]

definition CryptPrime :: bytes where
  "CryptPrime =
    [0xF2, 0xBF, 0x52, 0xC5, 0x5F, 0x58, 0x7A, 0xDD, 0x53, 0x71, 0xA9, 0x36,
     0xE8, 0x86, 0xEB, 0x3C, 0x62, 0x17, 0xA3, 0x3E, 0xC3, 0x4C, 0xB4, 0x0D,
     0xC7, 0x3A, 0x41, 0xA6, 0x43, 0xAF, 0xFC, 0xE7, 0x21, 0xFC, 0x28, 0x63,
     0x66, 0x53, 0x5B, 0xDB, 0xCE, 0x25, 0x9F, 0x22, 0x86, 0xDA, 0x4A, 0x91,
     0xB2, 0x07, 0xCB, 0xAA, 0x52, 0x55, 0xD4, 0xF6, 0x1C, 0xCE, 0xAE, 0xD4,
     0x5A, 0xD5, 0xE0, 0x74, 0x7D, 0xF7, 0x78, 0x18, 0x28, 0x10, 0x5F, 0x34,
     0x0F, 0x76, 0x23, 0x87, 0xF8, 0x8B, 0x28, 0x91, 0x42, 0xFB, 0x42, 0x68,
     0x8F, 0x05, 0x15, 0x0F, 0x54, 0x8B, 0x5F, 0x43, 0x6A, 0xF7, 0x0D, 0xF3]"

subsection \<open>Marker bytes\<close>

fun randProtocol_loop :: "u8 list \<Rightarrow> u8 \<Rightarrow> u8" where
  "randProtocol_loop [] p = p"
| "randProtocol_loop (draw # draws) p = (if \<not> IsProtocol draw then draw else randProtocol_loop draws draw)"

definition RandProtocol :: "u8 list \<Rightarrow> u8" where
  "RandProtocol draws = randProtocol_loop (take 5 draws) 0xff"

fun randClientSocketMarker :: "u8 list \<Rightarrow> u8 option" where
  "randClientSocketMarker [] = None"
| "randClientSocketMarker (p # draws) =
     (if \<not> IsProtocol p \<and> p \<noteq> PrKad \<and> p \<noteq> PrKadZlib then Some p else randClientSocketMarker draws)"

subsection \<open>Obfuscated datagrams\<close>

definition MagicValueUDPServerClient :: u8 where [simp]: "MagicValueUDPServerClient = 0xA5"
definition MagicValueUDPClientServer :: u8 where [simp]: "MagicValueUDPClientServer = 0x6B"
definition MagicValueUDPSyncServer :: u32 where [simp]: "MagicValueUDPSyncServer = 0x13EF24D5"

record udp_crypt =
  uc_Status :: nat
  uc_ServerKey :: u32

definition NewUDPCrypt :: "bool \<Rightarrow> u32 \<Rightarrow> udp_crypt" where
  "NewUDPCrypt supportCrypt serverKey =
     \<lparr>uc_Status = (if supportCrypt then CsEncrypting else CsNone), uc_ServerKey = serverKey\<rparr>"

definition udp_rc4Key :: "udp_crypt \<Rightarrow> u8 \<Rightarrow> u16 \<Rightarrow> rc4key" where
  "udp_rc4Key u magic randomKey =
     RC4CreateKey (MD5 (le_put 4 (uc_ServerKey u) @ le_put 1 magic @ le_put 2 randomKey)) False"

definition udp_decrypt :: "udp_crypt \<Rightarrow> bytes \<Rightarrow> u8 \<Rightarrow> bytes" where
  "udp_decrypt u buffer direction =
     (if uc_Status u \<noteq> CsEncrypting then buffer
      else if buffer = [] then buffer
      else if buffer ! 0 = PrED2K then buffer
      else if length (drop 1 buffer) < 2 then buffer
      else
        let clientKey = le_get (take 2 (drop 1 buffer)) :: u16;
            dec = fst (RC4Crypt (drop 3 buffer) (udp_rc4Key u direction clientKey))
        in if length dec < 4 \<or> le_get (take 4 dec) \<noteq> MagicValueUDPSyncServer then buffer
           else if length (drop 4 dec) < 1 then buffer
           else
             let padLength = unat (dec ! 4 AND 0x0f); rest = drop 5 dec
             in if length rest \<le> padLength then buffer else drop padLength rest)"

definition udp_Decrypt :: "udp_crypt \<Rightarrow> bytes \<Rightarrow> bytes" where
  "udp_Decrypt u buffer = udp_decrypt u buffer MagicValueUDPClientServer"

definition DecryptFromServer :: "udp_crypt \<Rightarrow> bytes \<Rightarrow> bytes" where
  "DecryptFromServer u buffer = udp_decrypt u buffer MagicValueUDPServerClient"

text \<open>The draws of one datagram: the two key bytes, then the marker byte.\<close>

definition udp_encrypt :: "u16 \<Rightarrow> u8 list \<Rightarrow> udp_crypt \<Rightarrow> bytes \<Rightarrow> u8 \<Rightarrow> bytes" where
  "udp_encrypt randomKey draws u buffer direction =
     (if uc_Status u \<noteq> CsEncrypting then buffer
      else let enc = le_put 4 MagicValueUDPSyncServer @ le_put 1 (0 :: u8) @ buffer;
               encrypted = fst (RC4Crypt enc (udp_rc4Key u direction randomKey))
           in le_put 1 (RandProtocol draws) @ le_put 2 randomKey @ encrypted)"

definition udp_Encrypt :: "u16 \<Rightarrow> u8 list \<Rightarrow> udp_crypt \<Rightarrow> bytes \<Rightarrow> bytes" where
  "udp_Encrypt randomKey draws u buffer = udp_encrypt randomKey draws u buffer MagicValueUDPServerClient"

definition EncryptForClientSocket :: "u16 \<Rightarrow> u8 list \<Rightarrow> u8 \<Rightarrow> udp_crypt \<Rightarrow> bytes \<Rightarrow> bytes" where
  "EncryptForClientSocket randomKey draws marker u buffer =
     (let out = udp_encrypt randomKey draws u buffer MagicValueUDPServerClient
      in if uc_Status u = CsEncrypting \<and> length out > 0 then out[0 := marker] else out)"

definition EncryptAsClient :: "u16 \<Rightarrow> u8 list \<Rightarrow> udp_crypt \<Rightarrow> bytes \<Rightarrow> bytes" where
  "EncryptAsClient randomKey draws u buffer = udp_encrypt randomKey draws u buffer MagicValueUDPClientServer"

definition deriveUDPKey :: "bytes \<Rightarrow> bytes \<Rightarrow> u32" where
  "deriveUDPKey secret ip =
     (let norm = (if To4 ip \<noteq> [] then To4 ip else ip);
          key = le_get (take 4 (MD5 (secret @ norm)))
      in if key = 0 then 1 else key)"

subsection \<open>The cipher\<close>

definition rc4_inv :: "rc4key \<Rightarrow> bool" where
  "rc4_inv key \<longleftrightarrow> length (rc_State key) = 256 \<and> distinct (rc_State key)"

lemma length_swap [simp]: "length (swap i j xs) = length xs"
  by (simp add: swap_def)

lemma distinct_swap: "i < length xs \<Longrightarrow> j < length xs \<Longrightarrow> distinct (swap i j xs) \<longleftrightarrow> distinct xs"
  unfolding swap_def by (rule distinct_swap)

lemma u8_less [simp]: "unat (x :: u8) < 256"
  using unsigned_less [of x, where 'a = nat] by simp

lemma rc4_inv_Next: "rc4_inv key \<Longrightarrow> rc4_inv (snd (rc4Next key))"
  by (simp add: rc4_inv_def rc4Next_def Let_def distinct_swap)

lemma rc4_inv_Skip: "rc4_inv key \<Longrightarrow> rc4_inv (rc4Skip n key)"
  by (induction n arbitrary: key) (auto simp: rc4_inv_Next)

lemma rc4_inv_Schedule:
  "length st = 256 \<Longrightarrow> distinct st \<Longrightarrow> n + i = 256 \<Longrightarrow>
   length (rc4Schedule kp n i i1 i2 st) = 256 \<and> distinct (rc4Schedule kp n i i1 i2 st)"
proof (induction n arbitrary: i i1 i2 st)
  case (Suc n)
  let ?i2 = "(unat (kp ! i1) + unat (st ! i) + i2) mod 256"
  have "distinct (swap i ?i2 st)" using Suc.prems by (subst distinct_swap) auto
  then show ?case using Suc.IH [of "swap i ?i2 st" "i + 1"] Suc.prems by (simp add: Let_def)
qed simp

lemma inj_u8: "inj_on (of_nat :: nat \<Rightarrow> u8) {0..<256}"
proof (rule inj_onI)
  fix x y :: nat
  assume xy: "x \<in> {0..<256}" "y \<in> {0..<256}" "(of_nat x :: u8) = of_nat y"
  have "unat (of_nat x :: u8) = x" "unat (of_nat y :: u8) = y" using xy(1,2) by (auto simp: unat_of_nat)
  then show "x = y" using xy(3) by metis
qed

lemma length_rc4Identity: "length rc4Identity = 256"
  unfolding rc4Identity_def length_map length_upt by simp

lemma distinct_rc4Identity: "distinct rc4Identity"
  unfolding rc4Identity_def distinct_map set_upt by (rule conjI [OF distinct_upt inj_u8])

lemmas rc4Identity = length_rc4Identity distinct_rc4Identity

lemma rc4_inv_Create: "rc4_inv (RC4CreateKey kp d)"
proof -
  have id: "rc4_inv \<lparr>rc_State = rc4Identity, rc_X = 0, rc_Y = 0\<rparr>" by (simp add: rc4_inv_def rc4Identity)
  have sch: "rc4_inv \<lparr>rc_State = rc4Schedule kp 256 0 0 0 rc4Identity, rc_X = 0, rc_Y = 0\<rparr>"
    unfolding rc4_inv_def rc4key.select_convs by (rule rc4_inv_Schedule) (simp_all add: rc4Identity)
  show ?thesis unfolding RC4CreateKey_def Let_def using id sch rc4_inv_Skip by (simp split: if_split del: rc4Schedule.simps rc4Skip.simps)
qed

lemma RC4Crypt_Cons:
  "fst (RC4Crypt (b # bs) key) = (b XOR fst (rc4Next key)) # fst (RC4Crypt bs (snd (rc4Next key)))"
  "snd (RC4Crypt (b # bs) key) = snd (RC4Crypt bs (snd (rc4Next key)))"
  by (simp_all add: case_prod_beta)

declare RC4Crypt.simps(2) [simp del]

lemma length_RC4Crypt [simp]: "length (fst (RC4Crypt xs key)) = length xs"
  by (induction xs arbitrary: key) (simp_all add: RC4Crypt_Cons)

lemma fst_RC4Crypt_append:
  "fst (RC4Crypt (xs @ ys) key) = fst (RC4Crypt xs key) @ fst (RC4Crypt ys (snd (RC4Crypt xs key)))"
  by (induction xs arbitrary: key) (simp_all add: RC4Crypt_Cons)

lemma snd_RC4Crypt_append: "snd (RC4Crypt (xs @ ys) key) = snd (RC4Crypt ys (snd (RC4Crypt xs key)))"
  by (induction xs arbitrary: key) (simp_all add: RC4Crypt_Cons)

lemma snd_RC4Crypt_length: "length xs = length ys \<Longrightarrow> snd (RC4Crypt xs key) = snd (RC4Crypt ys key)"
  by (induction xs ys arbitrary: key rule: list_induct2) (simp_all add: RC4Crypt_Cons)

lemma RC4Crypt_twice [simp]: "fst (RC4Crypt (fst (RC4Crypt xs key)) key) = xs"
  by (induction xs arbitrary: key) (simp_all add: RC4Crypt_Cons xor.assoc)

lemma snd_RC4Crypt_twice [simp]: "snd (RC4Crypt (fst (RC4Crypt xs key)) key) = snd (RC4Crypt xs key)"
  by (rule snd_RC4Crypt_length) simp

lemma rc4_inv_Crypt: "rc4_inv key \<Longrightarrow> rc4_inv (snd (RC4Crypt xs key))"
  by (induction xs arbitrary: key) (simp_all add: RC4Crypt_Cons rc4_inv_Next)



subsection \<open>Datagrams read back\<close>

lemma le_put_1 [simp]: "le_put (Suc 0) (w :: u8) = [w]"
  by simp

lemma udp_decrypt_frame:
  assumes "uc_Status u = CsEncrypting" "marker \<noteq> PrED2K" "length kb = 2"
  shows "udp_decrypt u (marker # kb @ c) direction =
     (let dec = fst (RC4Crypt c (udp_rc4Key u direction (le_get kb)))
      in if length dec < 4 \<or> le_get (take 4 dec) \<noteq> MagicValueUDPSyncServer then marker # kb @ c
         else if length (drop 4 dec) < 1 then marker # kb @ c
         else let padLength = unat (dec ! 4 AND 0x0f); rest = drop 5 dec
              in if length rest \<le> padLength then marker # kb @ c else drop padLength rest)"
  using assms by (simp add: udp_decrypt_def)

lemma udp_round:
  assumes "uc_Status u = CsEncrypting" "data \<noteq> []" "marker \<noteq> PrED2K"
  shows "udp_decrypt u (marker # le_put 2 (k :: u16) @
           fst (RC4Crypt (le_put 4 MagicValueUDPSyncServer @ 0 # data) (udp_rc4Key u direction k))) direction = data"
proof -
  let ?m = "le_put 4 MagicValueUDPSyncServer"
  have "(?m @ 0 # data) ! 4 = 0" "drop 5 (?m @ 0 # data) = data" by (simp_all add: nth_append del: le_put.simps)
  then show ?thesis
    unfolding udp_decrypt_frame [OF assms(1,3), of "le_put 2 k", OF length_le_put]
    using assms(2) by (simp add: le_get_put del: le_put.simps)
qed

lemma randProtocol_loop_cases:
  "IsProtocol p \<Longrightarrow> IsProtocol (randProtocol_loop draws p) \<longleftrightarrow> list_all IsProtocol draws"
  by (induction draws p rule: randProtocol_loop.induct) auto

lemma RandProtocol_cases:
  assumes "draws \<noteq> []"
  shows "IsProtocol (RandProtocol draws) \<longleftrightarrow> list_all IsProtocol (take 5 draws)"
proof -
  obtain d ds where "draws = d # ds" using assms by (cases draws) auto
  then show ?thesis using randProtocol_loop_cases [of d "take 4 ds"] by (simp add: RandProtocol_def)
qed

text \<open>C25: A non-empty datagram obfuscated with a key is read back by a receiver with that key, for
  every random key, in each of the two directions: what the server sends a client, what it
  sends a peer as a client, and the notice for a client's own socket. This needs one of the
  five marker draws to be no protocol byte; only the notice draws until that holds.
\<close>

theorem udp_obfuscation_round_trip:
  assumes "data \<noteq> []" "draws \<noteq> []" "\<not> list_all IsProtocol (take 5 draws)" "randClientSocketMarker more_draws = Some marker"
  shows "DecryptFromServer (NewUDPCrypt True key) (udp_Encrypt k draws (NewUDPCrypt True key) data) = data \<and>
    udp_Decrypt (NewUDPCrypt True key) (EncryptAsClient k draws (NewUDPCrypt True key) data) = data \<and>
    DecryptFromServer (NewUDPCrypt True key) (EncryptForClientSocket k draws marker (NewUDPCrypt True key) data) = data"
proof -
  have m: "RandProtocol draws \<noteq> PrED2K" using RandProtocol_cases [OF assms(2)] assms(3) by (auto simp: IsProtocol_def)
  have "randClientSocketMarker ds = Some marker \<Longrightarrow> marker \<noteq> PrED2K" for ds
    by (induction ds) (auto simp: IsProtocol_def split: if_splits)
  then have m': "marker \<noteq> PrED2K" using assms(4) by blast
  have st: "uc_Status (NewUDPCrypt True key) = CsEncrypting" by (simp add: NewUDPCrypt_def)
  note round = udp_round [OF st assms(1) m] udp_round [OF st assms(1) m']
  show ?thesis
    using st round
    by (simp add: DecryptFromServer_def udp_Decrypt_def udp_Encrypt_def EncryptAsClient_def EncryptForClientSocket_def
        udp_encrypt_def Let_def del: le_put.simps CsEncrypting_def MagicValueUDPSyncServer_def)
qed

theorem udp_obfuscation_round_trip_witness:
  "udp_Decrypt (NewUDPCrypt True 7) (EncryptAsClient 9 [0xe3, 0x10] (NewUDPCrypt True 7) [0xe3, 0x96]) = [0xe3, 0x96] \<and>
   DecryptFromServer (NewUDPCrypt True 7) (EncryptForClientSocket 9 [0xe3, 0x10] 0x21 (NewUDPCrypt True 7) [0xe3]) = [0xe3]"
  using udp_obfuscation_round_trip [of "[0xe3, 0x96]" "[0xe3, 0x10]" "[0xe4, 0x21]" "0x21" 7 9]
    udp_obfuscation_round_trip [of "[0xe3]" "[0xe3, 0x10]" "[0xe4, 0x21]" "0x21" 7 9]
  by (simp add: IsProtocol_def)

text \<open>The digest agrees with a test vector of its standard, and no client is handed the key 0.\<close>

lemma MD5_vector: "MD5 (str ''abc'') = [0x90, 0x01, 0x50, 0x98, 0x3c, 0xd2, 0x4f, 0xb0, 0xd6, 0x96, 0x3f, 0x7d, 0x28, 0xe1, 0x7f, 0x72]"
  by code_simp

lemma deriveUDPKey_usable: "deriveUDPKey secret ip \<noteq> 0 \<and> (To4 ip \<noteq> [] \<longrightarrow> deriveUDPKey secret ip = deriveUDPKey secret (To4 ip))"
  by (auto simp: deriveUDPKey_def Let_def To4_def split: if_splits)

end
