(* ===== verification/Tcp_Crypt.thy ===== *)
theory Tcp_Crypt
  imports Crypt Tcp_Framing
begin

unbundle bit_operations_syntax

section \<open>Obfuscated sessions (ed2k/tcpcrypt.go, handleBytes and writeRaw)\<close>

text \<open>
  The server's side of the TCP obfuscation: a Diffie-Hellman exchange, two RC4 streams and a
  padded sync block, in front of the packet framing. The random draws of the exchange are
  arguments, as the result of \<open>RandBuf\<close>. Both keys live in the state because the cipher
  advances them in place.

  Shown here: an obfuscated client is served exactly like one that talks plainly, however
  TCP splits either side of its stream, and it can read every packet the server sends; a
  client that talks plainly on the obfuscated port is served as well; a handshake stage
  never holds more than its own length and any fault ends the session.
\<close>

definition MagicValueServer :: u8 where [simp]: "MagicValueServer = 203"
definition MagicValueRequester :: u8 where [simp]: "MagicValueRequester = 34"
definition MagicValueSync :: u32 where [simp]: "MagicValueSync = 0x835E6FC4"
definition cryptRequestFixed :: nat where [simp]: "cryptRequestFixed = 1 + CryptPrimeSize + 1"
definition cryptHandshakeFixed :: nat where [simp]: "cryptHandshakeFixed = 4 + 1 + 1"

record tcp_crypt =
  tc_state :: nat
  tc_sendKey :: "rc4key option"
  tc_recvKey :: "rc4key option"
  tc_pending :: bytes

definition NewTCPCrypt :: "bool \<Rightarrow> tcp_crypt" where
  "NewTCPCrypt supportCrypt =
     \<lparr>tc_state = (if supportCrypt then CsUnknown else CsNone), tc_sendKey = None, tc_recvKey = None, tc_pending = []\<rparr>"

text \<open>A number in a field of the prime's width; a longer one would be a slice out of range.\<close>

definition primeField :: "nat \<Rightarrow> bytes res" where
  "primeField n = (let bs = big_Bytes n in
     if length bs > CryptPrimeSize then Panic else Ok (replicate (CryptPrimeSize - length bs) 0 @ bs))"

definition streamKey :: "bytes \<Rightarrow> u8 \<Rightarrow> rc4key" where
  "streamKey kBuf magic = RC4CreateKey (MD5 (kBuf @ [magic])) True"

definition negotiate :: "bytes res \<Rightarrow> bytes res \<Rightarrow> bytes \<Rightarrow> tcp_crypt \<Rightarrow> bytes res \<times> tcp_crypt" where
  "negotiate bDraw padDraw aBytes t =
     (case bDraw of
        Ok bRaw \<Rightarrow>
          let p = SetBytes CryptPrime; A = SetBytes aBytes; b = SetBytes bRaw;
              B = big_Exp 2 b p; K = big_Exp A b p
          in (case primeField K of
            Ok kBuf \<Rightarrow>
              let t = t\<lparr>tc_sendKey := Some (streamKey kBuf MagicValueServer), tc_recvKey := Some (streamKey kBuf MagicValueRequester)\<rparr>
              in (case padDraw of
                Ok pad \<Rightarrow>
                  let plain = le_put 4 MagicValueSync @ [EmObfuscate, EmObfuscate, of_nat (length pad)] @ pad;
                      (enc, sendKey) = RC4Crypt plain (streamKey kBuf MagicValueServer)
                  in (case primeField B of
                        Ok bout \<Rightarrow> (Ok (bout @ enc), t\<lparr>tc_sendKey := Some sendKey\<rparr>)
                      | Err e \<Rightarrow> (Err e, t)
                      | Panic \<Rightarrow> (Panic, t))
              | Err e \<Rightarrow> (Err e, t)
              | Panic \<Rightarrow> (Panic, t))
          | Err e \<Rightarrow> (Err e, t)
          | Panic \<Rightarrow> (Panic, t))
      | Err e \<Rightarrow> (Err e, t)
      | Panic \<Rightarrow> (Panic, t))"

text \<open>The rest and whether the reply is complete.\<close>

definition handshake :: "bytes \<Rightarrow> (bytes \<times> bool) res" where
  "handshake pending =
     (if length pending < 4 then Ok ([], False)
      else if le_get (take 4 pending) \<noteq> MagicValueSync then Err (ErrNew ''wrong MAGICVALUE_SYNC'')
      else if length pending < cryptHandshakeFixed then Ok ([], False)
      else if pending ! 4 \<noteq> EmObfuscate then Err (ErrNew ''encryption method not supported'')
      else let need = cryptHandshakeFixed + unat (pending ! (cryptHandshakeFixed - 1))
           in if length pending < need then Ok ([], False) else Ok (drop need pending, True))"

definition rc4_on :: "bytes \<Rightarrow> rc4key option \<Rightarrow> bytes \<times> rc4key option" where
  "rc4_on bs key = (case key of None \<Rightarrow> ([], None) | Some k \<Rightarrow> (case RC4Crypt bs k of (out, k') \<Rightarrow> (out, Some k')))"

definition ProcessData ::
  "bytes res \<Rightarrow> bytes res \<Rightarrow> bytes \<Rightarrow> tcp_crypt \<Rightarrow> packet \<Rightarrow> bytes res \<times> tcp_crypt \<times> packet" where
  "ProcessData bDraw padDraw data t pk =
     (if tc_state t = CsNone then (Ok [], t, pk)
      else if tc_state t = CsUnknown then
        let t = t\<lparr>tc_pending := tc_pending t @ data\<rparr>;
            pending = tc_pending t;
            need = cryptRequestFixed;
            need = (if length pending \<ge> need then need + unat (pending ! (need - 1)) else need)
        in if length pending < need then (Ok [], t, pk)
           else if length pending > need then (Err (ErrNew ''data before the key exchange completed''), t, pk)
           else (case negotiate bDraw padDraw (take CryptPrimeSize (drop 1 pending)) t of
                   (Ok resp, t) \<Rightarrow> (Ok resp, t\<lparr>tc_pending := [], tc_state := CsNegotiating\<rparr>, pk\<lparr>pk_Status := PsCryptNegotiating\<rparr>)
                 | (r, t) \<Rightarrow> (r, t, pk))
      else if tc_state t = CsNegotiating then
        (case rc4_on data (tc_recvKey t) of (plain, recvKey) \<Rightarrow>
           let t = t\<lparr>tc_pending := tc_pending t @ plain, tc_recvKey := recvKey\<rparr>
           in (case handshake (tc_pending t) of
                 Ok (rest, True) \<Rightarrow> (Ok rest, t\<lparr>tc_pending := [], tc_state := CsEncrypting\<rparr>, pk\<lparr>pk_Status := PsNew\<rparr>)
               | Ok (rest, False) \<Rightarrow> (Ok [], t, pk)
               | Err e \<Rightarrow> (Err e, t, pk)
               | Panic \<Rightarrow> (Panic, t, pk)))
      else (Err (ErrNew ''unexpected crypt status''), t, pk))"

definition SetState :: "nat \<Rightarrow> tcp_crypt \<Rightarrow> tcp_crypt" where
  "SetState state t = t\<lparr>tc_state := state\<rparr>"

definition Buffered :: "tcp_crypt \<Rightarrow> nat" where
  "Buffered t = length (tc_pending t)"

definition tcp_Decrypt :: "bytes \<Rightarrow> tcp_crypt \<Rightarrow> bytes \<times> tcp_crypt" where
  "tcp_Decrypt bs t =
     (if tc_state t = CsEncrypting then (case rc4_on bs (tc_recvKey t) of (out, k) \<Rightarrow> (out, t\<lparr>tc_recvKey := k\<rparr>))
      else (bs, t))"

text \<open>The state a session hands over to the successor process.\<close>

record crypt_state =
  cs_State :: nat
  cs_Pending :: bytes
  cs_SendKey :: "rc4key option"
  cs_RecvKey :: "rc4key option"

definition exportState :: "tcp_crypt \<Rightarrow> crypt_state" where
  "exportState t = \<lparr>cs_State = tc_state t, cs_Pending = tc_pending t, cs_SendKey = tc_sendKey t, cs_RecvKey = tc_recvKey t\<rparr>"

definition importState :: "crypt_state \<Rightarrow> tcp_crypt \<Rightarrow> tcp_crypt" where
  "importState st t = t\<lparr>tc_state := cs_State st, tc_pending := cs_Pending st, tc_sendKey := cs_SendKey st, tc_recvKey := cs_RecvKey st\<rparr>"

subsection \<open>The connection\<close>

text \<open>
  A connection is its crypt state (none on the plain port), the framing, the session and the
  bytes written to the socket. A handler's packets are written, and encrypted, in the order
  the session sent them.
\<close>

record 'a conn =
  cn_crypt :: "tcp_crypt option"
  cn_frame :: frame_state
  cn_sess :: "'a session"
  cn_wire :: bytes

definition writeRaw :: "bytes \<Rightarrow> 'a conn \<Rightarrow> 'a conn" where
  "writeRaw bs c =
     (case cn_crypt c of
        Some t \<Rightarrow> if tc_state t = CsEncrypting
                  then (case rc4_on bs (tc_sendKey t) of (out, k) \<Rightarrow>
                          c\<lparr>cn_crypt := Some (t\<lparr>tc_sendKey := k\<rparr>), cn_wire := cn_wire c @ out\<rparr>)
                  else c\<lparr>cn_wire := cn_wire c @ bs\<rparr>
      | None \<Rightarrow> c\<lparr>cn_wire := cn_wire c @ bs\<rparr>)"

definition processData :: "'a handlers \<Rightarrow> bytes \<Rightarrow> 'a conn \<Rightarrow> 'a conn res" where
  "processData h bs c =
     map_res (\<lambda>(f, s). fold writeRaw (drop (length (ss_sent (cn_sess c))) (ss_sent s)) (c\<lparr>cn_frame := f, cn_sess := s\<rparr>))
       (processPacketData h bs (cn_frame c) (cn_sess c))"

definition handleBytes :: "'a handlers \<Rightarrow> bytes res \<Rightarrow> bytes res \<Rightarrow> bytes \<Rightarrow> 'a conn \<Rightarrow> 'a conn res" where
  "handleBytes h bDraw padDraw bs c =
     (case cn_crypt c of
        None \<Rightarrow> processData h bs c
      | Some t \<Rightarrow>
          let state = tc_state t in
          if state = CsUnknown \<or> state = CsNegotiating then
            if state = CsUnknown \<and> length bs > 0 \<and> IsProtocol (bs ! 0) \<and> Buffered t = 0
            then processData h bs (c\<lparr>cn_crypt := Some (SetState CsNone t)\<rparr>)
            else (case ProcessData bDraw padDraw bs t (fs_packet (cn_frame c)) of
                (r, t, pk) \<Rightarrow>
                  let c = c\<lparr>cn_crypt := Some t, cn_frame := (cn_frame c)\<lparr>fs_packet := pk\<rparr>\<rparr> in
                  (case r of
                     Ok rest \<Rightarrow>
                       if state = CsUnknown then Ok (if length rest > 0 then writeRaw rest c else c)
                       else if length rest = 0 then Ok c
                       else processData h rest c
                   | Err e \<Rightarrow> Ok (c\<lparr>cn_sess := closeWithReason (ReasonErr ''crypt-handshake-failed'' e) (cn_sess c)\<rparr>)
                   | Panic \<Rightarrow> Panic))
          else if state = CsEncrypting then
            (case tcp_Decrypt bs t of (plain, t) \<Rightarrow> processData h plain (c\<lparr>cn_crypt := Some t\<rparr>))
          else processData h bs c)"

fun connLoop :: "'a handlers \<Rightarrow> bytes res \<Rightarrow> bytes res \<Rightarrow> bytes list \<Rightarrow> 'a conn \<Rightarrow> 'a conn res" where
  "connLoop h bDraw padDraw [] c = Ok c"
| "connLoop h bDraw padDraw (buf # bufs) c =
     (if ss_closed (cn_sess c) then Ok c
      else case handleBytes h bDraw padDraw buf c of
        Ok c' \<Rightarrow> connLoop h bDraw padDraw bufs c'
      | Err e \<Rightarrow> Err e
      | Panic \<Rightarrow> Panic)"

subsection \<open>Numbers and the shared key\<close>

lemma big_Exp_eq: "big_Exp x y m = x ^ y mod m"
proof (induction x y m rule: big_Exp.induct)
  case (1 x y m)
  show ?case
  proof (cases "y = 0")
    case False
    let ?h = "x ^ (y div 2) mod m"
    have sq: "?h * ?h mod m = x ^ (2 * (y div 2)) mod m"
      by (simp add: mod_mult_eq power_add [symmetric] mult_2)
    have y: "y = 2 * (y div 2) + y mod 2" by simp
    have "big_Exp x y m = (if odd y then ?h * ?h mod m * x mod m else ?h * ?h mod m)"
      using 1 False by (simp add: big_Exp.simps [of x y m] Let_def)
    also have "\<dots> = x ^ y mod m"
    proof (cases "odd y")
      case True
      then have "y = Suc (2 * (y div 2))" using odd_two_times_div_two_succ [of y] by simp
      then have "x ^ y = x ^ (2 * (y div 2)) * x" by (metis power_Suc2)
      with True show ?thesis unfolding sq by (simp add: mod_mult_left_eq)
    qed (simp add: sq)
    finally show ?thesis .
  qed (simp add: big_Exp.simps)
qed

lemma SetBytes_append: "SetBytes (xs @ [b]) = 256 * SetBytes xs + unat b"
  by (simp add: SetBytes_def)

lemma SetBytes_less: "SetBytes bs < 256 ^ length bs"
proof (induction bs rule: rev_induct)
  case (snoc b bs)
  have "256 * SetBytes bs + unat b < 256 * (SetBytes bs + 1)" by simp
  also have "\<dots> \<le> 256 * 256 ^ length bs" using snoc by (intro mult_le_mono2) simp
  finally show ?case by (simp add: SetBytes_append)
qed (simp add: SetBytes_def)

lemma SetBytes_big_Bytes: "SetBytes (big_Bytes n) = n"
proof (induction n rule: big_Bytes.induct)
  case (1 n)
  show ?case
  proof (cases "n = 0")
    case False
    have "unat (of_nat (n mod 256) :: u8) = n mod 256" by (simp add: unat_of_nat)
    then show ?thesis using 1 [OF False] False by (simp add: big_Bytes.simps [of n] SetBytes_append)
  qed (simp add: big_Bytes.simps [of 0] SetBytes_def)
qed

lemma length_big_Bytes: "n < 256 ^ k \<Longrightarrow> length (big_Bytes n) \<le> k"
proof (induction n arbitrary: k rule: big_Bytes.induct)
  case (1 n)
  show ?case
  proof (cases "n = 0")
    case False
    with "1.prems" obtain k' where k: "k = Suc k'" by (cases k) auto
    then have "n div 256 < 256 ^ k'" using "1.prems" by (simp add: less_mult_imp_div_less mult.commute)
    from "1.IH" [OF False this] show ?thesis using False k by (simp add: big_Bytes.simps [of n])
  qed (simp add: big_Bytes.simps [of 0])
qed

lemma SetBytes_zeros: "SetBytes (replicate j 0 @ bs) = SetBytes bs"
proof -
  have "foldl (\<lambda>n b. 256 * n + unat b) 0 (replicate j (0 :: u8)) = 0" by (induction j) simp_all
  then show ?thesis by (simp add: SetBytes_def)
qed

abbreviation prime :: nat where "prime \<equiv> SetBytes CryptPrime"

definition fieldBytes :: "nat \<Rightarrow> bytes" where
  "fieldBytes n = replicate (CryptPrimeSize - length (big_Bytes n)) 0 @ big_Bytes n"

lemma SetBytes_pos: "b \<noteq> 0 \<Longrightarrow> 0 < SetBytes (b # bs)"
proof (induction bs rule: rev_induct)
  case (snoc c bs)
  then show ?case using SetBytes_append [of "b # bs" c] by simp
qed (simp add: SetBytes_def word_unat_eq_iff)

lemma length_CryptPrime: "length CryptPrime = CryptPrimeSize"
  by (simp add: CryptPrime_def)

lemma prime_pos: "0 < prime"
  unfolding CryptPrime_def by (rule SetBytes_pos) simp

lemma prime_less: "prime < 256 ^ CryptPrimeSize"
  using SetBytes_less [of CryptPrime] unfolding length_CryptPrime .

lemma field:
  assumes "n < prime"
  shows "primeField n = Ok (fieldBytes n)" "length (fieldBytes n) = CryptPrimeSize" "SetBytes (fieldBytes n) = n"
proof -
  have "length (big_Bytes n) \<le> CryptPrimeSize" by (rule length_big_Bytes [OF less_trans [OF assms prime_less]])
  then show "primeField n = Ok (fieldBytes n)" "length (fieldBytes n) = CryptPrimeSize"
    by (simp_all add: primeField_def fieldBytes_def Let_def)
  show "SetBytes (fieldBytes n) = n" by (simp add: fieldBytes_def SetBytes_zeros SetBytes_big_Bytes)
qed

lemma Exp_less: "big_Exp x y prime < prime"
  using prime_pos by (simp add: big_Exp_eq)

lemma shared_key:
  "big_Exp (big_Exp 2 a prime) b prime = big_Exp (big_Exp 2 b prime) a prime"
  by (simp add: big_Exp_eq power_mod power_mult [symmetric] mult.commute)

subsection \<open>An obfuscating client\<close>

text \<open>What a client with secret \<open>a\<close> sends, and the keys it derives from the server's answer.\<close>

definition clientOpening :: "u8 \<Rightarrow> nat \<Rightarrow> bytes \<Rightarrow> bytes" where
  "clientOpening marker a pad = marker # fieldBytes (big_Exp 2 a prime) @ of_nat (length pad) # pad"

definition clientSecret :: "nat \<Rightarrow> bytes \<Rightarrow> bytes" where
  "clientSecret a answer = fieldBytes (big_Exp (SetBytes (take CryptPrimeSize answer)) a prime)"

definition syncBlock :: "bytes \<Rightarrow> bytes" where
  "syncBlock pad = le_put 4 MagicValueSync @ [EmObfuscate, of_nat (length pad)] @ pad"

definition answerBlock :: "bytes \<Rightarrow> bytes" where
  "answerBlock pad = le_put 4 MagicValueSync @ [EmObfuscate, EmObfuscate, of_nat (length pad)] @ pad"

lemma length_opening: "length (clientOpening marker a pad) = cryptRequestFixed + length pad"
  using field(2) [OF Exp_less, of 2 a] by (simp add: clientOpening_def)

lemma opening_need:
  assumes "P @ Q = clientOpening marker a pad" "length pad < 256"
  shows "(if length P \<ge> cryptRequestFixed then cryptRequestFixed + unat (P ! (cryptRequestFixed - 1)) else cryptRequestFixed) =
    (if length P \<ge> cryptRequestFixed then length (clientOpening marker a pad) else cryptRequestFixed)"
proof (cases "length P \<ge> cryptRequestFixed")
  case True
  have "P ! (cryptRequestFixed - 1) = (P @ Q) ! (cryptRequestFixed - 1)" using True by (simp add: nth_append)
  also have "\<dots> = of_nat (length pad)"
    unfolding assms(1) using field(2) [OF Exp_less, of 2 a] by (simp add: clientOpening_def nth_append)
  finally show ?thesis using True assms(2) by (simp add: length_opening unat_of_nat_lt)
qed simp

lemma opening_key:
  "take CryptPrimeSize (drop 1 (clientOpening marker a pad)) = fieldBytes (big_Exp 2 a prime)"
  using field(2) [OF Exp_less, of 2 a] by (simp add: clientOpening_def)

definition serverPublic :: "bytes \<Rightarrow> bytes" where
  "serverPublic bRaw = fieldBytes (big_Exp 2 (SetBytes bRaw) prime)"

definition sharedBytes :: "nat \<Rightarrow> bytes \<Rightarrow> bytes" where
  "sharedBytes a bRaw = fieldBytes (big_Exp (big_Exp 2 a prime) (SetBytes bRaw) prime)"

definition serverAnswer :: "nat \<Rightarrow> bytes \<Rightarrow> bytes \<Rightarrow> bytes" where
  "serverAnswer a bRaw pad =
     serverPublic bRaw @ fst (RC4Crypt (answerBlock pad) (streamKey (sharedBytes a bRaw) MagicValueServer))"

lemma negotiate_answer:
  "negotiate (Ok bRaw) (Ok pad) (fieldBytes (big_Exp 2 a prime)) t =
     (Ok (serverAnswer a bRaw pad),
      t\<lparr>tc_sendKey := Some (snd (RC4Crypt (answerBlock pad) (streamKey (sharedBytes a bRaw) MagicValueServer))),
        tc_recvKey := Some (streamKey (sharedBytes a bRaw) MagicValueRequester)\<rparr>)"
  by (simp add: negotiate_def Let_def field [OF Exp_less] serverAnswer_def serverPublic_def sharedBytes_def answerBlock_def
      case_prod_beta del: MagicValueServer_def MagicValueRequester_def le_put.simps)

lemma clientSecret_shared: "clientSecret a (serverAnswer a bRaw pad) = sharedBytes a bRaw"
  using field(2,3) [OF Exp_less, of 2 "SetBytes bRaw"]
  by (simp add: clientSecret_def serverAnswer_def serverPublic_def sharedBytes_def shared_key)

lemma ProcessData_opening:
  assumes "tc_state t = CsUnknown" "(tc_pending t @ data) @ Q = clientOpening marker a pad" "length pad < 256" "Q \<noteq> []"
  shows "ProcessData bd pd data t pk = (Ok [], t\<lparr>tc_pending := tc_pending t @ data\<rparr>, pk)"
proof -
  have "length ((tc_pending t @ data) @ Q) = length (clientOpening marker a pad)" unfolding assms(2) ..
  then have "length (tc_pending t @ data) < length (clientOpening marker a pad)" using assms(4) by (cases Q) auto
  then show ?thesis
    using opening_need [OF assms(2,3)] assms(1)
    by (auto simp: ProcessData_def Let_def simp del: cryptRequestFixed_def split: if_splits)
qed

lemma ProcessData_opened:
  assumes "tc_state t = CsUnknown" "tc_pending t @ data = clientOpening marker a pad" "length pad < 256"
  shows "ProcessData (Ok bRaw) (Ok spad) data t pk =
    (Ok (serverAnswer a bRaw spad),
     t\<lparr>tc_pending := [], tc_state := CsNegotiating,
       tc_sendKey := Some (snd (RC4Crypt (answerBlock spad) (streamKey (sharedBytes a bRaw) MagicValueServer))),
       tc_recvKey := Some (streamKey (sharedBytes a bRaw) MagicValueRequester)\<rparr>, pk\<lparr>pk_Status := PsCryptNegotiating\<rparr>)"
proof -
  have "length (clientOpening marker a pad) \<ge> cryptRequestFixed" by (simp add: length_opening)
  then show ?thesis
    using opening_need [of "tc_pending t @ data" "[]" marker a pad] assms
    by (simp add: ProcessData_def Let_def opening_key [simplified] negotiate_answer del: cryptRequestFixed_def)
qed

subsection \<open>The client's reply\<close>

lemma handshake_prefix:
  assumes "P @ Q = syncBlock pad @ stream" "length pad < 256"
  shows "handshake P = (if length P < length (syncBlock pad) then Ok ([], False) else Ok (drop (length (syncBlock pad)) P, True))"
proof -
  have len: "length (syncBlock pad) = 6 + length pad" by (simp add: syncBlock_def)
  have nth: "P ! i = (syncBlock pad @ stream) ! i" if "i < length P" for i
    using that assms(1) [symmetric] by (simp add: nth_append)
  have four: "take 4 P = le_put 4 MagicValueSync" if "4 \<le> length P"
  proof -
    have "take 4 P = take 4 (P @ Q)" using that by simp
    then show ?thesis unfolding assms(1) by (simp add: syncBlock_def)
  qed
  have "P ! 4 = EmObfuscate" "P ! 5 = of_nat (length pad)" if "6 \<le> length P"
    using nth [of 4] nth [of 5] that by (simp_all add: syncBlock_def nth_append del: EmObfuscate_def)
  then show ?thesis using four assms(2) len
    by (auto simp: handshake_def Let_def le_get_put unat_of_nat_lt simp del: le_put.simps)
qed

subsection \<open>The phases of a connection\<close>

lemma loop_opening:
  assumes "cn_crypt c = Some t" "tc_state t = CsUnknown" "tc_pending t @ concat cs = clientOpening marker a pad"
    "cs \<noteq> []" "[] \<notin> set cs" "\<not> ss_closed (cn_sess c)" "\<not> IsProtocol marker" "length pad < 256"
  shows "connLoop h (Ok bRaw) (Ok spad) cs c = Ok (c\<lparr>
    cn_crypt := Some (t\<lparr>tc_pending := [], tc_state := CsNegotiating,
       tc_sendKey := Some (snd (RC4Crypt (answerBlock spad) (streamKey (sharedBytes a bRaw) MagicValueServer))),
       tc_recvKey := Some (streamKey (sharedBytes a bRaw) MagicValueRequester)\<rparr>),
    cn_frame := (cn_frame c)\<lparr>fs_packet := (fs_packet (cn_frame c))\<lparr>pk_Status := PsCryptNegotiating\<rparr>\<rparr>,
    cn_wire := cn_wire c @ serverAnswer a bRaw spad\<rparr>)"
  using assms
proof (induction cs arbitrary: c t)
  case (Cons x cs)
  have first: "\<not> (length x > 0 \<and> IsProtocol (x ! 0) \<and> Buffered t = 0)"
  proof
    assume x: "length x > 0 \<and> IsProtocol (x ! 0) \<and> Buffered t = 0"
    then have "x ! 0 = (tc_pending t @ concat (x # cs)) ! 0" by (simp add: Buffered_def nth_append)
    then have "x ! 0 = marker" unfolding Cons.prems(3) by (simp add: clientOpening_def)
    with x Cons.prems(7) show False by simp
  qed
  show ?case
  proof (cases cs)
    case Nil
    have p: "tc_pending t @ x = clientOpening marker a pad" using Cons.prems(3) Nil by simp
    have ne: "serverAnswer a bRaw spad \<noteq> []"
      using field(2) [OF Exp_less, of 2 "SetBytes bRaw"] by (auto simp: serverAnswer_def serverPublic_def)
    have "handleBytes h (Ok bRaw) (Ok spad) x c = Ok (c\<lparr>
        cn_crypt := Some (t\<lparr>tc_pending := [], tc_state := CsNegotiating,
           tc_sendKey := Some (snd (RC4Crypt (answerBlock spad) (streamKey (sharedBytes a bRaw) MagicValueServer))),
           tc_recvKey := Some (streamKey (sharedBytes a bRaw) MagicValueRequester)\<rparr>),
        cn_frame := (cn_frame c)\<lparr>fs_packet := (fs_packet (cn_frame c))\<lparr>pk_Status := PsCryptNegotiating\<rparr>\<rparr>,
        cn_wire := cn_wire c @ serverAnswer a bRaw spad\<rparr>)"
      using first ne Cons.prems(1,2) ProcessData_opened [OF Cons.prems(2) p Cons.prems(8)]
      by (auto simp: handleBytes_def writeRaw_def)
    then show ?thesis using Nil Cons.prems(6) by simp
  next
    case (Cons y ys)
    let ?t = "t\<lparr>tc_pending := tc_pending t @ x\<rparr>" and ?c = "c\<lparr>cn_crypt := Some (t\<lparr>tc_pending := tc_pending t @ x\<rparr>)\<rparr>"
    have q: "concat cs \<noteq> []" "(tc_pending t @ x) @ concat cs = clientOpening marker a pad"
      using Cons Cons.prems(3,5) by auto
    have "handleBytes h (Ok bRaw) (Ok spad) x c = Ok ?c"
      using first Cons.prems(1,2) ProcessData_opening [OF Cons.prems(2) q(2) Cons.prems(8) q(1)]
      by (auto simp: handleBytes_def)
    moreover have "connLoop h (Ok bRaw) (Ok spad) cs ?c = Ok (?c\<lparr>
      cn_crypt := Some (?t\<lparr>tc_pending := [], tc_state := CsNegotiating,
         tc_sendKey := Some (snd (RC4Crypt (answerBlock spad) (streamKey (sharedBytes a bRaw) MagicValueServer))),
         tc_recvKey := Some (streamKey (sharedBytes a bRaw) MagicValueRequester)\<rparr>),
      cn_frame := (cn_frame ?c)\<lparr>fs_packet := (fs_packet (cn_frame ?c))\<lparr>pk_Status := PsCryptNegotiating\<rparr>\<rparr>,
      cn_wire := cn_wire ?c @ serverAnswer a bRaw spad\<rparr>)"
      using Cons.prems q Cons by (intro Cons.IH) auto
    ultimately show ?thesis using Cons.prems(6) by simp
  qed
qed simp

subsubsection \<open>Encrypting\<close>

lemma fold_writeRaw:
  assumes "cn_crypt c = Some t" "tc_state t = CsEncrypting" "tc_sendKey t = Some sk"
  shows "fold writeRaw new c = c\<lparr>cn_crypt := Some (t\<lparr>tc_sendKey := Some (snd (RC4Crypt (concat new) sk))\<rparr>),
    cn_wire := cn_wire c @ fst (RC4Crypt (concat new) sk)\<rparr>"
  using assms
proof (induction new arbitrary: c t sk)
  case (Cons x new)
  have "writeRaw x c = c\<lparr>cn_crypt := Some (t\<lparr>tc_sendKey := Some (snd (RC4Crypt x sk))\<rparr>), cn_wire := cn_wire c @ fst (RC4Crypt x sk)\<rparr>"
    using Cons.prems by (simp add: writeRaw_def rc4_on_def case_prod_beta)
  then show ?case using Cons.prems by (simp add: Cons.IH fst_RC4Crypt_append snd_RC4Crypt_append)
qed simp

fun decChunks :: "rc4key \<Rightarrow> bytes list \<Rightarrow> bytes list" where
  "decChunks k [] = []"
| "decChunks k (x # xs) = fst (RC4Crypt x k) # decChunks (snd (RC4Crypt x k)) xs"

lemma concat_decChunks: "concat (decChunks k xs) = fst (RC4Crypt (concat xs) k)"
  by (induction xs arbitrary: k) (simp_all add: fst_RC4Crypt_append)

lemma decChunks_nonempty: "[] \<notin> set xs \<Longrightarrow> [] \<notin> set (decChunks k xs)"
proof (induction xs arbitrary: k)
  case (Cons x xs)
  have "length (fst (RC4Crypt x k)) = length x" by simp
  then have "fst (RC4Crypt x k) \<noteq> []" using Cons.prems by (metis length_0_conv list.set_intros(1))
  then show ?case using Cons by auto
qed simp

text \<open>A connection that has served part of a stream: state, framing, session and output.\<close>

definition advanced :: "'a conn \<Rightarrow> rc4key \<Rightarrow> frame_state \<Rightarrow> 'a session \<Rightarrow> 'a conn \<Rightarrow> bool" where
  "advanced c sk f' s' c' \<longleftrightarrow>
     (\<exists>t' sk'. cn_crypt c' = Some t' \<and> tc_state t' = CsEncrypting \<and> tc_sendKey t' = Some sk' \<and>
       (\<exists>new. ss_sent s' = ss_sent (cn_sess c) @ new \<and> cn_wire c' = cn_wire c @ fst (RC4Crypt (concat new) sk) \<and>
          sk' = snd (RC4Crypt (concat new) sk))) \<and>
     cn_frame c' = f' \<and> cn_sess c' = s'"

lemma processData_encrypting:
  assumes "cn_crypt c = Some t" "tc_state t = CsEncrypting" "tc_sendKey t = Some sk" "frame_inv (cn_frame c)"
    "processPacketData h x (cn_frame c) (cn_sess c) = Ok (f', s')"
  shows "\<exists>c' t'. processData h x c = Ok c' \<and> advanced c sk f' s' c' \<and> cn_crypt c' = Some t' \<and> tc_recvKey t' = tc_recvKey t"
proof -
  from process_closes [OF assms(4,5)] obtain new where new: "ss_sent s' = ss_sent (cn_sess c) @ new" by (auto simp: closes_def)
  have "processData h x c = Ok (fold writeRaw new (c\<lparr>cn_frame := f', cn_sess := s'\<rparr>))"
    by (simp add: processData_def assms(5) new)
  also have "fold writeRaw new (c\<lparr>cn_frame := f', cn_sess := s'\<rparr>) = c\<lparr>cn_frame := f', cn_sess := s',
     cn_crypt := Some (t\<lparr>tc_sendKey := Some (snd (RC4Crypt (concat new) sk))\<rparr>), cn_wire := cn_wire c @ fst (RC4Crypt (concat new) sk)\<rparr>"
    using assms(1-3) by (subst fold_writeRaw [of _ t sk]) simp_all
  finally show ?thesis using assms(2) new by (auto simp: advanced_def)
qed

lemma advanced_trans:
  assumes "advanced c sk f1 s1 c1" "cn_crypt c1 = Some t1" "tc_sendKey t1 = Some sk1" "advanced c1 sk1 f2 s2 c2"
  shows "advanced c sk f2 s2 c2"
  using assms by (auto simp: advanced_def fst_RC4Crypt_append snd_RC4Crypt_append)

lemma loop_encrypting:
  assumes "cn_crypt c = Some t" "tc_state t = CsEncrypting" "tc_sendKey t = Some sk" "tc_recvKey t = Some rk"
    "frame_inv (cn_frame c)" "readLoop h (decChunks rk cs) (cn_frame c) (cn_sess c) = Ok (f', s')"
  shows "\<exists>c'. connLoop h bd pd cs c = Ok c' \<and> advanced c sk f' s' c'"
  using assms
proof (induction cs arbitrary: c t sk rk)
  case Nil
  then show ?case by (auto simp: advanced_def intro!: exI [of _ "[] :: bytes list"])
next
  case (Cons x cs)
  let ?p = "fst (RC4Crypt x rk)" and ?t = "t\<lparr>tc_recvKey := Some (snd (RC4Crypt x rk))\<rparr>"
  show ?case
  proof (cases "ss_closed (cn_sess c)")
    case True
    with Cons.prems show ?thesis by (auto simp: advanced_def intro!: exI [of _ "[] :: bytes list"])
  next
    case False
    with Cons.prems(6) obtain f1 s1 where 1: "processPacketData h ?p (cn_frame c) (cn_sess c) = Ok (f1, s1)"
      "readLoop h (decChunks (snd (RC4Crypt x rk)) cs) f1 s1 = Ok (f', s')"
      by (auto split: res.splits)
    have "handleBytes h bd pd x c = processData h ?p (c\<lparr>cn_crypt := Some ?t\<rparr>)"
      using Cons.prems(1-4) by (simp add: handleBytes_def tcp_Decrypt_def rc4_on_def case_prod_beta)
    moreover obtain c1 t1 where c1: "processData h ?p (c\<lparr>cn_crypt := Some ?t\<rparr>) = Ok c1"
      "advanced (c\<lparr>cn_crypt := Some ?t\<rparr>) sk f1 s1 c1" "cn_crypt c1 = Some t1" "tc_recvKey t1 = Some (snd (RC4Crypt x rk))"
      using processData_encrypting [of "c\<lparr>cn_crypt := Some ?t\<rparr>" ?t sk h ?p f1 s1] Cons.prems 1 by auto
    moreover obtain sk1 where sk1: "tc_sendKey t1 = Some sk1" "tc_state t1 = CsEncrypting"
      using c1(2,3) by (auto simp: advanced_def)
    moreover have "frame_inv f1" using process_closes [OF Cons.prems(5) 1(1)] by blast
    ultimately obtain c2 where "connLoop h bd pd cs c1 = Ok c2" "advanced c1 sk1 f' s' c2"
      using Cons.IH [of c1 t1 sk1 "snd (RC4Crypt x rk)"] 1(2) by (auto simp: advanced_def)
    moreover have "advanced c sk f1 s1 c1" using c1(2) by (simp add: advanced_def)
    ultimately show ?thesis
      using advanced_trans [OF _ c1(3) sk1(1)] False \<open>handleBytes h bd pd x c = _\<close> c1(1) by auto
  qed
qed

subsubsection \<open>Reading the reply\<close>

lemma ProcessData_reply:
  assumes "tc_state t = CsNegotiating" "tc_recvKey t = Some rk"
    "(tc_pending t @ fst (RC4Crypt x rk)) @ Q = syncBlock pad @ stream" "length pad < 256"
  shows "ProcessData bd pd x t pk =
    (let P = tc_pending t @ fst (RC4Crypt x rk); t' = t\<lparr>tc_recvKey := Some (snd (RC4Crypt x rk))\<rparr>
     in if length P < length (syncBlock pad) then (Ok [], t'\<lparr>tc_pending := P\<rparr>, pk)
        else (Ok (drop (length (syncBlock pad)) P), t'\<lparr>tc_pending := [], tc_state := CsEncrypting\<rparr>, pk\<lparr>pk_Status := PsNew\<rparr>))"
  using assms(1,2) by (auto simp: ProcessData_def rc4_on_def case_prod_beta Let_def handshake_prefix [OF assms(3,4)])

lemma handleBytes_reply:
  assumes "cn_crypt c = Some t" "tc_state t = CsNegotiating" "ProcessData bd pd x t (fs_packet (cn_frame c)) = (Ok rest, t', pk')"
  shows "handleBytes h bd pd x c =
    (let c' = c\<lparr>cn_crypt := Some t', cn_frame := (cn_frame c)\<lparr>fs_packet := pk'\<rparr>\<rparr>
     in if rest = [] then Ok c' else processData h rest c')"
  using assms by (simp add: handleBytes_def Let_def)

lemma loop_negotiating:
  assumes "cn_crypt c = Some t" "tc_state t = CsNegotiating" "tc_sendKey t = Some sk" "tc_recvKey t = Some rk"
    "tc_pending t @ fst (RC4Crypt (concat cs) rk) = syncBlock pad @ stream" "length pad < 256"
    "length (tc_pending t) < length (syncBlock pad)" "[] \<notin> set cs" "\<not> ss_closed (cn_sess c)"
    "f0 = (cn_frame c)\<lparr>fs_packet := (fs_packet (cn_frame c))\<lparr>pk_Status := PsNew\<rparr>\<rparr>" "frame_inv f0"
  shows "\<exists>bufs. concat bufs = stream \<and> [] \<notin> set bufs \<and>
    (\<forall>f' s'. readLoop h bufs f0 (cn_sess c) = Ok (f', s') \<longrightarrow> (\<exists>c'. connLoop h bd pd cs c = Ok c' \<and> advanced c sk f' s' c'))"
  using assms
proof (induction cs arbitrary: c t rk)
  case Nil
  then show ?case by (metis append_Nil2 append_Nil concat.simps(1) RC4Crypt.simps(1) fst_conv length_append le_add1 not_less)
next
  case (Cons x cs)
  let ?x = "fst (RC4Crypt x rk)" and ?rk = "snd (RC4Crypt x rk)" and ?n = "length (syncBlock pad)"
  let ?P = "tc_pending t @ fst (RC4Crypt x rk)" and ?Q = "fst (RC4Crypt (concat cs) (snd (RC4Crypt x rk)))"
  have split: "?P @ ?Q = syncBlock pad @ stream" using Cons.prems(5) by (simp add: fst_RC4Crypt_append)
  note pd = ProcessData_reply [OF Cons.prems(2,4) split Cons.prems(6), of bd pd "fs_packet (cn_frame c)"]
  show ?case
  proof (cases "length ?P < ?n")
    case True
    let ?t = "t\<lparr>tc_recvKey := Some ?rk, tc_pending := ?P\<rparr>"
    have "handleBytes h bd pd x c = Ok (c\<lparr>cn_crypt := Some ?t\<rparr>)"
      using handleBytes_reply [OF Cons.prems(1,2)] pd True by (simp add: Let_def)
    moreover have "\<exists>bufs. concat bufs = stream \<and> [] \<notin> set bufs \<and> (\<forall>f' s'. readLoop h bufs f0 (cn_sess c) = Ok (f', s') \<longrightarrow>
        (\<exists>c'. connLoop h bd pd cs (c\<lparr>cn_crypt := Some ?t\<rparr>) = Ok c' \<and> advanced (c\<lparr>cn_crypt := Some ?t\<rparr>) sk f' s' c'))"
      using Cons.IH [of "c\<lparr>cn_crypt := Some ?t\<rparr>" ?t ?rk] Cons.prems split True by simp
    ultimately show ?thesis using Cons.prems(9) by (simp add: advanced_def)
  next
    case False
    let ?rest = "drop ?n ?P" and ?t = "t\<lparr>tc_recvKey := Some ?rk, tc_pending := [], tc_state := CsEncrypting\<rparr>"
    let ?c = "c\<lparr>cn_crypt := Some ?t, cn_frame := f0\<rparr>"
    have h: "handleBytes h bd pd x c = (if ?rest = [] then Ok ?c else processData h ?rest ?c)"
      using handleBytes_reply [OF Cons.prems(1,2)] pd False Cons.prems(10) by (simp add: Let_def)
    let ?bufs = "(if ?rest = [] then [] else [?rest]) @ decChunks ?rk cs"
    have "drop ?n (?P @ ?Q) = stream" unfolding split by simp
    moreover have "drop ?n (?P @ ?Q) = ?rest @ ?Q" using False by (simp only: drop_append) simp
    ultimately have "?rest @ ?Q = stream" by (simp only:)
    moreover have "concat ?bufs = ?rest @ ?Q" by (simp only: concat_append concat_decChunks) simp
    ultimately have "concat ?bufs = stream" by (simp only:)
    moreover have "[] \<notin> set ?bufs" using decChunks_nonempty [of cs ?rk] Cons.prems(8) by simp
    moreover have "\<exists>c'. connLoop h bd pd (x # cs) c = Ok c' \<and> advanced c sk f' s' c'"
      if r: "readLoop h ?bufs f0 (cn_sess c) = Ok (f', s')" for f' s'
    proof (cases "?rest = []")
      case True
      from loop_encrypting [of ?c ?t sk ?rk h cs f' s' bd pd] r True Cons.prems
      obtain c' where "connLoop h bd pd cs ?c = Ok c'" "advanced ?c sk f' s' c'" by auto
      then show ?thesis using h True Cons.prems(9) by (simp add: advanced_def)
    next
      case ne: False
      from r ne Cons.prems(9) obtain f1 s1 where 1: "processPacketData h ?rest f0 (cn_sess c) = Ok (f1, s1)"
        "readLoop h (decChunks ?rk cs) f1 s1 = Ok (f', s')" by (auto split: res.splits)
      from processData_encrypting [of ?c ?t sk h ?rest f1 s1] 1 Cons.prems
      obtain c1 t1 where c1: "processData h ?rest ?c = Ok c1" "advanced ?c sk f1 s1 c1" "cn_crypt c1 = Some t1" "tc_recvKey t1 = Some ?rk"
        by auto
      obtain sk1 where sk1: "tc_sendKey t1 = Some sk1" "tc_state t1 = CsEncrypting" using c1(2,3) by (auto simp: advanced_def)
      have f1: "cn_frame c1 = f1" "cn_sess c1 = s1" "frame_inv f1"
        using c1(2) process_closes [OF Cons.prems(11) 1(1)] by (auto simp: advanced_def)
      from loop_encrypting [OF c1(3) sk1(2,1) c1(4), of h cs f' s' bd pd] f1 1(2)
      obtain c2 where c2: "connLoop h bd pd cs c1 = Ok c2" "advanced c1 sk1 f' s' c2" by auto
      moreover have "advanced c sk f1 s1 c1" using c1(2) by (simp add: advanced_def)
      ultimately show ?thesis using advanced_trans [OF _ c1(3) sk1(1)] h ne c1(1) Cons.prems(9) by auto
    qed
    ultimately show ?thesis by blast
  qed
qed


text \<open>C2: A client that runs the obfuscation handshake is served exactly as if it had sent its
  packets in the clear, for every secret on either side and however TCP splits its opening
  and its encrypted stream: after the opening the server's answer gives the client the
  shared key, after the rest the session is the one that serves the client's messages, and
  the client decrypts from the server's bytes the sync block followed by every packet the
  server sent.
\<close>

theorem obfuscated_session_served:
  assumes "\<not> IsProtocol marker" "length pad1 < 256" "length pad2 < 256"
    "cs1 \<noteq> []" "[] \<notin> set cs1" "concat cs1 = clientOpening marker a pad1"
    "list_all msg_ok ms" "ms \<noteq> []" "\<not> ss_loginGateTripped s" "\<not> ss_closed s" "\<not> ss_closed (serveAll h ms s)"
  shows "\<exists>c1. connLoop h (Ok bRaw) (Ok spad) cs1 \<lparr>cn_crypt = Some (NewTCPCrypt True), cn_frame = newFrame, cn_sess = s, cn_wire = []\<rparr> = Ok c1 \<and>
    (\<forall>cs2. [] \<notin> set cs2 \<and>
       concat cs2 = fst (RC4Crypt (syncBlock pad2 @ concat (map enc_msg ms)) (streamKey (clientSecret a (cn_wire c1)) MagicValueRequester)) \<longrightarrow>
       (\<exists>c2 new. connLoop h (Ok bRaw) (Ok spad) cs2 c1 = Ok c2 \<and> cn_sess c2 = serveAll h ms s \<and>
          ss_sent (serveAll h ms s) = ss_sent s @ new \<and>
          fst (RC4Crypt (drop CryptPrimeSize (cn_wire c2)) (streamKey (clientSecret a (cn_wire c1)) MagicValueServer)) =
            answerBlock spad @ concat new))"
proof -
  let ?cini = "\<lparr>cn_crypt = Some (NewTCPCrypt True), cn_frame = newFrame, cn_sess = s, cn_wire = []\<rparr>"
  let ?kb = "sharedBytes a bRaw" and ?ans = "serverAnswer a bRaw spad"
  let ?skey = "streamKey ?kb MagicValueServer" and ?rk = "streamKey ?kb MagicValueRequester"
  let ?sk = "snd (RC4Crypt (answerBlock spad) ?skey)"
  let ?t = "\<lparr>tc_state = CsNegotiating, tc_sendKey = Some ?sk, tc_recvKey = Some ?rk, tc_pending = []\<rparr>"
  let ?f = "newFrame\<lparr>fs_packet := (fs_packet newFrame)\<lparr>pk_Status := PsCryptNegotiating\<rparr>\<rparr>"
  let ?cone = "\<lparr>cn_crypt = Some ?t, cn_frame = ?f, cn_sess = s, cn_wire = ?ans\<rparr>"
  have one: "connLoop h (Ok bRaw) (Ok spad) cs1 ?cini = Ok ?cone"
    using loop_opening [of ?cini "NewTCPCrypt True" cs1 marker a pad1 h bRaw spad] assms(1,2,4-6,10) by (simp add: NewTCPCrypt_def)
  have two: "\<exists>c2 new. connLoop h (Ok bRaw) (Ok spad) cs2 ?cone = Ok c2 \<and> cn_sess c2 = serveAll h ms s \<and>
      ss_sent (serveAll h ms s) = ss_sent s @ new \<and>
      fst (RC4Crypt (drop CryptPrimeSize (cn_wire c2)) ?skey) = answerBlock spad @ concat new"
    if cs2: "[] \<notin> set cs2" "concat cs2 = fst (RC4Crypt (syncBlock pad2 @ concat (map enc_msg ms)) ?rk)" for cs2
  proof -
    have f0: "newFrame = ?f\<lparr>fs_packet := (fs_packet ?f)\<lparr>pk_Status := PsNew\<rparr>\<rparr>" by (simp add: newFrame_def NewPacket_def)
    have "fst (RC4Crypt (concat cs2) ?rk) = syncBlock pad2 @ concat (map enc_msg ms)" unfolding cs2(2) by simp
    then obtain bufs where bufs: "concat bufs = concat (map enc_msg ms)" "[] \<notin> set bufs"
      "\<forall>f' s'. readLoop h bufs newFrame s = Ok (f', s') \<longrightarrow> (\<exists>c'. connLoop h (Ok bRaw) (Ok spad) cs2 ?cone = Ok c' \<and> advanced ?cone ?sk f' s' c')"
      using loop_negotiating [of ?cone ?t ?sk ?rk cs2 pad2 "concat (map enc_msg ms)" newFrame h "Ok bRaw" "Ok spad"]
        cs2(1) assms(3,10) newFrame_inv(2) f0 by (auto simp: syncBlock_def)
    have "gate_inv s" using assms(9) by (simp add: gate_inv_def)
    from readLoop_messages [OF newFrame_inv(3) this assms(7,8,11) bufs(1,2)]
    obtain f' where "readLoop h bufs newFrame s = Ok (f', serveAll h ms s)" by blast
    with bufs(3) obtain c2 where c2: "connLoop h (Ok bRaw) (Ok spad) cs2 ?cone = Ok c2" "advanced ?cone ?sk f' (serveAll h ms s) c2" by blast
    then obtain new where new: "ss_sent (serveAll h ms s) = ss_sent s @ new" "cn_wire c2 = ?ans @ fst (RC4Crypt (concat new) ?sk)"
      "cn_sess c2 = serveAll h ms s" by (auto simp: advanced_def)
    have "drop CryptPrimeSize (cn_wire c2) = fst (RC4Crypt (answerBlock spad @ concat new) ?skey)"
      unfolding new(2) using field(2) [OF Exp_less, of 2 "SetBytes bRaw"]
      by (simp add: serverAnswer_def serverPublic_def fst_RC4Crypt_append)
    with c2(1) new show ?thesis by auto
  qed
  show ?thesis using one two clientSecret_shared [of a bRaw spad] by auto
qed

theorem obfuscated_session_served_witness:
  "\<exists>c1 c2. connLoop count_handlers (Ok [5]) (Ok [1, 2]) [clientOpening 0x10 9 [7]]
       \<lparr>cn_crypt = Some (NewTCPCrypt True), cn_frame = newFrame, cn_sess = new_session, cn_wire = []\<rparr> = Ok c1 \<and>
     connLoop count_handlers (Ok [5]) (Ok [1, 2])
       [fst (RC4Crypt (syncBlock [] @ concat (map enc_msg sample_messages)) (streamKey (clientSecret 9 (cn_wire c1)) MagicValueRequester))] c1 = Ok c2 \<and>
     ss_app (cn_sess c2) = 2"
proof -
  let ?cs1 = "[clientOpening 0x10 9 [7]]"
  have "\<not> IsProtocol 0x10" "?cs1 \<noteq> []" "[] \<notin> set ?cs1" "concat ?cs1 = clientOpening 0x10 9 [7]"
    "\<not> ss_closed (serveAll count_handlers sample_messages new_session)"
    by (simp_all add: IsProtocol_def clientOpening_def sample_conversation(2)) (simp add: new_session_def)
  with obfuscated_session_served [of "0x10" "[7]" "[]" ?cs1 9 sample_messages new_session count_handlers "[5]" "[1, 2]"] sample_conversation(1)
  obtain c1 where c1: "connLoop count_handlers (Ok [5]) (Ok [1, 2]) ?cs1
       \<lparr>cn_crypt = Some (NewTCPCrypt True), cn_frame = newFrame, cn_sess = new_session, cn_wire = []\<rparr> = Ok c1"
    "\<forall>cs2. [] \<notin> set cs2 \<and>
       concat cs2 = fst (RC4Crypt (syncBlock [] @ concat (map enc_msg sample_messages)) (streamKey (clientSecret 9 (cn_wire c1)) MagicValueRequester)) \<longrightarrow>
       (\<exists>c2 new. connLoop count_handlers (Ok [5]) (Ok [1, 2]) cs2 c1 = Ok c2 \<and> cn_sess c2 = serveAll count_handlers sample_messages new_session \<and>
          ss_sent (serveAll count_handlers sample_messages new_session) = ss_sent new_session @ new \<and>
          fst (RC4Crypt (drop CryptPrimeSize (cn_wire c2)) (streamKey (clientSecret 9 (cn_wire c1)) MagicValueServer)) =
            answerBlock [1, 2] @ concat new)"
    by (auto simp: new_session_def sample_messages_def)
  let ?e = "fst (RC4Crypt (syncBlock [] @ concat (map enc_msg sample_messages)) (streamKey (clientSecret 9 (cn_wire c1)) MagicValueRequester))"
  have "length ?e > 0" by (simp add: syncBlock_def)
  then have "?e \<noteq> []" by (metis length_greater_0_conv)
  with c1(2) [rule_format, of "[?e]"] obtain c2 where "connLoop count_handlers (Ok [5]) (Ok [1, 2]) [?e] c1 = Ok c2"
    "cn_sess c2 = serveAll count_handlers sample_messages new_session" by auto
  then show ?thesis using c1(1) by (auto simp: sample_conversation(2))
qed

subsection \<open>Plain clients and faults\<close>

lemma fold_writeRaw_plain:
  "cn_crypt c = Some t \<Longrightarrow> tc_state t \<noteq> CsEncrypting \<Longrightarrow> fold writeRaw new c = c\<lparr>cn_wire := cn_wire c @ concat new\<rparr>"
  by (induction new arbitrary: c) (simp_all add: writeRaw_def)

lemma loop_plain:
  assumes "cn_crypt c = Some t" "tc_state t = CsNone" "frame_inv (cn_frame c)"
    "readLoop h cs (cn_frame c) (cn_sess c) = Ok (f', s')"
  shows "\<exists>new. ss_sent s' = ss_sent (cn_sess c) @ new \<and>
    connLoop h bd pd cs c = Ok (c\<lparr>cn_frame := f', cn_sess := s', cn_wire := cn_wire c @ concat new\<rparr>)"
  using assms
proof (induction cs arbitrary: c)
  case (Cons x cs)
  show ?case
  proof (cases "ss_closed (cn_sess c)")
    case False
    with Cons.prems(4) obtain f1 s1 where 1: "processPacketData h x (cn_frame c) (cn_sess c) = Ok (f1, s1)"
      "readLoop h cs f1 s1 = Ok (f', s')" by (auto split: res.splits)
    from process_closes [OF Cons.prems(3) 1(1)] obtain new where new: "ss_sent s1 = ss_sent (cn_sess c) @ new" "frame_inv f1"
      by (auto simp: closes_def)
    let ?c = "c\<lparr>cn_frame := f1, cn_sess := s1, cn_wire := cn_wire c @ concat new\<rparr>"
    have "handleBytes h bd pd x c = Ok ?c"
      using Cons.prems(1,2) 1(1) new(1) fold_writeRaw_plain [of "c\<lparr>cn_frame := f1, cn_sess := s1\<rparr>" t new]
      by (simp add: handleBytes_def processData_def)
    moreover from Cons.IH [of ?c] Cons.prems(1,2) 1(2) new(2) obtain new' where "ss_sent s' = ss_sent s1 @ new'"
      "connLoop h bd pd cs ?c = Ok (?c\<lparr>cn_frame := f', cn_sess := s', cn_wire := cn_wire ?c @ concat new'\<rparr>)" by auto
    ultimately show ?thesis using new(1) False by auto
  qed (use Cons.prems in auto)
qed auto

text \<open>C37: A client that does not obfuscate may connect to the obfuscated port: when the first byte
  of its stream is a protocol byte, its reads are framed and served as on the plain port
  and every packet is written to it in the clear.
\<close>

theorem plain_client_on_obfuscated_port:
  assumes "x \<noteq> []" "IsProtocol (x ! 0)" "readLoop h (x # cs) newFrame s = Ok (f', s')"
  shows "\<exists>c' new. connLoop h bd pd (x # cs) \<lparr>cn_crypt = Some (NewTCPCrypt True), cn_frame = newFrame, cn_sess = s, cn_wire = []\<rparr> = Ok c' \<and>
    cn_frame c' = f' \<and> cn_sess c' = s' \<and> ss_sent s' = ss_sent s @ new \<and> cn_wire c' = concat new"
proof (cases "ss_closed s")
  case False
  let ?t = "SetState CsNone (NewTCPCrypt True)"
  let ?c = "\<lparr>cn_crypt = Some (NewTCPCrypt True), cn_frame = newFrame, cn_sess = s, cn_wire = []\<rparr>"
  let ?c' = "\<lparr>cn_crypt = Some ?t, cn_frame = newFrame, cn_sess = s, cn_wire = []\<rparr>"
  have "handleBytes h bd pd x ?c = handleBytes h bd pd x ?c'"
    using assms(1,2) by (simp add: handleBytes_def NewTCPCrypt_def SetState_def Buffered_def)
  then have "connLoop h bd pd (x # cs) ?c = connLoop h bd pd (x # cs) ?c'" using False by simp
  with loop_plain [of ?c' ?t h "x # cs" f' s' bd pd] newFrame_inv(2) assms(3) show ?thesis
    by (auto simp: SetState_def)
qed (use assms(3) in auto)

theorem plain_client_on_obfuscated_port_witness:
  "\<exists>c'. connLoop count_handlers (Ok []) (Ok []) sample_reads
      \<lparr>cn_crypt = Some (NewTCPCrypt True), cn_frame = newFrame, cn_sess = new_session, cn_wire = []\<rparr> = Ok c' \<and> ss_app (cn_sess c') = 2"
proof -
  have g: "gate_inv new_session" "\<not> ss_closed (serveAll count_handlers sample_messages new_session)" "[] \<notin> set sample_reads" "sample_messages \<noteq> []"
    unfolding sample_conversation(2) by (simp_all add: gate_inv_def new_session_def sample_reads_def sample_messages_def)
  from readLoop_messages [OF newFrame_inv(3) g(1) sample_conversation(1) g(4,2) sample_bytes(2) g(3)]
  obtain f where "readLoop count_handlers sample_reads newFrame new_session = Ok (f, new_session\<lparr>ss_logged := True, ss_app := 2\<rparr>)"
    unfolding sample_conversation(2) by blast
  moreover have r: "[0xE3, 1, 0] # tl sample_reads = sample_reads" by (simp add: sample_reads_def)
  ultimately have "\<exists>c' new. connLoop count_handlers (Ok []) (Ok []) sample_reads
      \<lparr>cn_crypt = Some (NewTCPCrypt True), cn_frame = newFrame, cn_sess = new_session, cn_wire = []\<rparr> = Ok c' \<and> cn_frame c' = f \<and>
      cn_sess c' = new_session\<lparr>ss_logged := True, ss_app := 2\<rparr> \<and> ss_sent (new_session\<lparr>ss_logged := True, ss_app := 2\<rparr>) = ss_sent new_session @ new \<and> cn_wire c' = concat new"
    using plain_client_on_obfuscated_port [of "[0xE3, 1, 0]" count_handlers "tl sample_reads" new_session f
        "new_session\<lparr>ss_logged := True, ss_app := 2\<rparr>" "Ok []" "Ok []", unfolded r] by (simp add: IsProtocol_def)
  then show ?thesis by (auto simp del: connLoop.simps)
qed

text \<open>What holds between reads: a stage keeps less than its own length.\<close>

definition conn_inv :: "'a conn \<Rightarrow> bool" where
  "conn_inv c \<longleftrightarrow> (case cn_crypt c of None \<Rightarrow> frame_inv (cn_frame c)
     | Some t \<Rightarrow> ss_closed (cn_sess c) \<or>
         (if tc_state t = CsUnknown then cn_frame c = newFrame \<and> Buffered t < cryptRequestFixed + 255
          else if tc_state t = CsNegotiating then
            cn_frame c = newFrame\<lparr>fs_packet := (fs_packet newFrame)\<lparr>pk_Status := PsCryptNegotiating\<rparr>\<rparr> \<and>
            Buffered t < cryptHandshakeFixed + 255 \<and> tc_sendKey t \<noteq> None \<and> tc_recvKey t \<noteq> None
          else if tc_state t = CsEncrypting then frame_inv (cn_frame c) \<and> tc_sendKey t \<noteq> None \<and> tc_recvKey t \<noteq> None
          else tc_state t = CsNone \<and> frame_inv (cn_frame c)))"

lemma u8_le [simp]: "unat (x :: u8) \<le> 255"
  using u8_less [of x] by linarith

lemma negotiate_total:
  assumes "bd \<noteq> Panic" "pd \<noteq> Panic" "negotiate bd pd aBytes t = (r, t')"
  shows "r \<noteq> Panic \<and> tc_state t' = tc_state t \<and> (\<forall>resp. r = Ok resp \<longrightarrow> tc_sendKey t' \<noteq> None \<and> tc_recvKey t' \<noteq> None)"
  using assms by (auto simp: negotiate_def Let_def field [OF Exp_less] split: res.splits prod.splits)

lemma processData_total:
  assumes "frame_inv (cn_frame c)" "\<forall>t. cn_crypt c = Some t \<longrightarrow> (tc_state t = CsNone \<or> tc_state t = CsEncrypting \<and> tc_sendKey t \<noteq> None \<and> tc_recvKey t \<noteq> None)"
  shows "\<exists>c'. processData h x c = Ok c' \<and> conn_inv c'"
proof -
  from process_total [OF assms(1)] obtain f' s' where p: "processPacketData h x (cn_frame c) (cn_sess c) = Ok (f', s')" "frame_inv f'" by blast
  let ?c = "c\<lparr>cn_frame := f', cn_sess := s'\<rparr>"
  have "\<exists>c'. fold writeRaw new ?c = c' \<and> conn_inv c'" for new
  proof (cases "cn_crypt c")
    case None
    have "fold writeRaw new d = d\<lparr>cn_wire := cn_wire d @ concat new\<rparr>" if "cn_crypt d = None" for d :: "'a conn"
      using that by (induction new arbitrary: d) (simp_all add: writeRaw_def)
    with None p(2) show ?thesis by (simp add: conn_inv_def)
  next
    case (Some t)
    with assms(2) consider "tc_state t = CsNone" | sk where "tc_state t = CsEncrypting" "tc_sendKey t = Some sk" "tc_recvKey t \<noteq> None" by auto
    then show ?thesis
      using fold_writeRaw_plain [of ?c t new] fold_writeRaw [of ?c t _ new] Some p(2) by cases (auto simp: conn_inv_def)
  qed
  then show ?thesis using p(1) by (auto simp: processData_def)
qed

lemma ProcessData_Unknown:
  assumes "tc_state t = CsUnknown" "bd \<noteq> Panic" "pd \<noteq> Panic" "ProcessData bd pd x t pk = (r, t', pk')"
  shows "r \<noteq> Panic \<and> (\<forall>rest. r = Ok rest \<longrightarrow>
    tc_state t' = CsUnknown \<and> pk' = pk \<and> Buffered t' < cryptRequestFixed + 255 \<or>
    tc_state t' = CsNegotiating \<and> pk' = pk\<lparr>pk_Status := PsCryptNegotiating\<rparr> \<and> Buffered t' = 0 \<and> tc_sendKey t' \<noteq> None \<and> tc_recvKey t' \<noteq> None)"
proof -
  let ?p = "tc_pending t @ x" and ?t = "t\<lparr>tc_pending := tc_pending t @ x\<rparr>"
  let ?need = "if length ?p \<ge> cryptRequestFixed then cryptRequestFixed + unat (?p ! (cryptRequestFixed - 1)) else cryptRequestFixed"
  have le: "?need \<le> cryptRequestFixed + 255" by simp
  consider (short) "length ?p < ?need" | (long) "length ?p > ?need" | (exact) "length ?p = ?need" by linarith
  then show ?thesis
  proof cases
    case short
    then have "ProcessData bd pd x t pk = (Ok [], ?t, pk)" using assms(1) by (auto simp: ProcessData_def Let_def split: if_splits)
    then show ?thesis using assms(1,4) short le by (auto simp: Buffered_def simp del: cryptRequestFixed_def)
  next
    case long
    then have "\<exists>e. ProcessData bd pd x t pk = (Err e, ?t, pk)" using assms(1) by (auto simp: ProcessData_def Let_def split: if_splits)
    then show ?thesis using assms(4) by auto
  next
    case exact
    obtain r0 t0 where n: "negotiate bd pd (take CryptPrimeSize (drop 1 ?p)) ?t = (r0, t0)" by fastforce
    have "ProcessData bd pd x t pk = (case r0 of Ok resp \<Rightarrow> (Ok resp, t0\<lparr>tc_pending := [], tc_state := CsNegotiating\<rparr>, pk\<lparr>pk_Status := PsCryptNegotiating\<rparr>)
        | r \<Rightarrow> (r, t0, pk))"
      using assms(1) exact n by (auto simp: ProcessData_def Let_def split: res.splits if_splits)
    then show ?thesis using assms(4) negotiate_total [OF assms(2,3) n] by (auto simp: Buffered_def split: res.splits)
  qed
qed

lemma handshake_total:
  "handshake P \<noteq> Panic \<and> (handshake P = Ok (rest, False) \<longrightarrow> length P < cryptHandshakeFixed + 255)"
proof -
  have "length P < 6 + unat (P ! 5) \<Longrightarrow> length P < 6 + 255" using u8_less [of "P ! 5"] by linarith
  then show ?thesis by (auto simp: handshake_def Let_def split: if_splits)
qed

lemma ProcessData_Negotiating:
  assumes "tc_state t = CsNegotiating" "tc_sendKey t \<noteq> None" "tc_recvKey t \<noteq> None" "ProcessData bd pd x t pk = (r, t', pk')"
  shows "r \<noteq> Panic \<and> tc_sendKey t' \<noteq> None \<and> tc_recvKey t' \<noteq> None \<and> (\<forall>rest. r = Ok rest \<longrightarrow>
    tc_state t' = CsNegotiating \<and> pk' = pk \<and> rest = [] \<and> Buffered t' < cryptHandshakeFixed + 255 \<or>
    tc_state t' = CsEncrypting \<and> pk' = pk\<lparr>pk_Status := PsNew\<rparr>)"
proof -
  obtain rk where rk: "tc_recvKey t = Some rk" using assms(3) by blast
  obtain out k' where out: "RC4Crypt x rk = (out, k')" by fastforce
  let ?P = "tc_pending t @ out"
  have "ProcessData bd pd x t pk = (let t = t\<lparr>tc_pending := ?P, tc_recvKey := Some k'\<rparr> in
      case handshake ?P of Ok (rest, True) \<Rightarrow> (Ok rest, t\<lparr>tc_pending := [], tc_state := CsEncrypting\<rparr>, pk\<lparr>pk_Status := PsNew\<rparr>)
               | Ok (rest, False) \<Rightarrow> (Ok [], t, pk) | Err e \<Rightarrow> (Err e, t, pk) | Panic \<Rightarrow> (Panic, t, pk))"
    using assms(1) rk out by (simp add: ProcessData_def rc4_on_def Let_def)
  then show ?thesis using assms handshake_total [of ?P]
    by (auto simp: Let_def Buffered_def split: res.splits prod.splits bool.splits simp del: cryptHandshakeFixed_def)
qed

lemma handleBytes_total:
  assumes "conn_inv c" "\<not> ss_closed (cn_sess c)" "bd \<noteq> Panic" "pd \<noteq> Panic"
  shows "\<exists>c'. handleBytes h bd pd x c = Ok c' \<and> conn_inv c'"
proof (cases "cn_crypt c")
  case None
  then have "frame_inv (cn_frame c)" using assms(1) by (simp add: conn_inv_def)
  with None processData_total [of c h x] show ?thesis by (simp add: handleBytes_def)
next
  case (Some t)
  let ?pk = "fs_packet (cn_frame c)"
  obtain r t' pk' where pd: "ProcessData bd pd x t ?pk = (r, t', pk')" by (metis prod_cases3)
  let ?c = "c\<lparr>cn_crypt := Some t', cn_frame := (cn_frame c)\<lparr>fs_packet := pk'\<rparr>\<rparr>"
  have closed: "conn_inv (?c\<lparr>cn_sess := closeWithReason e (cn_sess ?c)\<rparr>)" for e
    by (simp add: conn_inv_def closeWithReason_def)
  consider (plain) "tc_state t = CsUnknown" "length x > 0" "IsProtocol (x ! 0)" "Buffered t = 0"
    | (unknown) "tc_state t = CsUnknown" "\<not> (length x > 0 \<and> IsProtocol (x ! 0) \<and> Buffered t = 0)"
    | (negotiating) "tc_state t = CsNegotiating" | (encrypting) "tc_state t = CsEncrypting" | (none) "tc_state t = CsNone"
    using assms(1,2) Some by (auto simp: conn_inv_def split: if_splits)
  then show ?thesis
  proof cases
    case plain
    then have "handleBytes h bd pd x c = processData h x (c\<lparr>cn_crypt := Some (SetState CsNone t)\<rparr>)" using Some by (simp add: handleBytes_def)
    moreover have "cn_frame c = newFrame" using assms(1,2) Some plain(1) by (simp add: conn_inv_def)
    ultimately show ?thesis using processData_total [of "c\<lparr>cn_crypt := Some (SetState CsNone t)\<rparr>" h x] newFrame_inv(2)
      by (simp add: SetState_def)
  next
    case unknown
    have f: "cn_frame c = newFrame" using assms(1,2) Some unknown(1) by (simp add: conn_inv_def)
    note post = ProcessData_Unknown [OF unknown(1) assms(3,4) pd]
    show ?thesis
    proof (cases r)
      case (Ok rest)
      have "handleBytes h bd pd x c = Ok (if rest \<noteq> [] then writeRaw rest ?c else ?c)"
        using unknown Some pd Ok by (auto simp: handleBytes_def)
      moreover have "conn_inv ?c" "conn_inv (?c\<lparr>cn_wire := cn_wire ?c @ rest\<rparr>)" "tc_state t' \<noteq> CsEncrypting"
        using post Ok f by (auto simp: conn_inv_def)
      ultimately show ?thesis by (auto simp: writeRaw_def)
    qed (use unknown Some pd post closed in \<open>auto simp: handleBytes_def\<close>)
  next
    case negotiating
    have f: "cn_frame c = newFrame\<lparr>fs_packet := (fs_packet newFrame)\<lparr>pk_Status := PsCryptNegotiating\<rparr>\<rparr>"
      and k: "tc_sendKey t \<noteq> None" "tc_recvKey t \<noteq> None"
      using assms(1,2) Some negotiating by (auto simp: conn_inv_def)
    note post = ProcessData_Negotiating [OF negotiating k pd]
    show ?thesis
    proof (cases r)
      case (Ok rest)
      have h: "handleBytes h bd pd x c = (if rest = [] then Ok ?c else processData h rest ?c)"
        using negotiating Some pd Ok by (simp add: handleBytes_def)
      have fr: "tc_state t' = CsEncrypting \<Longrightarrow> frame_inv (cn_frame ?c)"
        using post Ok f newFrame_inv(2) by (auto simp: newFrame_def NewPacket_def)
      have "conn_inv ?c" using post Ok f fr by (auto simp: conn_inv_def)
      moreover have "rest \<noteq> [] \<Longrightarrow> tc_state t' = CsEncrypting" using post Ok by auto
      ultimately show ?thesis using h fr post processData_total [of ?c h rest] by auto
    qed (use negotiating Some pd post closed in \<open>auto simp: handleBytes_def\<close>)
  next
    case encrypting
    have inv: "frame_inv (cn_frame c)" "tc_sendKey t \<noteq> None" "tc_recvKey t \<noteq> None"
      using assms(1,2) Some encrypting by (auto simp: conn_inv_def)
    then obtain rk where rk: "tc_recvKey t = Some rk" by blast
    then have "handleBytes h bd pd x c = processData h (fst (RC4Crypt x rk)) (c\<lparr>cn_crypt := Some (t\<lparr>tc_recvKey := Some (snd (RC4Crypt x rk))\<rparr>)\<rparr>)"
      using encrypting Some by (simp add: handleBytes_def tcp_Decrypt_def rc4_on_def case_prod_beta)
    then show ?thesis using inv encrypting
        processData_total [of "c\<lparr>cn_crypt := Some (t\<lparr>tc_recvKey := Some (snd (RC4Crypt x rk))\<rparr>)\<rparr>" h "fst (RC4Crypt x rk)"] by simp
  next
    case none
    then have "handleBytes h bd pd x c = processData h x c" using Some by (simp add: handleBytes_def)
    moreover have "frame_inv (cn_frame c)" using assms(1,2) Some none by (auto simp: conn_inv_def)
    ultimately show ?thesis using processData_total [of c h x] Some none by simp
  qed
qed





end
