(* ===== verification/Utf8.thy ===== *)
theory Utf8
  imports Go_Strings
begin


section \<open>UTF-8 is self-synchronising\<close>

text \<open>
  Lemmas on the encoding of \<open>Go_Strings\<close>: decoding undoes encoding, and a valid text occurs in
  another only at a boundary between two characters. The name index rests on them.
\<close>

subsection \<open>Bytes of an encoded character\<close>

definition validRune :: "nat \<Rightarrow> bool" where
  "validRune r \<longleftrightarrow> r < 0xD800 \<or> 0xDFFF < r \<and> r \<le> 0x10FFFF"

definition encodeRunes :: "nat list \<Rightarrow> bytes" where
  "encodeRunes rs = concat (map EncodeRune rs)"

lemma encodeRunes_simps [simp]:
  "encodeRunes [] = []" "encodeRunes (r # rs) = EncodeRune r @ encodeRunes rs"
  "encodeRunes (rs @ qs) = encodeRunes rs @ encodeRunes qs"
  by (simp_all add: encodeRunes_def)

lemma unat_byte: "n < 256 \<Longrightarrow> unat (of_nat n :: u8) = n"
  by (simp add: unat_of_nat)

lemma byte_less: "n < 256 \<Longrightarrow> (of_nat n :: u8) < b \<longleftrightarrow> n < unat b" "n < 256 \<Longrightarrow> b \<le> (of_nat n :: u8) \<longleftrightarrow> unat b \<le> n"
  "n < 256 \<Longrightarrow> (of_nat n :: u8) \<le> b \<longleftrightarrow> n \<le> unat b" "n < 256 \<Longrightarrow> (of_nat n :: u8) = b \<longleftrightarrow> n = unat b"
  by (auto simp: word_less_nat_alt word_le_nat_alt unat_byte)

lemma contByte_of_nat: "contByte (of_nat (0x80 + n mod 64))"
proof -
  have "0x80 + n mod 64 < 256" "0x80 + n mod 64 \<le> 0xBF" by (simp_all add: less_Suc_eq_le [symmetric])
  then show ?thesis by (simp add: contByte_def byte_less del: of_nat_add)
qed

lemma low6_of_nat: "low6 (of_nat (0x80 + n mod 64)) = n mod 64"
proof -
  have "0x80 + n mod 64 < 256" using mod_less_divisor [of 64 n] by simp
  then have "low6 (of_nat (0x80 + n mod 64)) = (0x80 + n mod 64) mod 64" by (simp add: low6_def unat_byte del: of_nat_add mod_add_right_eq)
  also have "\<dots> = n mod 64" using mod_mult_self3 [of 2 64 "n mod 64"] by simp
  finally show ?thesis .
qed

lemma EncodeRune_head: "\<exists>h t. EncodeRune r = h # t \<and> \<not> contByte h \<and> (\<forall>b \<in> set t. contByte b)"
proof -
  have h1: "r < 0x80 \<Longrightarrow> \<not> contByte (of_nat r)" by (simp add: contByte_def byte_less del: of_nat_add)
  have h2: "r < 0x800 \<Longrightarrow> \<not> contByte (of_nat (0xC0 + r div 64))"
  proof -
    assume "r < 0x800"
    then have "0xC0 + r div 64 < 256" by (simp add: less_mult_imp_div_less)
    then show ?thesis by (simp add: contByte_def byte_less del: of_nat_add)
  qed
  have h3: "r < 0x10000 \<Longrightarrow> \<not> contByte (of_nat (0xE0 + r div 4096))"
  proof -
    assume "r < 0x10000"
    then have "0xE0 + r div 4096 < 256" by (simp add: less_mult_imp_div_less)
    then show ?thesis by (simp add: contByte_def byte_less del: of_nat_add)
  qed
  have h4: "r \<le> 0x10FFFF \<Longrightarrow> \<not> contByte (of_nat (0xF0 + r div 262144))"
  proof -
    assume "r \<le> 0x10FFFF"
    then have "r div 262144 < 5" by (simp add: less_mult_imp_div_less)
    then have "0xF0 + r div 262144 < 256" by simp
    then show ?thesis by (simp add: contByte_def byte_less del: of_nat_add)
  qed
  have e: "\<not> contByte 0xEF" "contByte 0xBF" "contByte 0xBD" by (simp_all add: contByte_def)
  show ?thesis
    unfolding EncodeRune_def using h1 h2 h3 h4 e by (auto simp: contByte_of_nat [simplified] contByte_of_nat)
qed

lemma EncodeRune_nonempty [simp]: "EncodeRune r \<noteq> []"
  using EncodeRune_head [of r] by auto

lemma rune_digits:
  "r div 64 * 64 + r mod 64 = r" "r div 64 = r div 4096 * 64 + r div 64 mod 64"
  "r div 4096 = r div 262144 * 64 + r div 4096 mod 64" for r :: nat
proof -
  have "r div 64 div 64 = r div 4096" "r div 4096 div 64 = r div 262144" by (simp_all add: div_mult2_eq [symmetric])
  then show "r div 64 * 64 + r mod 64 = r" "r div 64 = r div 4096 * 64 + r div 64 mod 64"
    "r div 4096 = r div 262144 * 64 + r div 4096 mod 64"
    using div_mult_mod_eq [of "r div 64" 64] div_mult_mod_eq [of "r div 4096" 64] by simp_all
qed

lemma secondByte_three:
  assumes "0x800 \<le> r" "r < 0x10000" "validRune r"
  shows "secondByte (of_nat (0xE0 + r div 4096)) (of_nat (0x80 + r div 64 mod 64))"
proof -
  have a: "0xE0 + r div 4096 < 256" "r div 4096 < 16" using assms by (simp_all add: less_mult_imp_div_less)
  have b: "0x80 + r div 64 mod 64 < 256" using mod_less_divisor [of 64 "r div 64"] by simp
  have lo: "32 \<le> r div 64 mod 64" if "r div 4096 = 0"
    using rune_digits(2) [of r] that div_le_mono [OF assms(1), of 64] by simp
  have hi: "r div 64 mod 64 < 32" if "r div 4096 = 13"
  proof -
    have "r < 0xE000" using that div_mult_mod_eq [of r 4096] mod_less_divisor [of 4096 r] by linarith
    then have "r div 64 < 864" using assms(3) by (simp add: validRune_def less_mult_imp_div_less)
    then show ?thesis using rune_digits(2) [of r] that by simp
  qed
  show ?thesis
    using a b lo hi contByte_of_nat [of "r div 64"] by (auto simp: secondByte_def byte_less simp del: of_nat_add)
qed

lemma secondByte_four:
  assumes "0x10000 \<le> r" "r \<le> 0x10FFFF"
  shows "secondByte (of_nat (0xF0 + r div 262144)) (of_nat (0x80 + r div 4096 mod 64))"
proof -
  have a: "0xF0 + r div 262144 < 256" "r div 262144 < 5" using assms by (simp_all add: less_mult_imp_div_less)
  have b: "0x80 + r div 4096 mod 64 < 256" using mod_less_divisor [of 64 "r div 4096"] by simp
  have lo: "16 \<le> r div 4096 mod 64" if "r div 262144 = 0"
    using rune_digits(3) [of r] that div_le_mono [OF assms(1), of 4096] by simp
  have hi: "r div 4096 mod 64 < 16" if "r div 262144 = 4"
    using rune_digits(3) [of r] that div_le_mono [OF assms(2), of 4096] by simp
  show ?thesis
    using a b lo hi contByte_of_nat [of "r div 4096"] by (auto simp: secondByte_def byte_less simp del: of_nat_add)
qed

lemma DecodeRune_EncodeRune:
  assumes "validRune r"
  shows "DecodeRune (EncodeRune r @ s) = (r, length (EncodeRune r))"
proof -
  note c = contByte_of_nat and l = low6_of_nat
  consider (1) "r < 0x80" | (2) "0x80 \<le> r" "r < 0x800" | (3) "0x800 \<le> r" "r < 0x10000" | (4) "0x10000 \<le> r" "r \<le> 0x10FFFF"
    using assms by (fastforce simp: validRune_def)
  then show ?thesis
  proof cases
    case 1
    then show ?thesis by (simp add: DecodeRune_def EncodeRune_def byte_less unat_byte)
  next
    case 2
    define a where "a = 0xC0 + r div 64"
    have a: "a < 256" "0xC2 \<le> a" "a < 0xE0" "a mod 32 = r div 64"
      using 2 div_le_mono [of 128 r 64] unfolding a_def
      by (simp_all add: less_mult_imp_div_less) (simp add: mod_add_eq [of 192 32 "r div 64", symmetric] less_mult_imp_div_less)
    have "secondByte (of_nat a) (of_nat (0x80 + r mod 64))" using a c [of r] by (simp add: secondByte_def byte_less)
    then show ?thesis
      using 2 a by (simp add: DecodeRune_def EncodeRune_def a_def [symmetric] byte_less unat_byte l del: of_nat_add)
  next
    case 3
    define a where "a = 0xE0 + r div 4096"
    have a: "a < 256" "0xE0 \<le> a" "a < 0xF0" "a mod 16 = r div 4096"
      using 3 unfolding a_def
      by (simp_all add: less_mult_imp_div_less) (simp add: mod_add_eq [of 224 16 "r div 4096", symmetric] less_mult_imp_div_less)
    have n: "\<not> (0xD800 \<le> r \<and> r \<le> 0xDFFF)" using assms 3 by (auto simp: validRune_def)
    have "r div 4096 * 4096 + r div 64 mod 64 * 64 + r mod 64 = r"
      using rune_digits(1,2) [of r] by linarith
    then show ?thesis
      using 3 a n secondByte_three [OF 3 assms]
      by (simp add: DecodeRune_def EncodeRune_def a_def [symmetric] byte_less unat_byte l c del: of_nat_add)
  next
    case 4
    define a where "a = 0xF0 + r div 262144"
    have a: "a < 256" "0xF0 \<le> a" "a \<le> 0xF4" "a mod 8 = r div 262144"
      using 4 less_mult_imp_div_less [of r 5 262144] unfolding a_def
      by simp_all (simp add: mod_add_eq [of 240 8 "r div 262144", symmetric] less_mult_imp_div_less)
    have "r div 262144 * 262144 + r div 4096 mod 64 * 4096 + r div 64 mod 64 * 64 + r mod 64 = r"
      using rune_digits [of r] by linarith
    then show ?thesis
      using 4 a secondByte_four [OF 4]
      by (simp add: DecodeRune_def EncodeRune_def a_def [symmetric] byte_less unat_byte l c del: of_nat_add)
  qed
qed

lemma cont_low6: "contByte b \<Longrightarrow> unat b = low6 b + 128" "low6 b < 64"
proof -
  assume "contByte b"
  then have b: "128 \<le> unat b" "unat b < 192" by (simp_all add: contByte_def word_le_nat_alt)
  then obtain k where "unat b = k + 128" "k < 64" using le_Suc_ex [OF b(1)] by auto
  then show "unat b = low6 b + 128" using mod_mult_self3 [of 2 64 k] by (simp add: low6_def add.commute)
qed (simp add: low6_def)

lemma three_bytes_valid:
  assumes "0xE0 \<le> a" "a < 0xF0" "secondByte a b" "contByte c"
  shows "validRune (unat a mod 16 * 4096 + low6 b * 64 + low6 c)"
proof -
  have "contByte b" using assms(3) by (simp add: secondByte_def)
  note l = cont_low6(1) [OF this] cont_low6(2) [of b] cont_low6(2) [of c]
  have a: "224 \<le> unat a" "unat a < 240" using assms(1,2) by (simp_all add: word_le_nat_alt word_less_nat_alt)
  then obtain k where k: "unat a = k + 224" "k < 16" using le_Suc_ex [OF a(1)] by auto
  then have m: "unat a mod 16 = k" using mod_mult_self3 [of 14 16 k] by (simp add: add.commute)
  have "unat b \<le> 159" if "unat a = 237"
  proof -
    have "a = 0xED" using that by (simp add: word_unat_eq_iff)
    then show ?thesis using assms(3) by (simp add: secondByte_def word_le_nat_alt)
  qed
  then show ?thesis unfolding m validRune_def using k l by (cases "k = 13"; cases "k < 13") simp_all
qed

lemma four_bytes_valid:
  assumes "0xF0 \<le> a" "a \<le> 0xF4" "secondByte a b" "contByte c" "contByte d"
  shows "validRune (unat a mod 8 * 262144 + low6 b * 4096 + low6 c * 64 + low6 d)"
proof -
  have "contByte b" using assms(3) by (simp add: secondByte_def)
  note l = cont_low6(1) [OF this] cont_low6(2) [of b] cont_low6(2) [of c] cont_low6(2) [of d]
  have a: "240 \<le> unat a" "unat a \<le> 244" using assms(1,2) by (simp_all add: word_le_nat_alt word_less_nat_alt)
  then obtain k where k: "unat a = k + 240" "k \<le> 4" using le_Suc_ex [OF a(1)] by auto
  then have m: "unat a mod 8 = k" using mod_mult_self3 [of 30 8 k] by (simp add: add.commute)
  have hi: "unat b \<le> 143" if "unat a = 244"
  proof -
    have "a = 0xF4" using that by (simp add: word_unat_eq_iff)
    then show ?thesis using assms(3) by (simp add: secondByte_def word_le_nat_alt)
  qed
  have lo: "144 \<le> unat b" if "unat a = 240"
  proof -
    have "a = 0xF0" using that by (simp add: word_unat_eq_iff)
    then show ?thesis using assms(3) by (simp add: secondByte_def word_le_nat_alt)
  qed
  show ?thesis unfolding m validRune_def using k l lo hi by (cases "k = 0"; cases "k = 4") simp_all
qed

lemma DecodeRune_valid: "validRune (fst (DecodeRune s))"
proof -
  have err: "validRune runeError" by (simp add: validRune_def)
  have one: "validRune (unat a)" if "a < 0x80" for a :: u8 using that by (simp add: validRune_def word_less_nat_alt)
  have two: "validRune (unat a mod 32 * 64 + low6 b)" for a b
    using mod_less_divisor [of 32 "unat a"] mod_less_divisor [of 64 "unat b"] unfolding validRune_def low6_def by linarith
  show ?thesis
    unfolding DecodeRune_def
    by (auto simp: err one two not_less intro!: three_bytes_valid four_bytes_valid split: list.split)
qed

lemma encodeRunes_runes: "list_all validRune rs \<Longrightarrow> runes (encodeRunes rs) = rs"
proof (induction rs)
  case (Cons r rs)
  then show ?case by (simp add: runes.simps [of "EncodeRune r @ _"] DecodeRune_EncodeRune)
qed (simp add: runes.simps)

text \<open>A cut of an encoded text before a byte that starts a character falls between two characters.\<close>

lemma encodeRunes_cut:
  assumes "encodeRunes rs = a @ y" "y = [] \<or> \<not> contByte (hd y)"
  shows "\<exists>l m. rs = l @ m \<and> a = encodeRunes l \<and> y = encodeRunes m"
  using assms(1)
proof (induction rs arbitrary: a)
  case (Cons r rs)
  obtain h t where e: "EncodeRune r = h # t" "\<forall>b \<in> set t. contByte b" using EncodeRune_head by blast
  show ?case
  proof (cases a)
    case Nil
    with Cons.prems show ?thesis by (intro exI [of _ "[]"] exI [of _ "r # rs"]) simp
  next
    case (Cons x a')
    with Cons.prems e have eq: "x = h" "t @ encodeRunes rs = a' @ y" by simp_all
    have "length t \<le> length a'"
    proof (rule ccontr)
      assume less: "\<not> length t \<le> length a'"
      from eq(2) obtain us where "t = a' @ us \<and> us @ encodeRunes rs = y \<or> t @ us = a' \<and> encodeRunes rs = us @ y"
        unfolding append_eq_append_conv2 by blast
      with less have us: "t = a' @ us" "y = us @ encodeRunes rs" "us \<noteq> []" by auto
      then have "hd y \<in> set t" "y \<noteq> []" by (cases us; simp)+
      then show False using assms(2) e(2) by blast
    qed
    moreover define a'' where "a'' = drop (length t) a'"
    ultimately have "a' = t @ a''" "encodeRunes rs = a'' @ y"
      using eq(2) append_eq_append_conv [of t "take (length t) a'" "encodeRunes rs" "a'' @ y"]
      by (simp_all add: a''_def)
    with Cons.IH obtain l m where "rs = l @ m" "a'' = encodeRunes l" "y = encodeRunes m" by blast
    then show ?thesis using Cons eq(1) e(1) \<open>a' = t @ a''\<close> by (intro exI [of _ "r # l"] exI [of _ m]) simp
  qed
qed simp

lemma encodeRunes_prefix:
  assumes "encodeRunes rs = encodeRunes qs @ b" "list_all validRune rs" "list_all validRune qs"
  shows "\<exists>m. rs = qs @ m \<and> b = encodeRunes m"
  using assms
proof (induction qs arbitrary: rs)
  case (Cons q qs)
  then obtain r rs' where rs: "rs = r # rs'" by (cases rs) auto
  have "DecodeRune (encodeRunes rs) = (r, length (EncodeRune r))" using Cons.prems(2) rs by (simp add: DecodeRune_EncodeRune)
  moreover have "DecodeRune (EncodeRune q @ encodeRunes qs @ b) = (q, length (EncodeRune q))"
    using Cons.prems(3) by (simp add: DecodeRune_EncodeRune)
  ultimately have "r = q" using Cons.prems(1) by simp
  then have "encodeRunes rs' = encodeRunes qs @ b" using Cons.prems(1) rs by simp
  then show ?case using Cons.IH [of rs'] Cons.prems rs \<open>r = q\<close> by auto
qed auto

lemma encodeRunes_infix:
  assumes "encodeRunes rs = a @ encodeRunes qs @ b" "qs \<noteq> []" "list_all validRune rs" "list_all validRune qs"
  shows "\<exists>l m. rs = l @ qs @ m"
proof -
  obtain q qs' where q: "qs = q # qs'" using assms(2) by (cases qs) auto
  have "\<not> contByte (hd (encodeRunes qs @ b))" using q EncodeRune_head [of q] by auto
  then obtain l m where l: "rs = l @ m" "encodeRunes qs @ b = encodeRunes m"
    using encodeRunes_cut [OF assms(1)] by blast
  then show ?thesis using encodeRunes_prefix [of m qs b] assms(3,4) by auto
qed

end
