(* ===== verification/Name_Index.thy ===== *)
theory Name_Index
  imports Utf8 Search_Match "HOL-Library.List_Lexorder" "HOL-Library.AList" "HOL-Library.Monad_Syntax" "HOL-Library.Multiset"
begin

unbundle bit_operations_syntax

section \<open>The name index of the memory engine (storage/memory_index.go)\<close>

text \<open>
  The inverted index over file names with which the memory engine narrows a search to candidate
  files: words, posting lists with their tails, trigrams over the vocabulary, and the lookup of a
  search tree. The contract with the engine is the locale \<open>name_directory\<close>, interpreted on the
  index; the slab that holds the engine's records is shown to be a list through the locale
  \<open>record_store\<close>. Positions and ids are natural numbers, with the wrap-around of 32 bits where
  the source converts. An index into \<open>post\<close> or \<open>words\<close> comes from the vocabulary or a trigram list
  and is in range by \<open>index_ok\<close>. Releasing the spare capacity of a list has no counterpart.
\<close>

subsection \<open>Go maps, slices and sorting\<close>

type_synonym ('k, 'v) gomap = "('k \<times> 'v) list"

text \<open>A lookup that yields the zero value \<open>d\<close> for a missing key.\<close>

definition map_get :: "('k, 'v) gomap \<Rightarrow> 'k \<Rightarrow> 'v \<Rightarrow> 'v" where
  "map_get m k d = (case map_of m k of None \<Rightarrow> d | Some v \<Rightarrow> v)"

definition wrap32 :: "nat \<Rightarrow> nat" where
  "wrap32 n = n mod 4294967296"

fun insertBy :: "('a \<Rightarrow> 'a \<Rightarrow> bool) \<Rightarrow> 'a \<Rightarrow> 'a list \<Rightarrow> 'a list" where
  "insertBy lt x [] = [x]"
| "insertBy lt x (y # ys) = (if lt x y then x # y # ys else y # insertBy lt x ys)"

text \<open>
  \<^verbatim>\<open>sort.Slice\<close> and \<^verbatim>\<open>slices.SortFunc\<close>, as the insertion sort that they run on short slices.
  How a long slice orders equal elements is left open by the library; nothing below depends on it.
\<close>

definition sortBy :: "('a \<Rightarrow> 'a \<Rightarrow> bool) \<Rightarrow> 'a list \<Rightarrow> 'a list" where
  "sortBy lt xs = fold (insertBy lt) xs []"

definition slices_Insert :: "'a list \<Rightarrow> nat \<Rightarrow> 'a \<Rightarrow> 'a list" where
  "slices_Insert xs i x = take i xs @ x # drop i xs"

function bsearch :: "nat list \<Rightarrow> nat \<Rightarrow> nat \<Rightarrow> nat \<Rightarrow> nat" where
  "bsearch xs v i j =
     (if i < j then (let h = (i + j) div 2 in if xs ! h < v then bsearch xs v (h + 1) j else bsearch xs v i h) else i)"
  by pat_completeness auto
termination
  by (relation "measure (\<lambda>(xs, v, i, j). j - i)") (auto simp: Let_def)

declare bsearch.simps [simp del]

definition BinarySearch :: "nat list \<Rightarrow> nat \<Rightarrow> nat \<times> bool" where
  "BinarySearch xs v = (let i = bsearch xs v 0 (length xs) in (i, i < length xs \<and> xs ! i = v))"

subsection \<open>Sorted id lists\<close>

fun gallop :: "nat list \<Rightarrow> nat list \<Rightarrow> nat list" where
  "gallop [] b = []"
| "gallop (v # a) b =
     (let (pos, found) = BinarySearch b v
      in if found then v # gallop a (drop pos b) else gallop a (drop pos b))"

fun intersectMerge :: "nat list \<Rightarrow> nat list \<Rightarrow> nat list" where
  "intersectMerge (x # a) (y # b) =
     (if x < y then intersectMerge a (y # b)
      else if x > y then intersectMerge (x # a) b
      else x # intersectMerge a b)"
| "intersectMerge _ _ = []"

definition intersectSorted :: "nat list \<Rightarrow> nat list \<Rightarrow> nat list" where
  "intersectSorted a b =
     (let (a, b) = (if length a > length b then (b, a) else (a, b))
      in if length a * 32 < length b then gallop a b else intersectMerge a b)"

fun unionSorted :: "nat list \<Rightarrow> nat list \<Rightarrow> nat list" where
  "unionSorted (x # a) (y # b) =
     (if x < y then x # unionSorted a (y # b)
      else if x > y then y # unionSorted (x # a) b
      else x # unionSorted a b)"
| "unionSorted [] b = b"
| "unionSorted a [] = a"

subsection \<open>Words of a name\<close>

definition isWordRune :: "ucd \<Rightarrow> nat \<Rightarrow> bool" where
  "isWordRune u r \<longleftrightarrow> IsLetter u r \<or> IsDigit u r"

text \<open>
  The loop of \<open>nameWords\<close> over the bytes of the lowercased name. \<open>start\<close> is the first byte of the
  word the loop is in, \<open>None\<close> outside a word (-1 in the source).
\<close>

function nameWords_loop :: "ucd \<Rightarrow> bytes \<Rightarrow> nat option \<Rightarrow> nat \<Rightarrow> bytes list" where
  "nameWords_loop u lower start i =
     (if i \<ge> length lower then (case start of None \<Rightarrow> [] | Some b \<Rightarrow> [drop b lower])
      else let (r, w) = DecodeRune (drop i lower)
           in if isWordRune u r then nameWords_loop u lower (if start = None then Some i else start) (i + w)
              else case start of
                     None \<Rightarrow> nameWords_loop u lower None (i + w)
                   | Some b \<Rightarrow> take (i - b) (drop b lower) # nameWords_loop u lower None (i + w))"
  by pat_completeness auto
termination
proof (relation "measure (\<lambda>(u, lower, start, i). length lower - i)", goal_cases)
  case (2 u lower start i x r w)
  then show ?case using DecodeRune_width [of "drop i lower"] by (cases "DecodeRune (drop i lower)") auto
next
  case (3 u lower start i x r w)
  then show ?case using DecodeRune_width [of "drop i lower"] by (cases "DecodeRune (drop i lower)") auto
next
  case (4 u lower start i x r w x2)
  then show ?case using DecodeRune_width [of "drop i lower"] by (cases "DecodeRune (drop i lower)") auto
qed simp

declare nameWords_loop.simps [simp del]

text \<open>\<^verbatim>\<open>slices.Compact\<close> is \<open>remdups_adj\<close>; strings are ordered by their bytes.\<close>

definition nameWords :: "ucd \<Rightarrow> bytes \<Rightarrow> bytes list" where
  "nameWords u name = remdups_adj (sort (nameWords_loop u (ToLower u name) None 0))"

definition trigram :: "bytes \<Rightarrow> u32" where
  "trigram s = push_bit 16 (ucast (s ! 0)) OR push_bit 8 (ucast (s ! 1)) OR ucast (s ! 2)"

text \<open>The trigrams that a loop with the bound \<^verbatim>\<open>i+3 <= len(s)\<close> visits.\<close>

definition trigrams :: "bytes \<Rightarrow> u32 list" where
  "trigrams s = map (\<lambda>i. trigram (drop i s)) [0..<length s - 2]"

subsection \<open>The index\<close>

definition postingInlineMax :: nat where [simp]: "postingInlineMax = 1024"
definition postingTailMax :: nat where [simp]: "postingTailMax = 256"
definition candidateFloor :: nat where [simp]: "candidateFloor = 65536"

record nameIndex =
  ni_vocab :: "(bytes, nat) gomap"
  ni_words :: "bytes list"
  ni_post :: "nat list list"
  ni_tails :: "(nat, nat list) gomap"
  ni_grams :: "(u32, nat list) gomap"
  ni_entries :: int
  ni_live :: int

definition newNameIndex :: nameIndex where
  "newNameIndex = \<lparr>ni_vocab = [], ni_words = [], ni_post = [], ni_tails = [], ni_grams = [], ni_entries = 0, ni_live = 0\<rparr>"

definition addGram :: "nat \<Rightarrow> u32 \<Rightarrow> nameIndex \<Rightarrow> nameIndex" where
  "addGram wid g x =
     (let l = map_get (ni_grams x) g []
      in if l \<noteq> [] \<and> last l = wid then x else x\<lparr>ni_grams := AList.update g (l @ [wid]) (ni_grams x)\<rparr>)"

definition wordID :: "nameIndex \<Rightarrow> bytes \<Rightarrow> nat \<times> nameIndex" where
  "wordID x w =
     (case map_of (ni_vocab x) w of
        Some wid \<Rightarrow> (wid, x)
      | None \<Rightarrow>
          (let wid = wrap32 (length (ni_words x));
               x = x\<lparr>ni_vocab := AList.update w wid (ni_vocab x), ni_words := ni_words x @ [w], ni_post := ni_post x @ [[]]\<rparr>
           in (wid, fold (addGram wid) (trigrams w) x)))"

definition add_posting :: "nameIndex \<Rightarrow> nat \<Rightarrow> nat \<Rightarrow> bool \<times> nameIndex" where
  "add_posting x wid fid =
     (let ids = ni_post x ! wid; tail = map_get (ni_tails x) wid []; (tpos, inTail) = BinarySearch tail fid
      in if inTail then (False, x)
         else if ids = [] \<or> last ids < fid then (True, x\<lparr>ni_post := (ni_post x)[wid := ids @ [fid]]\<rparr>)
         else let (pos, found) = BinarySearch ids fid
              in if found then (False, x)
                 else if length ids \<le> postingInlineMax \<and> tail = [] then
                   (True, x\<lparr>ni_post := (ni_post x)[wid := slices_Insert ids pos fid]\<rparr>)
                 else let tail = slices_Insert tail tpos fid
                      in if length tail < postingTailMax then (True, x\<lparr>ni_tails := AList.update wid tail (ni_tails x)\<rparr>)
                         else (True, x\<lparr>ni_post := (ni_post x)[wid := unionSorted ids tail], ni_tails := AList.delete wid (ni_tails x)\<rparr>))"

definition indexWord :: "nat \<Rightarrow> bytes \<Rightarrow> nameIndex \<Rightarrow> nameIndex" where
  "indexWord fid w x =
     (let (wid, x) = wordID x w; (added, x) = add_posting x wid fid
      in if added then x\<lparr>ni_entries := ni_entries x + 1\<rparr> else x)"

definition indexName :: "ucd \<Rightarrow> nameIndex \<Rightarrow> nat \<Rightarrow> bytes \<Rightarrow> nameIndex" where
  "indexName u x fid name =
     (let words = nameWords u name
      in fold (indexWord fid) words (x\<lparr>ni_live := ni_live x + int (length words)\<rparr>))"

definition removeFile :: "ucd \<Rightarrow> nameIndex \<Rightarrow> bytes \<Rightarrow> nameIndex" where
  "removeFile u x name = x\<lparr>ni_live := ni_live x - int (length (nameWords u name))\<rparr>"

definition renameFile :: "ucd \<Rightarrow> nameIndex \<Rightarrow> nat \<Rightarrow> bytes \<Rightarrow> bytes \<Rightarrow> nameIndex" where
  "renameFile u x fid oldName name =
     (if oldName = name then x
      else indexName u (x\<lparr>ni_live := ni_live x - int (length (nameWords u oldName))\<rparr>) fid name)"

definition dropped :: "(nat \<Rightarrow> bool) \<Rightarrow> nat list \<Rightarrow> int" where
  "dropped dead ids = int (length ids) - int (length (filter (\<lambda>fid. \<not> dead fid) ids))"

definition purge :: "(nat \<Rightarrow> bool) \<Rightarrow> nameIndex \<Rightarrow> nameIndex" where
  "purge dead x =
     (let kept = \<lambda>ids. filter (\<lambda>fid. \<not> dead fid) ids
      in x\<lparr>ni_post := map kept (ni_post x),
            ni_tails := filter (\<lambda>(wid, ids). ids \<noteq> []) (map (\<lambda>(wid, ids). (wid, kept ids)) (ni_tails x)),
            ni_entries := ni_entries x - sum_list (map (dropped dead) (ni_post x))
                            - sum_list (map (\<lambda>(wid, ids). dropped dead ids) (ni_tails x))\<rparr>)"

definition needsRebuild :: "nameIndex \<Rightarrow> bool" where
  "needsRebuild x = (let stale = ni_entries x - ni_live x in stale > 1024 \<and> stale > ni_entries x div 4)"

subsection \<open>Lookup\<close>

definition postingLen :: "nameIndex \<Rightarrow> nat \<Rightarrow> nat" where
  "postingLen x wid = length (ni_post x ! wid) + length (map_get (ni_tails x) wid [])"

definition collect :: "nameIndex \<Rightarrow> nat list \<Rightarrow> nat list" where
  "collect x wids =
     (if length wids = 1 \<and> map_get (ni_tails x) (hd wids) [] = [] then ni_post x ! hd wids
      else remdups_adj (sort (concat (map (\<lambda>wid. ni_post x ! wid @ map_get (ni_tails x) wid []) wids))))"

fun gramLists :: "nameIndex \<Rightarrow> u32 list \<Rightarrow> nat list list option" where
  "gramLists x [] = Some []"
| "gramLists x (g # gs) =
     (let l = map_get (ni_grams x) g [] in if l = [] then None else map_option (\<lambda>ls. l # ls) (gramLists x gs))"

fun intersectAll :: "nat list \<Rightarrow> nat list list \<Rightarrow> nat list" where
  "intersectAll cand [] = cand"
| "intersectAll cand (l # ls) = (if cand = [] then [] else intersectAll (intersectSorted cand l) ls)"

definition wordsContaining :: "nameIndex \<Rightarrow> bytes \<Rightarrow> nat list" where
  "wordsContaining x run =
     (case gramLists x (trigrams run) of
        None \<Rightarrow> []
      | Some ls \<Rightarrow>
          (let ls = sortBy (\<lambda>a b. length a < length b) ls
           in filter (\<lambda>wid. Contains (ni_words x ! wid) run) (intersectAll (hd ls) (tl ls))))"

fun runSets :: "nameIndex \<Rightarrow> bytes list \<Rightarrow> (nat list \<times> nat) list option" where
  "runSets x [] = Some []"
| "runSets x (run # runs) =
     (if length run < 3 then runSets x runs
      else let wids = wordsContaining x run; sz = sum_list (map (postingLen x) wids)
           in if sz = 0 then None else map_option (\<lambda>sets. (wids, sz) # sets) (runSets x runs))"

fun narrow :: "nameIndex \<Rightarrow> nat list \<Rightarrow> (nat list \<times> nat) list \<Rightarrow> nat list" where
  "narrow x out [] = out"
| "narrow x out ((wids, sz) # sets) =
     (if out = [] \<or> sz > 16 * length out then out else narrow x (intersectSorted out (collect x wids)) sets)"

definition textCandidates :: "ucd \<Rightarrow> nameIndex \<Rightarrow> bytes \<Rightarrow> nat \<Rightarrow> nat list \<times> bool" where
  "textCandidates u x text limit =
     (let terms = splitTerms text
      in if terms = [] then ([], False)
         else case runSets x (concat (map (\<lambda>t. alnumRuns u (ToLower u t)) terms)) of
                None \<Rightarrow> ([], False)
              | Some [] \<Rightarrow> ([], True)
              | Some sets \<Rightarrow>
                  (let sets = sortBy (\<lambda>a b. snd a < snd b) sets
                   in if snd (hd sets) > limit then ([], True)
                      else (narrow x (collect x (fst (hd sets))) (tl sets), False)))"

type_synonym hashLookup = "bytes \<Rightarrow> u64 \<Rightarrow> nat list option"

text \<open>\<open>None\<close> is a lookup of the hash table that does not return.\<close>

fun candidates :: "ucd \<Rightarrow> nameIndex \<Rightarrow> search_expr \<Rightarrow> nat \<Rightarrow> hashLookup option \<Rightarrow> (nat list \<times> bool) option" where
  "candidates u x (SearchHash hash sz) limit byHash =
     (case byHash of
        None \<Rightarrow> Some ([], True)
      | Some f \<Rightarrow> do { ids \<leftarrow> f hash sz; Some (remdups_adj (sort ids), False) })"
| "candidates u x (SearchText text) limit byHash = Some (textCandidates u x text limit)"
| "candidates u x (SearchString tagType value) limit byHash =
     (if tagType = searchTypeText then Some (textCandidates u x value limit) else Some ([], True))"
| "candidates u x (SearchAnd left right) limit byHash = do {
     (l, lAll) \<leftarrow> candidates u x left limit byHash;
     if \<not> lAll \<and> l = [] then Some ([], False)
     else do {
       (r, rAll) \<leftarrow> candidates u x right limit byHash;
       if lAll then Some (r, rAll)
       else if rAll then Some (l, False)
       else Some (intersectSorted l r, False) } }"
| "candidates u x (SearchOr left right) limit byHash = do {
     (l, lAll) \<leftarrow> candidates u x left limit byHash;
     if lAll then Some ([], True)
     else do {
       (r, rAll) \<leftarrow> candidates u x right limit byHash;
       if rAll then Some ([], True) else Some (unionSorted l r, False) } }"
| "candidates u x (SearchAndNot left right) limit byHash = candidates u x left limit byHash"
| "candidates u x _ limit byHash = Some ([], True)"

subsection \<open>Sorted lists\<close>

abbreviation asc :: "'a :: linorder list \<Rightarrow> bool" where
  "asc xs \<equiv> sorted_wrt (<) xs"

lemma mset_insertBy: "mset (insertBy lt x xs) = add_mset x (mset xs)"
  by (induction xs) auto

lemma mset_sortBy [simp]: "mset (sortBy lt xs) = mset xs"
proof -
  have "mset (fold (insertBy lt) xs ys) = mset xs + mset ys" for ys
    by (induction xs arbitrary: ys) (auto simp: mset_insertBy)
  then show ?thesis by (simp add: sortBy_def)
qed

lemma set_sortBy [simp]: "set (sortBy lt xs) = set xs" "length (sortBy lt xs) = length xs" "sortBy lt xs = [] \<longleftrightarrow> xs = []"
  using mset_eq_setD [OF mset_sortBy, of lt xs] mset_eq_length [OF mset_sortBy, of lt xs] by (simp_all flip: length_0_conv)

lemma asc_remdups_adj: "sorted xs \<Longrightarrow> asc (remdups_adj xs)"
  by (induction xs rule: remdups_adj.induct) (auto simp: order.strict_iff_order)

lemma asc_compact_sort: "asc (remdups_adj (sort xs))" "set (remdups_adj (sort xs)) = set xs"
  by (simp_all add: asc_remdups_adj)

lemma bsearch_bounds:
  assumes "asc xs" "i \<le> j" "j \<le> length xs" "\<forall>k < i. xs ! k < v" "\<forall>k. j \<le> k \<and> k < length xs \<longrightarrow> v \<le> xs ! k"
  shows "bsearch xs v i j \<le> length xs \<and> (\<forall>k < bsearch xs v i j. xs ! k < v) \<and>
    (\<forall>k. bsearch xs v i j \<le> k \<and> k < length xs \<longrightarrow> v \<le> xs ! k)"
  using assms
proof (induction xs v i j rule: bsearch.induct)
  case (1 xs v i j)
  show ?case
  proof (cases "i < j")
    case True
    define h where "h = (i + j) div 2"
    have h: "i \<le> h" "h < j" using True by (auto simp: h_def)
    have le: "xs ! k \<le> xs ! h" if "k \<le> h" for k
      using that sorted_wrt_nth_less [OF 1(3), of k h] h 1(5) by (cases "k = h") auto
    have ge: "xs ! h \<le> xs ! k" if "h \<le> k" "k < length xs" for k
      using that sorted_wrt_nth_less [OF 1(3), of h k] by (cases "k = h") auto
    show ?thesis
    proof (cases "xs ! h < v")
      case lt: True
      have "xs ! k < v" if "k < h + 1" for k using le_less_trans [OF le [of k] lt] that by simp
      moreover have "bsearch xs v i j = bsearch xs v (h + 1) j"
        using True lt bsearch.simps [of xs v i j] by (simp add: h_def [symmetric] Let_def)
      ultimately show ?thesis using 1(1) [OF True h_def lt 1(3)] h 1(5,7) by simp
    next
      case nl: False
      then have "v \<le> xs ! k" if "h \<le> k" "k < length xs" for k using ge [OF that] by simp
      then have up: "\<forall>k. h \<le> k \<and> k < length xs \<longrightarrow> v \<le> xs ! k" by blast
      have eq: "bsearch xs v i j = bsearch xs v i h"
        using True nl bsearch.simps [of xs v i j] by (simp add: h_def [symmetric] Let_def)
      have "h \<le> length xs" using h(2) 1(5) by simp
      from 1(2) [OF True h_def nl 1(3) h(1) this 1(6) up] show ?thesis unfolding eq .
    qed
  next
    case False
    then have eq: "bsearch xs v i j = i" using bsearch.simps [of xs v i j] by simp
    have ij: "j = i" using False 1(4) by simp
    from 1(5-7) show ?thesis unfolding eq unfolding ij by (intro conjI)
  qed
qed

lemma BinarySearch_asc:
  assumes "asc xs" "BinarySearch xs v = (pos, found)"
  shows "found \<longleftrightarrow> v \<in> set xs" "pos \<le> length xs" "\<forall>y \<in> set (take pos xs). y < v" "\<forall>y \<in> set (drop pos xs). v \<le> y"
proof -
  have p: "pos = bsearch xs v 0 (length xs)" "found \<longleftrightarrow> pos < length xs \<and> xs ! pos = v"
    using assms(2) by (auto simp: BinarySearch_def Let_def)
  note b = bsearch_bounds [OF assms(1), of 0 "length xs" v, simplified, folded p(1)]
  show 1: "pos \<le> length xs" using b by simp
  show 2: "\<forall>y \<in> set (take pos xs). y < v" using b 1 by (auto simp: in_set_conv_nth)
  show 3: "\<forall>y \<in> set (drop pos xs). v \<le> y" using b 1 by (auto simp: in_set_conv_nth)
  show "found \<longleftrightarrow> v \<in> set xs"
  proof
    assume "v \<in> set xs"
    then obtain k where k: "k < length xs" "xs ! k = v" by (auto simp: in_set_conv_nth)
    then have "pos \<le> k" using b by (meson less_irrefl not_le_imp_less)
    then have "v \<le> xs ! pos" "pos < length xs" using b k by auto
    moreover have "xs ! pos \<le> v" using \<open>pos \<le> k\<close> k sorted_wrt_nth_less [OF assms(1), of pos k] by (cases "pos = k") auto
    ultimately show found using p(2) by auto
  qed (use p(2) in auto)
qed

lemma asc_Insert:
  assumes "asc xs" "BinarySearch xs v = (pos, False)"
  shows "asc (slices_Insert xs pos v)" "set (slices_Insert xs pos v) = insert v (set xs)"
    "length (slices_Insert xs pos v) = Suc (length xs)"
proof -
  note b = BinarySearch_asc [OF assms]
  have s: "set xs = set (take pos xs) \<union> set (drop pos xs)" by (metis append_take_drop_id set_append)
  have "asc (take pos xs @ drop pos xs)" using assms(1) by simp
  moreover have "\<forall>y \<in> set (drop pos xs). v < y" using b(1,4) s by (metis UnI2 order.strict_iff_order)
  ultimately show "asc (slices_Insert xs pos v)" using b(3)
    by (auto simp: slices_Insert_def sorted_wrt_append simp del: append_take_drop_id)
  show "set (slices_Insert xs pos v) = insert v (set xs)" by (auto simp: slices_Insert_def s)
  show "length (slices_Insert xs pos v) = Suc (length xs)" using b(2) by (simp add: slices_Insert_def)
qed

lemma gallop_inter:
  assumes "asc a" "asc b"
  shows "asc (gallop a b) \<and> set (gallop a b) = set a \<inter> set b"
  using assms
proof (induction a arbitrary: b)
  case (Cons v a)
  obtain pos found where p: "BinarySearch b v = (pos, found)" by fastforce
  note bs = BinarySearch_asc [OF Cons.prems(2) p]
  have s: "set b = set (take pos b) \<union> set (drop pos b)" by (metis append_take_drop_id set_append)
  have "asc (take pos b @ drop pos b)" using Cons.prems(2) by simp
  then have d: "asc (drop pos b)" unfolding sorted_wrt_append by simp
  have "set a \<inter> set (take pos b) = {}" using bs(3) Cons.prems(1) by fastforce
  then have "asc (gallop a (drop pos b)) \<and> set (gallop a (drop pos b)) = set a \<inter> set b"
    using Cons.IH [OF _ d] Cons.prems(1) s by auto
  then show ?case using Cons.prems(1) bs(1) by (auto simp: p)
qed simp

lemma intersectMerge_inter: "asc a \<Longrightarrow> asc b \<Longrightarrow> asc (intersectMerge a b) \<and> set (intersectMerge a b) = set a \<inter> set b"
proof (induction a b rule: intersectMerge.induct)
  case (1 x a y b)
  show ?case
  proof (cases x y rule: linorder_cases)
    case less
    then have "x \<notin> set (y # b)" using 1(5) by auto
    then show ?thesis using 1(1) [OF less] 1(4,5) less by simp
  next
    case equal
    have "x \<notin> set a" "x \<notin> set b" using 1(4,5) equal by auto
    then show ?thesis using 1(3) 1(4,5) equal by auto
  next
    case greater
    then have "y \<notin> set (x # a)" using 1(4) by auto
    then show ?thesis using 1(2) 1(4,5) greater by simp
  qed
qed simp_all

lemma intersectSorted_inter:
  assumes "asc a" "asc b"
  shows "asc (intersectSorted a b)" "set (intersectSorted a b) = set a \<inter> set b"
  using gallop_inter [OF assms] gallop_inter [OF assms(2,1)] intersectMerge_inter [OF assms] intersectMerge_inter [OF assms(2,1)]
  by (auto simp: intersectSorted_def)

lemma set_unionSorted [simp]: "set (unionSorted a b) = set a \<union> set b"
  by (induction a b rule: unionSorted.induct) auto

lemma asc_unionSorted: "asc a \<Longrightarrow> asc b \<Longrightarrow> asc (unionSorted a b)"
proof (induction a b rule: unionSorted.induct)
  case (1 x a y b)
  show ?case
  proof (cases x y rule: linorder_cases)
    case less
    then show ?thesis using 1(1) 1(4,5) by auto
  next
    case equal
    then show ?thesis using 1(3) 1(4,5) by auto
  next
    case greater
    then show ?thesis using 1(2) 1(4,5) by auto
  qed
qed simp_all

lemma length_unionSorted: "set a \<inter> set b = {} \<Longrightarrow> length (unionSorted a b) = length a + length b"
  by (induction a b rule: unionSorted.induct) auto

subsection \<open>Words and runs\<close>

text \<open>The maximal runs of characters with \<open>P\<close>; \<open>cur\<close> is the run read so far.\<close>

fun runsOf :: "(nat \<Rightarrow> bool) \<Rightarrow> nat list \<Rightarrow> nat list \<Rightarrow> nat list list" where
  "runsOf P cur [] = (if cur = [] then [] else [cur])"
| "runsOf P cur (r # rs) =
     (if P r then runsOf P (cur @ [r]) rs else if cur = [] then runsOf P [] rs else cur # runsOf P [] rs)"

lemma encodeRunes_Nil [simp]: "encodeRunes rs = [] \<longleftrightarrow> rs = []" "[] = encodeRunes rs \<longleftrightarrow> rs = []"
  by (cases rs; simp)+

lemma runes_valid: "list_all validRune (runes s)"
proof (induction s rule: runes.induct)
  case (1 s)
  then show ?case using DecodeRune_valid [of s] by (simp add: runes.simps [of s])
qed

lemma alnumRuns_loop_eq: "alnumRuns_loop u (encodeRunes cur) rs = map encodeRunes (runsOf (isWordRune u) cur rs)"
proof (induction rs arbitrary: cur)
  case (Cons r rs)
  then show ?case using Cons.IH [of "cur @ [r]"] Cons.IH [of "[]"] by (simp add: isWordRune_def)
qed simp

lemma nameWords_loop_eq:
  assumes "list_all validRune rest" "lower = encodeRunes (pre @ cur @ rest)"
  shows "nameWords_loop u lower (if cur = [] then None else Some (length (encodeRunes pre))) (length (encodeRunes (pre @ cur))) =
    map encodeRunes (runsOf (isWordRune u) cur rest)"
  using assms
proof (induction rest arbitrary: pre cur)
  case Nil
  then show ?case by (subst nameWords_loop.simps) simp
next
  case (Cons r rest)
  let ?i = "length (encodeRunes (pre @ cur))"
  have d: "drop ?i lower = EncodeRune r @ encodeRunes rest" using Cons.prems(2) by simp
  have n: "\<not> length lower \<le> ?i" using Cons.prems(2) by simp
  have dec: "DecodeRune (drop ?i lower) = (r, length (EncodeRune r))" using Cons.prems(1) d by (simp add: DecodeRune_EncodeRune)
  have w1: "lower = encodeRunes (pre @ (cur @ [r]) @ rest)" and w2: "lower = encodeRunes ((pre @ cur @ [r]) @ [] @ rest)"
    using Cons.prems(2) by simp_all
  have v: "list_all validRune rest" using Cons.prems(1) by simp
  have cut: "take (?i - length (encodeRunes pre)) (drop (length (encodeRunes pre)) lower) = encodeRunes cur" using Cons.prems(2) by simp
  note IH1 = Cons.IH [OF v w1] and IH2 = Cons.IH [OF v w2]
  show ?case
    using n dec IH1 IH2 cut
    by (subst nameWords_loop.simps) (auto simp: add.assoc)
qed

lemma ToLower_runes: "\<exists>rs. list_all validRune rs \<and> ToLower u s = encodeRunes rs"
proof -
  have "EncodeRune r = EncodeRune (if validRune r then r else runeError)" for r
    by (auto simp: EncodeRune_def validRune_def)
  then have "ToLower u s = encodeRunes (map (\<lambda>r. if validRune (lowerRune u r) then lowerRune u r else runeError) (runes s))"
    by (simp add: ToLower_def encodeRunes_def comp_def)
  then show ?thesis by (intro exI conjI) (auto simp: list_all_iff validRune_def)
qed

text \<open>The words of a name are the runs that a query term is split into, each once.\<close>

lemma nameWords_alnumRuns: "nameWords u name = remdups_adj (sort (alnumRuns u (ToLower u name)))"
proof -
  obtain rs where rs: "list_all validRune rs" "ToLower u name = encodeRunes rs" using ToLower_runes by blast
  then have "runes (ToLower u name) = rs" by (simp add: encodeRunes_runes)
  then have "nameWords_loop u (ToLower u name) None 0 = alnumRuns u (ToLower u name)"
    using alnumRuns_loop_eq [of u "[]" rs] nameWords_loop_eq [OF rs(1), of "ToLower u name" "[]" "[]" u] rs
    by (simp add: alnumRuns_def)
  then show ?thesis by (simp add: nameWords_def)
qed

lemma runsOf_prefix: "cur \<noteq> [] \<Longrightarrow> \<exists>m. cur @ m \<in> set (runsOf P cur rs)"
proof (induction rs arbitrary: cur)
  case (Cons r rs)
  obtain m where "(cur @ [r]) @ m \<in> set (runsOf P (cur @ [r]) rs)" using Cons.IH [of "cur @ [r]"] by blast
  then show ?case using Cons.prems by (cases "P r") (auto intro: exI [of _ "r # m"] exI [of _ "[]"])
qed (auto intro: exI [of _ "[]"])

lemma runsOf_member:
  assumes "w \<in> set (runsOf P cur rs)" "list_all P cur" "list_all V cur" "list_all V rs"
  shows "w \<noteq> [] \<and> list_all P w \<and> list_all V w"
  using assms
proof (induction rs arbitrary: cur)
  case (Cons r rs)
  show ?case
  proof (cases "P r")
    case True
    then show ?thesis using Cons.IH [of "cur @ [r]"] Cons.prems by simp
  next
    case False
    then show ?thesis using Cons.IH [of "[]"] Cons.prems by (auto split: if_splits)
  qed
qed (auto split: if_splits)

lemma runsOf_eat: "list_all P qs \<Longrightarrow> runsOf P cur (qs @ m) = runsOf P (cur @ qs) m"
  by (induction qs arbitrary: cur) simp_all

lemma runsOf_infix:
  assumes "list_all P qs" "qs \<noteq> []"
  shows "\<exists>a b. a @ qs @ b \<in> set (runsOf P cur (l @ qs @ m))"
proof (induction l arbitrary: cur)
  case Nil
  show ?case using runsOf_prefix [of "cur @ qs" P m] assms by (auto simp: runsOf_eat)
next
  case (Cons r l)
  show ?case using Cons.IH [of "cur @ [r]"] Cons.IH [of "[]"] by (auto simp del: append_assoc)
qed

lemma name_word_cover:
  assumes "run \<in> set (alnumRuns u t)" "Contains (ToLower u name) run"
  shows "\<exists>w \<in> set (nameWords u name). Contains w run"
proof -
  obtain rs where rs: "list_all validRune rs" "ToLower u name = encodeRunes rs" using ToLower_runes by blast
  obtain qs where qs: "run = encodeRunes qs" "qs \<in> set (runsOf (isWordRune u) [] (runes t))"
    using assms(1) alnumRuns_loop_eq [of u "[]" "runes t"] by (auto simp: alnumRuns_def)
  note q = runsOf_member [OF qs(2), of validRune, simplified, OF runes_valid]
  obtain a b where "encodeRunes rs = a @ encodeRunes qs @ b" using assms(2) rs(2) qs(1) by (auto simp: Contains_iff)
  then obtain l m where "rs = l @ qs @ m" using encodeRunes_infix rs(1) q by blast
  then obtain c d where c: "c @ qs @ d \<in> set (runsOf (isWordRune u) [] rs)"
    using runsOf_infix [of "isWordRune u" qs "[]" l m] q by blast
  have "alnumRuns u (ToLower u name) = map encodeRunes (runsOf (isWordRune u) [] rs)"
    using alnumRuns_loop_eq [of u "[]" rs] rs by (simp add: alnumRuns_def encodeRunes_runes)
  then have "encodeRunes (c @ qs @ d) \<in> set (nameWords u name)" using c by (simp add: nameWords_alnumRuns) (metis image_eqI encodeRunes_simps(3))
  moreover have "Contains (encodeRunes (c @ qs @ d)) run" using qs(1) by (auto simp: Contains_iff)
  ultimately show ?thesis by blast
qed

subsection \<open>The index invariant\<close>

abbreviation tail_of :: "nameIndex \<Rightarrow> nat \<Rightarrow> nat list" where
  "tail_of x wid \<equiv> map_get (ni_tails x) wid []"

abbreviation gram_of :: "nameIndex \<Rightarrow> u32 \<Rightarrow> nat list" where
  "gram_of x g \<equiv> map_get (ni_grams x) g []"

definition posting :: "nameIndex \<Rightarrow> nat \<Rightarrow> nat set" where
  "posting x wid = set (ni_post x ! wid) \<union> set (tail_of x wid)"

text \<open>File \<open>fid\<close> is listed under the word \<open>w\<close>.\<close>

definition lists_word :: "nameIndex \<Rightarrow> nat \<Rightarrow> bytes \<Rightarrow> bool" where
  "lists_word x fid w \<longleftrightarrow> (\<exists>wid. map_of (ni_vocab x) w = Some wid \<and> fid \<in> posting x wid)"

definition index_fits :: "nameIndex \<Rightarrow> bool" where
  "index_fits x \<longleftrightarrow> length (ni_words x) \<le> 4294967296"

definition vocab_ok :: "nameIndex \<Rightarrow> bool" where
  "vocab_ok x \<longleftrightarrow> length (ni_post x) = length (ni_words x) \<and>
     (\<forall>wid < length (ni_words x). map_of (ni_vocab x) (ni_words x ! wid) = Some wid) \<and>
     (\<forall>w wid. map_of (ni_vocab x) w = Some wid \<longrightarrow> wid < length (ni_words x) \<and> ni_words x ! wid = w)"

definition grams_ok :: "nameIndex \<Rightarrow> bool" where
  "grams_ok x \<longleftrightarrow> (\<forall>g. asc (gram_of x g) \<and> (\<forall>wid \<in> set (gram_of x g). wid < length (ni_words x))) \<and>
     (\<forall>wid < length (ni_words x). \<forall>g \<in> set (trigrams (ni_words x ! wid)). wid \<in> set (gram_of x g))"

definition posts_ok :: "nameIndex \<Rightarrow> bool" where
  "posts_ok x \<longleftrightarrow> distinct (map fst (ni_tails x)) \<and> (\<forall>wid \<in> fst ` set (ni_tails x). wid < length (ni_post x)) \<and>
     (\<forall>wid < length (ni_post x). asc (ni_post x ! wid) \<and> asc (tail_of x wid) \<and> set (ni_post x ! wid) \<inter> set (tail_of x wid) = {})"

definition entries_ok :: "nameIndex \<Rightarrow> bool" where
  "entries_ok x \<longleftrightarrow> ni_entries x = int (\<Sum>wid < length (ni_post x). postingLen x wid)"

definition index_ok :: "nameIndex \<Rightarrow> bool" where
  "index_ok x \<longleftrightarrow> vocab_ok x \<and> grams_ok x \<and> posts_ok x \<and> entries_ok x"

lemma map_get_update [simp]: "map_get (AList.update k v m) k' d = (if k' = k then v else map_get m k' d)"
  by (simp add: map_get_def update_conv')

lemma map_get_delete [simp]: "map_get (AList.delete k m) k' d = (if k' = k then d else map_get m k' d)"
  by (simp add: map_get_def delete_conv')

lemma newNameIndex_ok: "index_ok newNameIndex" "\<not> lists_word newNameIndex fid w"
  by (simp_all add: index_ok_def vocab_ok_def grams_ok_def posts_ok_def entries_ok_def newNameIndex_def lists_word_def map_get_def)

subsection \<open>Adding a word\<close>

lemma addGram_same [simp]:
  "ni_vocab (addGram wid g x) = ni_vocab x" "ni_words (addGram wid g x) = ni_words x" "ni_post (addGram wid g x) = ni_post x"
  "ni_tails (addGram wid g x) = ni_tails x" "ni_entries (addGram wid g x) = ni_entries x" "ni_live (addGram wid g x) = ni_live x"
  by (simp_all add: addGram_def Let_def)

lemma addGrams_same [simp]:
  "ni_vocab (fold (addGram wid) gs x) = ni_vocab x" "ni_words (fold (addGram wid) gs x) = ni_words x"
  "ni_post (fold (addGram wid) gs x) = ni_post x" "ni_tails (fold (addGram wid) gs x) = ni_tails x"
  "ni_entries (fold (addGram wid) gs x) = ni_entries x" "ni_live (fold (addGram wid) gs x) = ni_live x"
  by (induction gs arbitrary: x) simp_all

lemma addGram_gram:
  assumes "\<forall>g. asc (gram_of x g) \<and> (\<forall>v \<in> set (gram_of x g). v \<le> wid)"
  shows "asc (gram_of (addGram wid g x) h) \<and> (\<forall>v \<in> set (gram_of (addGram wid g x) h). v \<le> wid)"
    "set (gram_of (addGram wid g x) h) = (if h = g then insert wid (set (gram_of x g)) else set (gram_of x h))"
proof -
  let ?l = "gram_of x g"
  have l: "asc ?l" "\<forall>v \<in> set ?l. v \<le> wid" using assms by auto
  have less: "\<forall>v \<in> set ?l. v < wid" if "\<not> (?l \<noteq> [] \<and> last ?l = wid)"
  proof (cases ?l rule: rev_cases)
    case (snoc ys y)
    then show ?thesis using l that by (auto simp: sorted_wrt_append)
  qed simp
  have last: "wid \<in> set ?l" if "?l \<noteq> [] \<and> last ?l = wid" using that last_in_set [of ?l] by auto
  show "asc (gram_of (addGram wid g x) h) \<and> (\<forall>v \<in> set (gram_of (addGram wid g x) h). v \<le> wid)"
    using assms less by (auto simp: addGram_def Let_def sorted_wrt_append)
  show "set (gram_of (addGram wid g x) h) = (if h = g then insert wid (set ?l) else set (gram_of x h))"
    using last by (auto simp: addGram_def Let_def)
qed

lemma addGrams_gram:
  assumes "\<forall>g. asc (gram_of x g) \<and> (\<forall>v \<in> set (gram_of x g). v \<le> wid)"
  shows "(\<forall>g. asc (gram_of (fold (addGram wid) gs x) g) \<and> (\<forall>v \<in> set (gram_of (fold (addGram wid) gs x) g). v \<le> wid)) \<and>
    (\<forall>g. set (gram_of (fold (addGram wid) gs x) g) = (if g \<in> set gs then insert wid (set (gram_of x g)) else set (gram_of x g)))"
  using assms
proof (induction gs arbitrary: x)
  case (Cons g gs)
  have "\<forall>h. asc (gram_of (addGram wid g x) h) \<and> (\<forall>v \<in> set (gram_of (addGram wid g x) h). v \<le> wid)"
    using addGram_gram(1) [OF Cons.prems] by blast
  from Cons.IH [OF this] show ?case by (auto simp: addGram_gram(2) [OF Cons.prems])
qed simp

lemma wordID_known: "map_of (ni_vocab x) w = Some wid \<Longrightarrow> wordID x w = (wid, x)"
  by (simp add: wordID_def)

lemma wordID_new:
  assumes ok: "index_ok x" and new: "map_of (ni_vocab x) w = None" and wid: "wordID x w = (wid, x')"
    and fits: "index_fits x'"
  shows "wid = length (ni_words x)" "ni_vocab x' = AList.update w wid (ni_vocab x)" "ni_words x' = ni_words x @ [w]"
    "ni_post x' = ni_post x @ [[]]" "ni_tails x' = ni_tails x" "ni_entries x' = ni_entries x" "grams_ok x'"
proof -
  define y where "y = x\<lparr>ni_vocab := AList.update w (wrap32 (length (ni_words x))) (ni_vocab x), ni_words := ni_words x @ [w], ni_post := ni_post x @ [[]]\<rparr>"
  have e: "wid = wrap32 (length (ni_words x))" "x' = fold (addGram wid) (trigrams w) y"
    using wid new by (auto simp: wordID_def Let_def y_def)
  then show "ni_words x' = ni_words x @ [w]" "ni_post x' = ni_post x @ [[]]" "ni_tails x' = ni_tails x" "ni_entries x' = ni_entries x"
    by (simp_all add: y_def)
  then show w: "wid = length (ni_words x)" using fits e(1) by (simp add: index_fits_def wrap32_def)
  then show "ni_vocab x' = AList.update w wid (ni_vocab x)" using e by (simp add: y_def)
  have gy: "ni_grams y = ni_grams x" by (simp add: y_def)
  have g: "grams_ok x" using ok by (simp add: index_ok_def)
  have "\<forall>g. asc (gram_of y g) \<and> (\<forall>v \<in> set (gram_of y g). v \<le> wid)"
    using g w unfolding grams_ok_def gy by (meson less_imp_le)
  note G = addGrams_gram [OF this, of "trigrams w", folded e(2)]
  then show "grams_ok x'"
    using g w \<open>ni_words x' = ni_words x @ [w]\<close> unfolding grams_ok_def gy
    by (auto simp: less_Suc_eq nth_append)
qed

lemma wordID_ok:
  assumes ok: "index_ok x" and wid: "wordID x w = (wid, x')" and fits: "index_fits x'"
  shows "index_ok x'" "map_of (ni_vocab x') w = Some wid" "wid < length (ni_post x')" "length (ni_words x) \<le> length (ni_words x')"
    "lists_word x' fid v \<longleftrightarrow> lists_word x fid v"
proof -
  have v: "vocab_ok x" and p: "posts_ok x" and n: "entries_ok x" using ok by (simp_all add: index_ok_def)
  have "index_ok x' \<and> map_of (ni_vocab x') w = Some wid \<and> wid < length (ni_post x') \<and> length (ni_words x) \<le> length (ni_words x') \<and>
    (lists_word x' fid v \<longleftrightarrow> lists_word x fid v)"
  proof (cases "map_of (ni_vocab x) w")
    case (Some k)
    then show ?thesis using wid ok v by (auto simp: wordID_known vocab_ok_def)
  next
    case None
    note N = wordID_new [OF ok None wid fits]
    have nw: "w \<notin> set (ni_words x)" using None v by (auto simp: vocab_ok_def in_set_conv_nth)
    have "vocab_ok x'" using v N nw None by (auto simp: vocab_ok_def update_conv' nth_append less_Suc_eq split: if_splits)
    moreover have t: "tail_of x (length (ni_post x)) = []"
      using p by (auto simp: posts_ok_def map_get_def split: option.split dest: map_of_SomeD)
    moreover have "posts_ok x'" using p N t by (auto simp: posts_ok_def nth_append less_Suc_eq)
    moreover have "entries_ok x'"
    proof -
      have "(\<Sum>wid < length (ni_post x). postingLen x' wid) = (\<Sum>wid < length (ni_post x). postingLen x wid)"
        using N by (intro sum.cong) (auto simp: postingLen_def nth_append)
      then show ?thesis using n N t by (simp add: entries_ok_def postingLen_def)
    qed
    moreover have "lists_word x' fid v \<longleftrightarrow> lists_word x fid v"
    proof (cases "v = w")
      case True
      then show ?thesis using N v None t by (simp add: lists_word_def update_conv' posting_def vocab_ok_def nth_append)
    next
      case False
      have "posting x' k = posting x k" if "map_of (ni_vocab x) v = Some k" for k
        using that v N by (auto simp: vocab_ok_def posting_def nth_append)
      then show ?thesis using False N by (auto simp: lists_word_def update_conv')
    qed
    ultimately show ?thesis using N v by (simp add: index_ok_def update_conv' vocab_ok_def)
  qed
  then show "index_ok x'" "map_of (ni_vocab x') w = Some wid" "wid < length (ni_post x')" "length (ni_words x) \<le> length (ni_words x')"
    "lists_word x' fid v \<longleftrightarrow> lists_word x fid v" by blast+
qed

subsection \<open>Listing a file under a word\<close>

text \<open>What \<open>add_posting\<close> leaves in the two lists of its word.\<close>

lemma add_posting_cases:
  assumes ok: "posts_ok x" and wid: "wid < length (ni_post x)" and add: "add_posting x wid fid = (added, x')"
  obtains (known) "\<not> added" "x' = x" "fid \<in> posting x wid"
  | (new) ids tail where "added" "fid \<notin> posting x wid" "asc ids" "asc tail" "set ids \<inter> set tail = {}"
      "set ids \<union> set tail = insert fid (posting x wid)" "length ids + length tail = Suc (postingLen x wid)"
      "ni_post x' = (ni_post x)[wid := ids]" "ni_tails x' = AList.update wid tail (ni_tails x) \<or> tail = [] \<and> ni_tails x' = AList.delete wid (ni_tails x) \<or>
       tail = tail_of x wid \<and> ni_tails x' = ni_tails x"
      "ni_vocab x' = ni_vocab x" "ni_words x' = ni_words x" "ni_grams x' = ni_grams x" "ni_entries x' = ni_entries x"
proof -
  let ?ids = "ni_post x ! wid" and ?tail = "tail_of x wid"
  have o: "asc ?ids" "asc ?tail" "set ?ids \<inter> set ?tail = {}" using ok wid by (auto simp: posts_ok_def)
  obtain tpos inTail where t: "BinarySearch ?tail fid = (tpos, inTail)" by fastforce
  obtain pos found where f: "BinarySearch ?ids fid = (pos, found)" by fastforce
  note bt = BinarySearch_asc [OF o(2) t] and bf = BinarySearch_asc [OF o(1) f]
  consider (tail) inTail | (end_) "\<not> inTail" "?ids = [] \<or> last ?ids < fid"
    | (found) "\<not> inTail" "\<not> (?ids = [] \<or> last ?ids < fid)" found
    | (insert) "\<not> inTail" "\<not> (?ids = [] \<or> last ?ids < fid)" "\<not> found" "length ?ids \<le> postingInlineMax \<and> ?tail = []"
    | (queue) "\<not> inTail" "\<not> (?ids = [] \<or> last ?ids < fid)" "\<not> found" "\<not> (length ?ids \<le> postingInlineMax \<and> ?tail = [])"
        "length (slices_Insert ?tail tpos fid) < postingTailMax"
    | (merge) "\<not> inTail" "\<not> (?ids = [] \<or> last ?ids < fid)" "\<not> found" "\<not> (length ?ids \<le> postingInlineMax \<and> ?tail = [])"
        "\<not> length (slices_Insert ?tail tpos fid) < postingTailMax" by blast
  then show thesis
  proof cases
    case tail
    then show ?thesis using add t bt by (intro known) (auto simp: add_posting_def Let_def posting_def)
  next
    case end_
    have less: "\<forall>y \<in> set ?ids. y < fid"
    proof (cases ?ids rule: rev_cases)
      case (snoc ys y)
      then show ?thesis using o(1) end_(2) by (auto simp: sorted_wrt_append)
    qed simp
    have x': "added" "x' = x\<lparr>ni_post := (ni_post x)[wid := ?ids @ [fid]]\<rparr>" using add t end_ by (auto simp: add_posting_def Let_def)
    show ?thesis
      by (rule new [of "?ids @ [fid]" ?tail])
        (use x' less o bt end_ in \<open>auto simp: sorted_wrt_append posting_def postingLen_def\<close>)
  next
    case found
    then show ?thesis using add t f bf by (intro known) (auto simp: add_posting_def Let_def posting_def)
  next
    case insert
    have x': "added" "x' = x\<lparr>ni_post := (ni_post x)[wid := slices_Insert ?ids pos fid]\<rparr>" using add t f insert by (auto simp: add_posting_def Let_def)
    note i = asc_Insert [OF o(1), of fid pos]
    show ?thesis
      by (rule new [of "slices_Insert ?ids pos fid" ?tail])
        (use x' i f bf bt insert in \<open>auto simp: posting_def postingLen_def\<close>)
  next
    case queue
    have x': "added" "x' = x\<lparr>ni_tails := AList.update wid (slices_Insert ?tail tpos fid) (ni_tails x)\<rparr>"
      using add t f queue by (auto simp: add_posting_def Let_def)
    note i = asc_Insert [OF o(2), of fid tpos]
    show ?thesis
      by (rule new [of ?ids "slices_Insert ?tail tpos fid"])
        (use x' i t bf bt o queue in \<open>auto simp: posting_def postingLen_def\<close>)
  next
    case merge
    let ?t = "slices_Insert ?tail tpos fid"
    have x': "added" "x' = x\<lparr>ni_post := (ni_post x)[wid := unionSorted ?ids ?t], ni_tails := AList.delete wid (ni_tails x)\<rparr>"
      using add t f merge by (auto simp: add_posting_def Let_def)
    note i = asc_Insert [OF o(2), of fid tpos]
    have i': "asc ?t" "set ?t = insert fid (set ?tail)" "length ?t = Suc (length ?tail)" using i t merge(1) by auto
    have "set ?ids \<inter> set ?t = {}" using i'(2) o(3) bf(1) merge(3) by auto
    then show ?thesis
      by (intro new [of "unionSorted ?ids ?t" "[]"])
        (use x' i' bf bt o merge in \<open>auto simp: posting_def postingLen_def length_unionSorted asc_unionSorted\<close>)
  qed
qed

lemma add_posting_ok:
  assumes ok: "index_ok x" and wid: "wid < length (ni_post x)" and add: "add_posting x wid fid = (added, x')"
  shows "index_ok (if added then x'\<lparr>ni_entries := ni_entries x' + 1\<rparr> else x')"
    "posting x' v = (if v = wid then insert fid (posting x wid) else posting x v)"
    "ni_vocab x' = ni_vocab x" "ni_words x' = ni_words x" "ni_live x' = ni_live x"
proof -
  have p: "posts_ok x" using ok by (simp add: index_ok_def)
  show live: "ni_live x' = ni_live x" using add by (auto simp: add_posting_def Let_def split: prod.splits if_splits)
  have "index_ok (if added then x'\<lparr>ni_entries := ni_entries x' + 1\<rparr> else x') \<and>
    posting x' v = (if v = wid then insert fid (posting x wid) else posting x v) \<and> ni_vocab x' = ni_vocab x \<and> ni_words x' = ni_words x"
    using p wid add
  proof (cases rule: add_posting_cases)
    case known
    then show ?thesis using ok by auto
  next
    case (new ids tail)
    have t: "tail_of x' k = (if k = wid then tail else tail_of x k)" for k using new(9) by auto
    have g: "gram_of x' g = gram_of x g" for g using new(12) by simp
    have ps: "ni_post x' ! k = (if k = wid then ids else ni_post x ! k)" for k using new(8) wid by simp
    have len: "length (ni_post x') = length (ni_post x)" using new(8) by simp
    have d: "distinct (map fst (ni_tails x))" using p by (simp add: posts_ok_def)
    have keys: "set (map fst (ni_tails x')) \<subseteq> insert wid (set (map fst (ni_tails x)))"
      using new(9) by (auto simp: update_keys delete_keys simp del: set_map split: if_splits)
    have dist: "distinct (map fst (ni_tails x'))"
      using new(9) d by (auto simp: distinct_update delete_keys distinct_removeAll)
    let ?y = "x'\<lparr>ni_entries := ni_entries x' + 1\<rparr>"
    have "vocab_ok ?y" "grams_ok ?y" using ok new(10,11,12) len by (simp_all add: index_ok_def vocab_ok_def grams_ok_def)
    moreover have "posts_ok ?y" using p wid keys dist new(3-5) by (fastforce simp: posts_ok_def t ps len)
    moreover have "entries_ok ?y"
    proof -
      have "postingLen ?y k = (if k = wid then Suc (postingLen x wid) else postingLen x k)" for k
        using new(7) by (simp add: postingLen_def t ps)
      then have "(\<Sum>k < length (ni_post x). postingLen ?y k) = (\<Sum>k < length (ni_post x). postingLen x k) + 1"
        using wid by (simp add: sum.If_cases sum.remove [of "{..<length (ni_post x)}" wid "postingLen x"] Int_absorb1 Diff_eq Collect_neg_eq)
      then show ?thesis using ok new(13) by (simp add: index_ok_def entries_ok_def len)
    qed
    moreover have "posting x' v = (if v = wid then insert fid (posting x wid) else posting x v)"
      using new(6) by (simp add: posting_def t ps)
    ultimately show ?thesis using new(1,10,11) by (simp add: index_ok_def)
  qed
  then show "index_ok (if added then x'\<lparr>ni_entries := ni_entries x' + 1\<rparr> else x')"
    "posting x' v = (if v = wid then insert fid (posting x wid) else posting x v)"
    "ni_vocab x' = ni_vocab x" "ni_words x' = ni_words x" by blast+
qed

lemma indexWord_ok:
  assumes ok: "index_ok x" and fits: "index_fits (indexWord fid w x)"
  shows "index_ok (indexWord fid w x)" "lists_word (indexWord fid w x) f v \<longleftrightarrow> lists_word x f v \<or> f = fid \<and> v = w"
    "length (ni_words x) \<le> length (ni_words (indexWord fid w x))"
proof -
  obtain wid y where w: "wordID x w = (wid, y)" by fastforce
  obtain added z where a: "add_posting y wid fid = (added, z)" by fastforce
  have iw: "indexWord fid w x = (if added then z\<lparr>ni_entries := ni_entries z + 1\<rparr> else z)"
    by (simp add: indexWord_def w a)
  have zy: "ni_words z = ni_words y"
    using a by (auto simp: add_posting_def Let_def split: prod.splits if_splits)
  have fy: "index_fits y" using fits zy by (auto simp: iw index_fits_def split: if_splits)
  note W = wordID_ok [OF ok w fy]
  note A = add_posting_ok [OF W(1,3) a]
  show "index_ok (indexWord fid w x)" unfolding iw by (rule A(1))
  show "length (ni_words x) \<le> length (ni_words (indexWord fid w x))" using W(4) zy by (simp add: iw)
  have p: "posting (indexWord fid w x) k = posting z k" for k by (simp add: iw posting_def)
  have v: "ni_vocab (indexWord fid w x) = ni_vocab y" using A(3) by (simp add: iw)
  have inj: "map_of (ni_vocab y) v = Some wid \<longleftrightarrow> v = w"
    using W(1,2) unfolding index_ok_def vocab_ok_def by metis
  show "lists_word (indexWord fid w x) f v \<longleftrightarrow> lists_word x f v \<or> f = fid \<and> v = w"
    unfolding W(5) [symmetric] using inj by (auto simp: lists_word_def p v A(2))
qed

lemma indexWords_ok:
  assumes "index_ok x" "index_fits (fold (indexWord fid) ws x)"
  shows "index_ok (fold (indexWord fid) ws x)"
    "lists_word (fold (indexWord fid) ws x) f v \<longleftrightarrow> lists_word x f v \<or> f = fid \<and> v \<in> set ws"
proof -
  have grow: "length (ni_words y) \<le> length (ni_words (fold (indexWord fid) vs y))" for vs y
  proof (induction vs arbitrary: y)
    case (Cons a vs)
    have "length (ni_words y) \<le> length (ni_words (indexWord fid a y))"
      by (auto simp: indexWord_def wordID_def add_posting_def Let_def split: prod.splits option.splits if_splits)
    then show ?case using Cons.IH [of "indexWord fid a y"] by simp
  qed simp
  have "index_ok (fold (indexWord fid) ws x) \<and> (lists_word (fold (indexWord fid) ws x) f v \<longleftrightarrow> lists_word x f v \<or> f = fid \<and> v \<in> set ws)"
    using assms
  proof (induction ws arbitrary: x)
    case (Cons a ws)
    have "index_fits (indexWord fid a x)" using Cons.prems(2) grow [of "indexWord fid a x" ws] by (simp add: index_fits_def)
    note I = indexWord_ok [OF Cons.prems(1) this]
    show ?case using Cons.IH [OF I(1)] Cons.prems(2) I(2) by auto
  qed simp
  then show "index_ok (fold (indexWord fid) ws x)"
    "lists_word (fold (indexWord fid) ws x) f v \<longleftrightarrow> lists_word x f v \<or> f = fid \<and> v \<in> set ws" by blast+
qed

lemma index_live [simp]:
  "index_ok (x\<lparr>ni_live := k\<rparr>) = index_ok x" "lists_word (x\<lparr>ni_live := k\<rparr>) f v = lists_word x f v"
  by (simp_all add: index_ok_def vocab_ok_def grams_ok_def posts_ok_def entries_ok_def postingLen_def lists_word_def posting_def)

lemma indexName_ok:
  assumes "index_ok x" "index_fits (indexName u x fid name)"
  shows "index_ok (indexName u x fid name)"
    "lists_word (indexName u x fid name) f v \<longleftrightarrow> lists_word x f v \<or> f = fid \<and> v \<in> set (nameWords u name)"
  using indexWords_ok [of "x\<lparr>ni_live := ni_live x + int (length (nameWords u name))\<rparr>" fid "nameWords u name"] assms
  by (simp_all add: indexName_def Let_def)

lemma renameFile_ok:
  assumes "index_ok x" "index_fits (renameFile u x fid old name)" "\<forall>w \<in> set (nameWords u old). lists_word x fid w"
  shows "index_ok (renameFile u x fid old name)"
    "lists_word (renameFile u x fid old name) f v \<longleftrightarrow> lists_word x f v \<or> f = fid \<and> v \<in> set (nameWords u name)"
  using assms indexName_ok [of "x\<lparr>ni_live := ni_live x - int (length (nameWords u old))\<rparr>" u fid name]
  by (auto simp: renameFile_def split: if_splits)

lemma removeFile_ok:
  "index_ok (removeFile u x name) = index_ok x" "lists_word (removeFile u x name) f v = lists_word x f v"
  by (simp_all add: removeFile_def)

lemma asc_filter: "asc xs \<Longrightarrow> asc (filter P xs)"
  by (rule sorted_wrt_filter)

lemma purge_tail:
  assumes "distinct (map fst (ni_tails x))"
  shows "tail_of (purge dead x) wid = filter (\<lambda>f. \<not> dead f) (tail_of x wid)"
proof -
  have "map_get (filter (\<lambda>(wid, ids). ids \<noteq> []) (map (\<lambda>(wid, ids). (wid, filter P ids)) m)) k [] = filter P (map_get m k [])"
    if "distinct (map fst m)" for m :: "(nat, nat list) gomap" and k P
    using that
  proof (induction m)
    case (Cons a m)
    obtain i l where a: "a = (i, l)" by fastforce
    have "map_of (filter (\<lambda>(wid, ids). ids \<noteq> []) (map (\<lambda>(wid, ids). (wid, filter P ids)) m)) i = None"
      using Cons.prems a by (auto simp: map_of_eq_None_iff image_iff)
    then show ?case using Cons a by (auto simp: map_get_def)
  qed (simp add: map_get_def)
  from this [OF assms] show ?thesis by (simp add: purge_def Let_def)
qed

lemma sum_tails:
  fixes m :: "(nat, nat list) gomap"
  assumes "distinct (map fst m)" "\<forall>k \<in> fst ` set m. k < n" "h [] = (0 :: int)"
  shows "(\<Sum>k < n. h (map_get m k [])) = sum_list (map (\<lambda>(k, l). h l) m)"
  using assms
proof (induction m)
  case (Cons a m)
  obtain i l where a: "a = (i, l)" by fastforce
  have n: "map_of m i = None" "i < n" using Cons.prems a by (auto simp: map_of_eq_None_iff)
  have "(\<Sum>k < n. h (map_get (a # m) k [])) = (\<Sum>k < n. h (map_get m k []) + (if k = i then h l else 0))"
    using n Cons.prems(3) by (intro sum.cong) (auto simp: map_get_def a)
  also have "\<dots> = (\<Sum>k < n. h (map_get m k [])) + h l"
    using n sum.delta [of "{..<n}" i "\<lambda>_. h l"] by (simp add: sum.distrib)
  finally show ?case using Cons a by simp
qed (simp add: map_get_def)

lemma purge_ok:
  assumes "index_ok x"
  shows "index_ok (purge dead x)" "lists_word (purge dead x) f v \<longleftrightarrow> lists_word x f v \<and> \<not> dead f"
proof -
  let ?y = "purge dead x" and ?K = "filter (\<lambda>f. \<not> dead f)"
  have d: "distinct (map fst (ni_tails x))" and p: "posts_ok x" using assms by (auto simp: index_ok_def posts_ok_def)
  note t = purge_tail [OF d, of dead]
  have same: "ni_vocab ?y = ni_vocab x" "ni_words ?y = ni_words x" "ni_grams ?y = ni_grams x" "ni_post ?y = map ?K (ni_post x)"
    by (simp_all add: purge_def Let_def)
  have keys: "fst ` set (ni_tails ?y) \<subseteq> fst ` set (ni_tails x)" "distinct (map fst (ni_tails ?y))"
    using d by (force simp: purge_def Let_def, simp add: purge_def Let_def distinct_map_filter comp_def case_prod_beta)
  have "vocab_ok ?y" "grams_ok ?y" using assms by (simp_all add: index_ok_def vocab_ok_def grams_ok_def same)
  moreover have "posts_ok ?y" using p keys by (fastforce simp: posts_ok_def same t asc_filter)
  moreover have "entries_ok ?y"
  proof -
    have e: "ni_entries x = (\<Sum>k < length (ni_post x). int (length (ni_post x ! k))) + (\<Sum>k < length (ni_post x). int (length (tail_of x k)))"
      using assms by (simp add: index_ok_def entries_ok_def postingLen_def sum.distrib)
    have t1: "sum_list (map (\<lambda>(wid, ids). dropped dead ids) (ni_tails x)) = (\<Sum>k < length (ni_post x). dropped dead (tail_of x k))"
      using sum_tails [OF d, of "length (ni_post x)" "dropped dead"] p by (simp add: posts_ok_def dropped_def)
    have t2: "sum_list (map (dropped dead) (ni_post x)) = (\<Sum>k < length (ni_post x). dropped dead (ni_post x ! k))"
      by (simp add: sum_list_sum_nth atLeast0LessThan)
    have "ni_entries ?y = ni_entries x - sum_list (map (dropped dead) (ni_post x)) - sum_list (map (\<lambda>(wid, ids). dropped dead ids) (ni_tails x))"
      by (simp add: purge_def Let_def)
    then show ?thesis
      unfolding e t1 t2 by (simp add: entries_ok_def same postingLen_def t dropped_def sum_subtractf sum.distrib)
  qed
  ultimately show "index_ok ?y" by (simp add: index_ok_def)
  have "posting ?y k = {f \<in> posting x k. \<not> dead f}" if "k < length (ni_post x)" for k
    using that by (auto simp: posting_def same t)
  moreover have "map_of (ni_vocab x) v = Some k \<Longrightarrow> k < length (ni_post x)" for k
    using assms by (auto simp: index_ok_def vocab_ok_def)
  ultimately show "lists_word ?y f v \<longleftrightarrow> lists_word x f v \<and> \<not> dead f"
    by (auto simp: lists_word_def same)
qed

subsection \<open>Lookup\<close>

lemma trigram_append:
  assumes "3 \<le> length s"
  shows "trigram (s @ t) = trigram s"
proof -
  have "(s @ t) ! i = s ! i" if "i < 3" for i using that assms by (simp add: nth_append)
  then show ?thesis by (simp add: trigram_def)
qed

lemma trigrams_infix:
  assumes "Contains w run"
  shows "set (trigrams run) \<subseteq> set (trigrams w)"
proof
  fix g
  assume "g \<in> set (trigrams run)"
  then obtain i where i: "i < length run - 2" "g = trigram (drop i run)" by (auto simp: trigrams_def)
  obtain a b where w: "w = a @ run @ b" using assms by (auto simp: Contains_iff)
  have "drop (length a + i) w = drop i run @ b" using w i(1) by simp
  then have "trigram (drop (length a + i) w) = g" using i by (simp add: trigram_append)
  moreover have "length a + i < length w - 2" using w i(1) by simp
  ultimately show "g \<in> set (trigrams w)" by (force simp: trigrams_def)
qed

lemma gramLists_some:
  "gramLists x gs = Some ls \<Longrightarrow> ls = map (gram_of x) gs"
  "gramLists x gs = None \<longleftrightarrow> (\<exists>g \<in> set gs. gram_of x g = [])"
  by (induction gs arbitrary: ls) (auto simp: Let_def split: if_splits)

lemma intersectAll_inter:
  assumes "asc cand" "\<forall>l \<in> set ls. asc l"
  shows "asc (intersectAll cand ls) \<and> set (intersectAll cand ls) = set cand \<inter> \<Inter> (set ` set ls)"
  using assms
proof (induction ls arbitrary: cand)
  case (Cons l ls)
  then show ?case using intersectSorted_inter [of cand l] Cons.IH [of "intersectSorted cand l"] by auto
qed simp

lemma wordsContaining_exact:
  assumes ok: "index_ok x" and run: "3 \<le> length run"
  shows "set (wordsContaining x run) = {wid. wid < length (ni_words x) \<and> Contains (ni_words x ! wid) run}"
proof -
  have g: "grams_ok x" using ok by (simp add: index_ok_def)
  have ne: "trigrams run \<noteq> []" using run by (simp add: trigrams_def)
  have all: "wid \<in> set (gram_of x h)" if "wid < length (ni_words x)" "Contains (ni_words x ! wid) run" "h \<in> set (trigrams run)" for wid h
    using g that(1) subsetD [OF trigrams_infix [OF that(2)] that(3)] by (simp add: grams_ok_def)
  show ?thesis
  proof (cases "gramLists x (trigrams run)")
    case None
    then obtain h where "h \<in> set (trigrams run)" "gram_of x h = []" using gramLists_some(2) by blast
    then have "{wid. wid < length (ni_words x) \<and> Contains (ni_words x ! wid) run} = {}" using all by fastforce
    then show ?thesis using None by (simp add: wordsContaining_def)
  next
    case (Some ls)
    define ms where "ms = sortBy (\<lambda>a b. length a < length b) ls"
    have "ls = map (gram_of x) (trigrams run)" using gramLists_some(1) [OF Some] .
    then have ms: "set ms = gram_of x ` set (trigrams run)" by (simp add: ms_def)
    then have "ms \<noteq> []" using ne by auto
    then have sp: "set ms = insert (hd ms) (set (tl ms))" by (metis list.exhaust_sel list.simps(15))
    have asc: "\<forall>l \<in> set ms. asc l" using g ms by (auto simp: grams_ok_def)
    have "set (intersectAll (hd ms) (tl ms)) = \<Inter> (set ` set ms)"
      using intersectAll_inter [of "hd ms" "tl ms"] asc by (simp add: sp)
    also have "\<dots> = (\<Inter>h \<in> set (trigrams run). set (gram_of x h))" by (simp add: ms image_image)
    finally have "set (intersectAll (hd ms) (tl ms)) = (\<Inter>h \<in> set (trigrams run). set (gram_of x h))" .
    moreover have "wid < length (ni_words x)" if "\<forall>h \<in> set (trigrams run). wid \<in> set (gram_of x h)" for wid
      using that ne g by (cases "trigrams run") (auto simp: grams_ok_def)
    ultimately show ?thesis using Some all by (auto simp: wordsContaining_def Let_def ms_def)
  qed
qed

lemma collect_set:
  assumes "index_ok x" "\<forall>wid \<in> set wids. wid < length (ni_words x)"
  shows "asc (collect x wids)" "set (collect x wids) = \<Union> (posting x ` set wids)"
proof -
  have "asc (ni_post x ! wid)" if "wid < length (ni_words x)" for wid
    using that assms(1) by (auto simp: index_ok_def posts_ok_def vocab_ok_def)
  then show "asc (collect x wids)" "set (collect x wids) = \<Union> (posting x ` set wids)"
    using assms(2) by (auto simp: collect_def asc_compact_sort posting_def length_Suc_conv)
qed

text \<open>Every file that a run can match, by the words that it is listed under.\<close>

definition holding :: "nameIndex \<Rightarrow> bytes \<Rightarrow> nat set" where
  "holding x run = {fid. \<exists>w. lists_word x fid w \<and> Contains w run}"

lemma collect_run:
  assumes "index_ok x" "3 \<le> length run"
  shows "set (collect x (wordsContaining x run)) = holding x run" "asc (collect x (wordsContaining x run))"
proof -
  have w: "\<forall>wid \<in> set (wordsContaining x run). wid < length (ni_words x)"
    using wordsContaining_exact [OF assms] by auto
  show "asc (collect x (wordsContaining x run))" by (rule collect_set(1) [OF assms(1) w])
  have v: "vocab_ok x" using assms(1) by (simp add: index_ok_def)
  have "fid \<in> \<Union> (posting x ` {wid. wid < length (ni_words x) \<and> Contains (ni_words x ! wid) run}) \<longleftrightarrow> fid \<in> holding x run" for fid
  proof
    assume "fid \<in> \<Union> (posting x ` {wid. wid < length (ni_words x) \<and> Contains (ni_words x ! wid) run})"
    then obtain wid where "wid < length (ni_words x)" "Contains (ni_words x ! wid) run" "fid \<in> posting x wid" by auto
    then show "fid \<in> holding x run" using v unfolding vocab_ok_def holding_def lists_word_def by blast
  next
    assume "fid \<in> holding x run"
    then obtain w wid where "map_of (ni_vocab x) w = Some wid" "fid \<in> posting x wid" "Contains w run"
      by (auto simp: holding_def lists_word_def)
    then show "fid \<in> \<Union> (posting x ` {wid. wid < length (ni_words x) \<and> Contains (ni_words x ! wid) run})"
      using v unfolding vocab_ok_def by blast
  qed
  then show "set (collect x (wordsContaining x run)) = holding x run"
    unfolding collect_set(2) [OF assms(1) w] wordsContaining_exact [OF assms] by blast
qed

lemma posting_size: "sum_list (map (postingLen x) wids) = 0 \<Longrightarrow> \<forall>wid \<in> set wids. posting x wid = {}"
  by (induction wids) (auto simp: postingLen_def posting_def)

lemma runSets_cover:
  assumes ok: "index_ok x"
  shows "runSets x runs = None \<Longrightarrow> \<exists>run \<in> set runs. 3 \<le> length run \<and> holding x run = {}"
    "runSets x runs = Some sets \<Longrightarrow> (wids, sz) \<in> set sets \<Longrightarrow> \<exists>run \<in> set runs. 3 \<le> length run \<and> wids = wordsContaining x run"
proof -
  show "\<exists>run \<in> set runs. 3 \<le> length run \<and> holding x run = {}" if "runSets x runs = None"
    using that
  proof (induction runs)
    case (Cons run runs)
    show ?case
    proof (cases "3 \<le> length run \<and> sum_list (map (postingLen x) (wordsContaining x run)) = 0")
      case True
      have "\<forall>wid \<in> set (wordsContaining x run). posting x wid = {}" using posting_size [of x "wordsContaining x run"] True by simp
      moreover have "\<forall>wid \<in> set (wordsContaining x run). wid < length (ni_words x)"
        using wordsContaining_exact [OF ok] True by auto
      ultimately have "set (collect x (wordsContaining x run)) = {}" using collect_set(2) [OF ok] by simp
      then have "holding x run = {}" using collect_run(1) [OF ok] True by simp
      then show ?thesis using True by auto
    next
      case False
      then have "runSets x runs = None" using Cons.prems by (auto simp: Let_def not_le split: if_splits)
      then show ?thesis using Cons.IH by auto
    qed
  qed simp
  show "\<exists>run \<in> set runs. 3 \<le> length run \<and> wids = wordsContaining x run" if "runSets x runs = Some sets" "(wids, sz) \<in> set sets"
    using that
  proof (induction runs arbitrary: sets)
    case (Cons run runs)
    then show ?case by (auto simp: Let_def not_less split: if_splits)
  qed simp
qed

lemma narrow_cover:
  assumes ok: "index_ok x" and sets: "\<forall>(wids, sz) \<in> set sets. \<exists>run. P run \<and> 3 \<le> length run \<and> wids = wordsContaining x run"
    and out: "asc out"
  shows "asc (narrow x out sets)" "set (narrow x out sets) \<subseteq> set out"
    "fid \<in> set out \<Longrightarrow> \<forall>run. P run \<and> 3 \<le> length run \<longrightarrow> fid \<in> holding x run \<Longrightarrow> fid \<in> set (narrow x out sets)"
proof -
  have "asc (narrow x out sets) \<and> set (narrow x out sets) \<subseteq> set out \<and>
    (fid \<in> set out \<longrightarrow> (\<forall>run. P run \<and> 3 \<le> length run \<longrightarrow> fid \<in> holding x run) \<longrightarrow> fid \<in> set (narrow x out sets))"
    using sets out
  proof (induction sets arbitrary: out)
    case (Cons a sets)
    obtain wids sz where a: "a = (wids, sz)" by fastforce
    then obtain run where r: "P run" "3 \<le> length run" "wids = wordsContaining x run" using Cons.prems(1) by auto
    note c = collect_run [OF ok r(2), folded r(3)]
    note i = intersectSorted_inter [OF Cons.prems(2) c(2)]
    show ?case using Cons.IH [OF _ i(1)] Cons.prems i(2) c(1) r(1,2) by (auto simp: a)
  qed simp
  then show "asc (narrow x out sets)" "set (narrow x out sets) \<subseteq> set out"
    "fid \<in> set out \<Longrightarrow> \<forall>run. P run \<and> 3 \<le> length run \<longrightarrow> fid \<in> holding x run \<Longrightarrow> fid \<in> set (narrow x out sets)" by blast+
qed

subsection \<open>The candidates cover the matches\<close>

definition listed :: "nameIndex \<Rightarrow> nat \<Rightarrow> bool" where
  "listed x fid \<longleftrightarrow> (\<exists>w. lists_word x fid w)"

lemma holding_listed: "fid \<in> holding x run \<Longrightarrow> listed x fid"
  by (auto simp: holding_def listed_def)

lemma text_holding:
  assumes "\<forall>w \<in> set (nameWords u name). lists_word x fid w" "evalText u text (ToLower u name)"
    "run \<in> set (concat (map (\<lambda>t. alnumRuns u (ToLower u t)) (splitTerms text)))"
  shows "fid \<in> holding x run"
proof -
  obtain t where t: "t \<in> set (splitTerms text)" "run \<in> set (alnumRuns u (ToLower u t))" using assms(3) by auto
  then have "run \<in> set (termRuns u (ToLower u t))" by (auto simp: termRuns_def Let_def)
  then have "run \<in> set (leafRuns u text)" using t(1) by (auto simp: leafRuns_def)
  then have "Contains (ToLower u name) run" using assms(2) by (auto simp: evalText_def list_all_iff)
  then obtain w where "w \<in> set (nameWords u name)" "Contains w run" using name_word_cover t(2) by blast
  then show ?thesis using assms(1) by (auto simp: holding_def)
qed

lemma textCandidates_cover:
  assumes ok: "index_ok x" and tc: "textCandidates u x text limit = (ids, False)"
  shows "asc ids" "\<forall>fid \<in> set ids. listed x fid"
    "\<forall>w \<in> set (nameWords u name). lists_word x fid w \<Longrightarrow> evalText u text (ToLower u name) \<Longrightarrow> fid \<in> set ids"
proof -
  define runs where "runs = concat (map (\<lambda>t. alnumRuns u (ToLower u t)) (splitTerms text))"
  have hold: "fid \<in> holding x run" if "\<forall>w \<in> set (nameWords u name). lists_word x fid w" "evalText u text (ToLower u name)" "run \<in> set runs" for run
    using text_holding [OF that(1,2)] that(3) by (simp add: runs_def)
  have "asc ids \<and> (\<forall>fid \<in> set ids. listed x fid) \<and>
    ((\<forall>w \<in> set (nameWords u name). lists_word x fid w) \<longrightarrow> evalText u text (ToLower u name) \<longrightarrow> fid \<in> set ids)"
  proof (cases "splitTerms text = []")
    case True
    then have "\<not> evalText u text l" for l by (simp add: evalText_def leafRuns_def)
    then show ?thesis using True tc by (simp add: textCandidates_def)
  next
    case ne: False
    show ?thesis
    proof (cases "runSets x runs")
      case None
      then obtain run where "run \<in> set runs" "holding x run = {}" using runSets_cover(1) [OF ok] by blast
      then show ?thesis using hold None ne tc by (fastforce simp: textCandidates_def runs_def)
    next
      case (Some sets)
      define ms where "ms = sortBy (\<lambda>a b. snd a < snd b) sets"
      have "sets \<noteq> []" using Some ne tc by (auto simp: textCandidates_def runs_def)
      then have msne: "ms \<noteq> []" by (simp add: ms_def)
      then have ids: "ids = narrow x (collect x (fst (hd ms))) (tl ms)"
        using Some ne tc by (cases sets) (auto simp: textCandidates_def runs_def ms_def Let_def split: if_splits)
      have cov: "\<forall>(wids, sz) \<in> set ms. \<exists>run. run \<in> set runs \<and> 3 \<le> length run \<and> wids = wordsContaining x run"
        using runSets_cover(2) [OF ok Some] by (fastforce simp: ms_def)
      have "hd ms \<in> set ms" using msne by simp
      then obtain run where r: "run \<in> set runs" "3 \<le> length run" "fst (hd ms) = wordsContaining x run" using cov by fastforce
      note c = collect_run [OF ok r(2), folded r(3)]
      have tlcov: "\<forall>(wids, sz) \<in> set (tl ms). \<exists>run. run \<in> set runs \<and> 3 \<le> length run \<and> wids = wordsContaining x run"
        using cov by (meson list.set_sel(2) msne)
      note n = narrow_cover [OF ok tlcov c(2)]
      show ?thesis
        unfolding ids using n(1,2) n(3) [of fid] c(1) r(1) hold by (auto dest: holding_listed)
    qed
  qed
  then show "asc ids" "\<forall>fid \<in> set ids. listed x fid"
    "\<forall>w \<in> set (nameWords u name). lists_word x fid w \<Longrightarrow> evalText u text (ToLower u name) \<Longrightarrow> fid \<in> set ids" by blast+
qed

text \<open>
  What a file's place in the engine has to be for a search to find it: listed under every word
  of its name, and among the files of its hash.
\<close>

definition findable :: "ucd \<Rightarrow> nameIndex \<Rightarrow> hashLookup option \<Rightarrow> nat \<Rightarrow> storage_file \<Rightarrow> bool" where
  "findable u x byHash fid f \<longleftrightarrow> (\<forall>w \<in> set (nameWords u (f_Name f)). lists_word x fid w) \<and>
     (\<forall>g hash sz ids. byHash = Some g \<longrightarrow> g hash sz = Some ids \<longrightarrow> matchHashLeaf hash sz f \<longrightarrow> fid \<in> set ids)"

definition known_ids :: "nameIndex \<Rightarrow> hashLookup option \<Rightarrow> nat set" where
  "known_ids x byHash = {fid. listed x fid \<or> (\<exists>g hash sz ids. byHash = Some g \<and> g hash sz = Some ids \<and> fid \<in> set ids)}"

lemma matchAndOr_simps [simp]:
  "matchAndOr c (m, True) r = r" "matchAndOr c (m, False) (n, True) = (m, False)" "matchAndOr c (m, False) (n, False) = (c m n, False)"
  by (cases r; simp add: matchAndOr_def)+

lemma matchAndNot_simps [simp]:
  "matchAndNot l (n, True) = l" "matchAndNot (m, True) (n, False) = (False, True)" "matchAndNot (m, False) (n, False) = (m \<and> \<not> n, False)"
  by (cases l; simp add: matchAndNot_def)+

text \<open>The answer of \<open>candidates\<close> for one file whose test gave \<open>(matched, prune)\<close>.\<close>

definition covers_match :: "nat set \<Rightarrow> nat \<Rightarrow> bool \<times> bool \<Rightarrow> nat list \<times> bool \<Rightarrow> bool" where
  "covers_match K fid m c \<longleftrightarrow> snd c \<or> \<not> snd m \<and> (fst m \<longrightarrow> fid \<in> set (fst c)) \<and> asc (fst c) \<and> set (fst c) \<subseteq> K"

lemma covers_match_all [simp]: "covers_match K fid m (ids, True)"
  by (simp add: covers_match_def)

lemma covers_match_And:
  assumes "covers_match K fid m (l, False)" "covers_match K fid n (r, False)"
  shows "covers_match K fid (matchAndOr (\<and>) m n) (intersectSorted l r, False)"
  using assms intersectSorted_inter [of l r] by (cases m; cases n) (auto simp: covers_match_def)

lemma covers_match_Or:
  assumes "covers_match K fid m (l, False)" "covers_match K fid n (r, False)"
  shows "covers_match K fid (matchAndOr (\<or>) m n) (unionSorted l r, False)"
  using assms asc_unionSorted [of l r] by (cases m; cases n) (auto simp: covers_match_def)

lemma covers_match_left:
  assumes "covers_match K fid m (l, False)"
  shows "l = [] \<Longrightarrow> covers_match K fid (matchAndOr (\<and>) m n) ([], False)" "snd n \<Longrightarrow> covers_match K fid (matchAndOr c m n) (l, False)"
    "covers_match K fid (matchAndOr (\<and>) m n) (l, False)" "covers_match K fid (matchAndNot m n) (l, False)"
  using assms by (cases m; cases n; cases "snd n"; force simp: covers_match_def)+

lemma covers_match_right: "covers_match K fid n (r, False) \<Longrightarrow> covers_match K fid (matchAndOr (\<and>) m n) (r, False)"
  by (cases m; cases n; cases "snd m") (auto simp: covers_match_def)

lemma candidates_cover:
  assumes ok: "index_ok x" and f: "findable u x byHash fid f" and c: "candidates u x e limit byHash = Some c"
  shows "covers_match (known_ids x byHash) fid (evalNode u e f (ToLower u (f_Name f))) c"
proof -
  let ?l = "ToLower u (f_Name f)" and ?K = "known_ids x byHash"
  have words: "\<forall>w \<in> set (nameWords u (f_Name f)). lists_word x fid w" using f by (simp add: findable_def)
  have leaf: "covers_match ?K fid (evalText u t ?l, False) (textCandidates u x t limit)" for t
  proof (cases "textCandidates u x t limit")
    case (Pair ids all)
    then show ?thesis
      using textCandidates_cover(1,2) [OF ok, of u t limit ids] textCandidates_cover(3) [OF ok, of u t limit ids "f_Name f" fid] words
      by (cases all) (auto simp: covers_match_def known_ids_def)
  qed
  show ?thesis
    using c
  proof (induction e arbitrary: c)
    case (SearchText t)
    then show ?case using leaf by auto
  next
    case (SearchAnd a b)
    from SearchAnd.prems obtain l la where 1: "candidates u x a limit byHash = Some (l, la)"
      by (auto simp: bind_eq_Some_conv)
    note A = SearchAnd.IH(1) [OF 1]
    show ?case
    proof (cases "\<not> la \<and> l = []")
      case True
      then show ?thesis using SearchAnd.prems 1 A covers_match_left(1) by auto
    next
      case False
      with SearchAnd.prems 1 obtain r ra where 2: "candidates u x b limit byHash = Some (r, ra)"
        by (auto simp: bind_eq_Some_conv)
      note B = SearchAnd.IH(2) [OF 2]
      show ?thesis using SearchAnd.prems 1 2 False A B
        by (cases la; cases ra) (auto intro: covers_match_And covers_match_left(3) covers_match_right)
    qed
  next
    case (SearchOr a b)
    from SearchOr.prems obtain l la where 1: "candidates u x a limit byHash = Some (l, la)"
      by (auto simp: bind_eq_Some_conv)
    note A = SearchOr.IH(1) [OF 1]
    show ?case
    proof (cases la)
      case False
      with SearchOr.prems 1 obtain r ra where 2: "candidates u x b limit byHash = Some (r, ra)"
        by (auto simp: bind_eq_Some_conv)
      show ?thesis using SearchOr.prems 1 2 False A SearchOr.IH(2) [OF 2] by (cases ra) (auto intro: covers_match_Or)
    qed (use SearchOr.prems 1 in auto)
  next
    case (SearchAndNot a b)
    then show ?case by (cases c; cases "snd c") (auto intro: covers_match_left(4))
  next
    case (SearchString ty t)
    then show ?case using leaf by (auto split: if_splits)
  next
    case (SearchHash h sz)
    then show ?case using f
      by (auto simp: bind_eq_Some_conv asc_compact_sort findable_def known_ids_def covers_match_def split: option.splits)
  qed auto
qed

lemma candidates_total:
  assumes "\<forall>g hash sz. byHash = Some g \<longrightarrow> g hash sz \<noteq> None"
  shows "candidates u x e limit byHash \<noteq> None"
proof (induction e)
  case (SearchAnd a b)
  then obtain l r where "candidates u x a limit byHash = Some l" "candidates u x b limit byHash = Some r" by blast
  then show ?case by (cases l; cases r) (simp del: not_None_eq)
next
  case (SearchOr a b)
  then obtain l r where "candidates u x a limit byHash = Some l" "candidates u x b limit byHash = Some r" by blast
  then show ?case by (cases l; cases r) (simp del: not_None_eq)
next
  case (SearchHash h sz)
  show ?case
  proof (cases byHash)
    case (Some g)
    then obtain ids where "g h sz = Some ids" using assms by blast
    then show ?thesis using Some by (simp del: not_None_eq)
  qed simp
qed (simp_all del: not_None_eq)

subsection \<open>What the engine relies on\<close>

text \<open>
  The contract of a name index with the engine that keeps it. \<open>words\<close> are the words of a name,
  \<open>lists x f w\<close> says that \<open>x\<close> has file \<open>f\<close> under the word \<open>w\<close>. An index may list files that no
  longer have the word; it must not lose one that has.
\<close>

locale name_directory =
  fixes ok :: "'x \<Rightarrow> bool" and fits :: "'x \<Rightarrow> bool" and lists :: "'x \<Rightarrow> nat \<Rightarrow> bytes \<Rightarrow> bool" and words :: "bytes \<Rightarrow> bytes list"
    and new :: 'x and index :: "'x \<Rightarrow> nat \<Rightarrow> bytes \<Rightarrow> 'x" and rename :: "'x \<Rightarrow> nat \<Rightarrow> bytes \<Rightarrow> bytes \<Rightarrow> 'x"
    and remove :: "'x \<Rightarrow> bytes \<Rightarrow> 'x" and purged :: "(nat \<Rightarrow> bool) \<Rightarrow> 'x \<Rightarrow> 'x"
  assumes new_ok: "ok new" and new_lists: "\<not> lists new f w"
    and index_ok: "ok x \<Longrightarrow> fits (index x f n) \<Longrightarrow> ok (index x f n)"
    and index_lists: "ok x \<Longrightarrow> fits (index x f n) \<Longrightarrow> lists (index x f n) g w \<longleftrightarrow> lists x g w \<or> g = f \<and> w \<in> set (words n)"
    and index_fits: "fits (index x f n) \<Longrightarrow> fits x"
    and rename_ok: "ok x \<Longrightarrow> fits (rename x f m n) \<Longrightarrow> \<forall>w \<in> set (words m). lists x f w \<Longrightarrow> ok (rename x f m n)"
    and rename_lists: "ok x \<Longrightarrow> fits (rename x f m n) \<Longrightarrow> \<forall>w \<in> set (words m). lists x f w \<Longrightarrow>
      lists (rename x f m n) g w \<longleftrightarrow> lists x g w \<or> g = f \<and> w \<in> set (words n)"
    and remove_ok: "ok (remove x n) = ok x" and remove_lists: "lists (remove x n) g w = lists x g w"
    and purge_ok: "ok x \<Longrightarrow> ok (purged dead x)" and purge_lists: "ok x \<Longrightarrow> lists (purged dead x) g w \<longleftrightarrow> lists x g w \<and> \<not> dead g"
begin

text \<open>The index serves the files \<open>names\<close>, and lists no id from \<open>n\<close> up.\<close>

definition covers :: "'x \<Rightarrow> (nat \<Rightarrow> bytes option) \<Rightarrow> nat \<Rightarrow> bool" where
  "covers x names n \<longleftrightarrow> ok x \<and> (\<forall>f m. names f = Some m \<longrightarrow> (\<forall>w \<in> set (words m). lists x f w)) \<and> (\<forall>f w. lists x f w \<longrightarrow> f < n)"

lemma covers_new: "covers new (\<lambda>_. None) 0"
  by (simp add: covers_def new_ok new_lists)

lemma covers_index:
  "covers x names n \<Longrightarrow> fits (index x f m) \<Longrightarrow> f < k \<Longrightarrow> n \<le> k \<Longrightarrow> covers (index x f m) (names(f \<mapsto> m)) k"
  by (auto simp: covers_def index_ok index_lists dest: less_le_trans)

lemma covers_rename:
  assumes "covers x names n" "names f = Some old" "f < n" "fits (rename x f old m)"
  shows "covers (rename x f old m) (names(f \<mapsto> m)) n"
proof -
  have "ok x" "\<forall>w \<in> set (words old). lists x f w" using assms(1,2) by (auto simp: covers_def)
  then show ?thesis using assms by (auto simp: covers_def rename_ok rename_lists)
qed

lemma covers_remove: "covers x names n \<Longrightarrow> covers (remove x m) (names(f := None)) n"
  by (auto simp: covers_def remove_ok remove_lists)

lemma covers_purge: "covers x names n \<Longrightarrow> \<forall>f m. names f = Some m \<longrightarrow> \<not> dead f \<Longrightarrow> covers (purged dead x) names n"
  by (auto simp: covers_def purge_ok purge_lists)

lemma covers_cong: "covers x names n \<Longrightarrow> \<forall>f m. names' f = Some m \<longrightarrow> names f = Some m \<Longrightarrow> n \<le> k \<Longrightarrow> covers x names' k"
  by (auto simp: covers_def dest: less_le_trans)

lemma fits_fold: "fits (fold (\<lambda>(f, m) x. index x f m) fs x) \<Longrightarrow> fits x"
  by (induction fs arbitrary: x) (auto dest: index_fits)

lemma covers_fold:
  assumes "covers x names n" "fits (fold (\<lambda>(f, m) x. index x f m) fs x)" "\<forall>(f, m) \<in> set fs. f < k" "n \<le> k"
  shows "covers (fold (\<lambda>(f, m) x. index x f m) fs x) (names ++ map_of (rev fs)) k"
  using assms
proof (induction fs arbitrary: x names n)
  case Nil
  then show ?case by (auto intro: covers_cong)
next
  case (Cons a fs)
  obtain f m where a: "a = (f, m)" by fastforce
  have "fits (index x f m)" using Cons.prems(2) fits_fold a by simp
  then have c: "covers (index x f m) (names(f \<mapsto> m)) k" using Cons.prems a by (auto intro: covers_index)
  have eq: "names(f \<mapsto> m) ++ map_of (rev fs) = names ++ map_of (rev (a # fs))"
    by (simp add: a fun_eq_iff map_add_def split: option.split)
  have "covers (fold (\<lambda>(f, m) x. index x f m) fs (index x f m)) (names(f \<mapsto> m) ++ map_of (rev fs)) k"
    by (rule Cons.IH [OF c]) (use Cons.prems(2,3) a in simp_all)
  then show ?case unfolding eq by (simp add: a)
qed

end

lemma index_fits_mono: "index_fits (indexName u x f n) \<Longrightarrow> index_fits x"
proof -
  have "length (ni_words y) \<le> length (ni_words (fold (indexWord f) ws y))" for ws y
  proof (induction ws arbitrary: y)
    case (Cons a ws)
    have "length (ni_words y) \<le> length (ni_words (indexWord f a y))"
      by (auto simp: indexWord_def wordID_def add_posting_def Let_def split: prod.splits option.splits if_splits)
    then show ?case using Cons.IH [of "indexWord f a y"] by simp
  qed simp
  from this [of "x\<lparr>ni_live := ni_live x + int (length (nameWords u n))\<rparr>" "nameWords u n"]
  show "index_fits (indexName u x f n) \<Longrightarrow> index_fits x" by (simp add: index_fits_def indexName_def Let_def)
qed

interpretation directory: name_directory index_ok index_fits lists_word "nameWords u" newNameIndex "indexName u" "renameFile u" "removeFile u" purge for u
  by unfold_locales
    (simp_all add: newNameIndex_ok indexName_ok index_fits_mono renameFile_ok removeFile_ok purge_ok)

subsection \<open>Slabs\<close>

record 'a slab =
  sl_chunks :: "'a list list"
  sl_n :: nat

definition slab_at :: "'a slab \<Rightarrow> nat \<Rightarrow> 'a" where
  "slab_at s i = sl_chunks s ! (i div 4096) ! (i mod 4096)"

definition slab_put :: "'a slab \<Rightarrow> nat \<Rightarrow> 'a \<Rightarrow> 'a slab" where
  "slab_put s i f = s\<lparr>sl_chunks := (sl_chunks s)[i div 4096 := (sl_chunks s ! (i div 4096))[i mod 4096 := f]]\<rparr>"

definition slab_push :: "'a \<Rightarrow> 'a slab \<Rightarrow> 'a \<Rightarrow> nat \<times> 'a slab" where
  "slab_push zero s f =
     (let i = wrap32 (sl_n s);
          s = (if i div 4096 = length (sl_chunks s) then s\<lparr>sl_chunks := sl_chunks s @ [replicate 4096 zero]\<rparr> else s);
          s = slab_put s i f
      in (i, s\<lparr>sl_n := sl_n s + 1\<rparr>))"

definition slab_len :: "'a slab \<Rightarrow> nat" where
  "slab_len s = sl_n s"

definition slab_ok :: "'a slab \<Rightarrow> bool" where
  "slab_ok s \<longleftrightarrow> (\<forall>c \<in> set (sl_chunks s). length c = 4096) \<and> length (sl_chunks s) = (sl_n s + 4095) div 4096"

definition slab_list :: "'a slab \<Rightarrow> 'a list" where
  "slab_list s = map (slab_at s) [0..<sl_n s]"

text \<open>A slab is the list of its records: what the engine sees of it.\<close>

locale record_store =
  fixes ok :: "'s \<Rightarrow> bool" and view :: "'s \<Rightarrow> 'a list" and get :: "'s \<Rightarrow> nat \<Rightarrow> 'a" and put :: "'s \<Rightarrow> nat \<Rightarrow> 'a \<Rightarrow> 's"
    and push :: "'s \<Rightarrow> 'a \<Rightarrow> nat \<times> 's" and room :: nat
  assumes get: "ok s \<Longrightarrow> i < length (view s) \<Longrightarrow> get s i = view s ! i"
    and put_ok: "ok s \<Longrightarrow> i < length (view s) \<Longrightarrow> ok (put s i f)"
    and put: "ok s \<Longrightarrow> i < length (view s) \<Longrightarrow> view (put s i f) = (view s)[i := f]"
    and push_ok: "ok s \<Longrightarrow> length (view s) < room \<Longrightarrow> ok (snd (push s f))"
    and push: "ok s \<Longrightarrow> length (view s) < room \<Longrightarrow> fst (push s f) = length (view s) \<and> view (snd (push s f)) = view s @ [f]"
begin

lemma get_put: "ok s \<Longrightarrow> i < length (view s) \<Longrightarrow> j < length (view s) \<Longrightarrow> get (put s i f) j = (if i = j then f else get s j)"
  by (simp add: get put put_ok)

lemma get_push:
  assumes "ok s" "length (view s) < room" "j \<le> length (view s)"
  shows "get (snd (push s f)) j = (if j = length (view s) then f else get s j)"
  using assms push_ok [OF assms(1,2), of f] push [OF assms(1,2), of f] by (auto simp: get nth_append)

lemma push_all:
  assumes "ok s" "length (view s) + length fs \<le> room"
  shows "view (fold (\<lambda>f s. snd (push s f)) fs s) = view s @ fs"
  using assms
proof (induction fs arbitrary: s)
  case (Cons f fs)
  have "length (view s) < room" using Cons.prems(2) by simp
  then show ?case using Cons.IH [of "snd (push s f)"] push_ok [OF Cons.prems(1)] push [OF Cons.prems(1)] Cons.prems(2) by simp
qed simp

end

lemma slab_list_nth [simp]: "length (slab_list s) = sl_n s" "i < sl_n s \<Longrightarrow> slab_list s ! i = slab_at s i"
  by (simp_all add: slab_list_def)

lemma slab_bound: "slab_ok s \<Longrightarrow> i < sl_n s \<Longrightarrow> i div 4096 < length (sl_chunks s)"
  using div_le_mono [of "i + 4096" "sl_n s + 4095" 4096] by (simp add: slab_ok_def)

lemma slab_at_put:
  assumes "\<forall>c \<in> set (sl_chunks s). length c = 4096" "i div 4096 < length (sl_chunks s)" "j div 4096 < length (sl_chunks s)"
  shows "slab_at (slab_put s i f) j = (if i = j then f else slab_at s j)"
proof -
  have "i = j" if "i div 4096 = j div 4096" "i mod 4096 = j mod 4096"
    using that by (metis div_mult_mod_eq)
  moreover have "length (sl_chunks s ! (i div 4096)) = 4096" using assms(1,2) by simp
  ultimately show ?thesis using assms(2,3) by (auto simp: slab_at_def slab_put_def nth_list_update)
qed

lemma slab_put_chunks:
  assumes "\<forall>c \<in> set (sl_chunks s). length c = 4096" "i div 4096 < length (sl_chunks s)"
  shows "\<forall>c \<in> set (sl_chunks (slab_put s i f)). length c = 4096" "length (sl_chunks (slab_put s i f)) = length (sl_chunks s)"
    "sl_n (slab_put s i f) = sl_n s"
  using assms by (auto simp: slab_put_def dest!: subsetD [OF set_update_subset_insert])

lemma slab_push_eq:
  assumes "slab_ok s" "sl_n s < 4294967296" "slab_push zero s f = (i, s')"
  shows "i = sl_n s" "slab_ok s'" "slab_list s' = slab_list s @ [f]"
proof -
  have i: "i = sl_n s" using assms(2,3) by (simp add: slab_push_def Let_def wrap32_def)
  define t where "t = (if i div 4096 = length (sl_chunks s) then s\<lparr>sl_chunks := sl_chunks s @ [replicate 4096 zero]\<rparr> else s)"
  have s': "s' = slab_put t i f\<lparr>sl_n := sl_n s + 1\<rparr>"
    using assms(3) i by (auto simp: slab_push_def Let_def t_def slab_put_def wrap32_def)
  show "i = sl_n s" by (rule i)
  have len: "length (sl_chunks t) = Suc (i div 4096)"
  proof (cases "i mod 4096 = 0")
    case True
    then obtain k where "i = 4096 * k" by (auto simp: mod_eq_0_iff_dvd)
    then show ?thesis using assms(1) by (simp add: t_def slab_ok_def i [symmetric])
  next
    case False
    define q r where "q = i div 4096" and "r = i mod 4096"
    have "i = q * 4096 + r" "0 < r" "r < 4096" using False by (simp_all add: q_def r_def)
    then have "(i + 4095) div 4096 = Suc q" by (intro div_nat_eqI) simp_all
    then have "(i + 4095) div 4096 = Suc (i div 4096)" by (simp add: q_def)
    then show ?thesis using assms(1) by (simp add: t_def slab_ok_def i [symmetric])
  qed
  have t: "\<forall>c \<in> set (sl_chunks t). length c = 4096" "sl_n t = sl_n s" using assms(1) by (auto simp: t_def slab_ok_def)
  note p = slab_put_chunks [OF t(1), of i f] 
  show "slab_ok s'" using p len t(2) by (simp add: slab_ok_def s' i div_add1_eq)
  have "slab_at t j = slab_at s j" if "j < i" for j
    using slab_bound [OF assms(1), of j] that i by (simp add: t_def slab_at_def nth_append)
  moreover have "slab_at s' j = (if j = i then f else slab_at t j)" if "j \<le> i" for j
    using slab_at_put [OF t(1), of i j f] len div_le_mono [OF that, of 4096] by (auto simp: s' slab_at_def)
  ultimately show "slab_list s' = slab_list s @ [f]" by (simp add: slab_list_def s' i [symmetric] p(3) t(2))
qed

lemma slab_list_put:
  assumes "slab_ok s" "i < sl_n s"
  shows "slab_ok (slab_put s i f)" "slab_list (slab_put s i f) = (slab_list s)[i := f]"
proof -
  have c: "\<forall>c \<in> set (sl_chunks s). length c = 4096" using assms(1) by (simp add: slab_ok_def)
  note p = slab_put_chunks [OF c slab_bound [OF assms], of f]
  show "slab_ok (slab_put s i f)" using assms(1) p by (simp add: slab_ok_def)
  have "slab_at (slab_put s i f) j = (if i = j then f else slab_at s j)" if "j < sl_n s" for j
    using slab_at_put [OF c slab_bound [OF assms] slab_bound [OF assms(1) that]] .
  then show "slab_list (slab_put s i f) = (slab_list s)[i := f]"
    by (intro nth_equalityI) (auto simp: slab_list_def p(3) nth_list_update)
qed

interpretation slabs: record_store slab_ok slab_list slab_at slab_put "slab_push zero" 4294967296 for zero
proof unfold_locales
  fix s :: "'a slab" and f :: 'a
  assume ok: "slab_ok s" "length (slab_list s) < 4294967296"
  obtain i s' where "slab_push zero s f = (i, s')" by fastforce
  then show "slab_ok (snd (slab_push zero s f))"
    "fst (slab_push zero s f) = length (slab_list s) \<and> slab_list (snd (slab_push zero s f)) = slab_list s @ [f]"
    using slab_push_eq [of s zero f i s'] ok by (auto simp: slab_list_def)
qed (simp_all add: slab_list_put slab_list_nth)

subsection \<open>An index in use\<close>

text \<open>
  The states of an index in use, with the names of the files that it stands for: files are
  indexed under ids that no file has, renamed and removed, and ids without a file are purged.
\<close>

inductive index_run :: "ucd \<Rightarrow> nameIndex \<Rightarrow> (nat \<Rightarrow> bytes option) \<Rightarrow> bool" for u where
  run_new: "index_run u newNameIndex (\<lambda>_. None)"
| run_index: "index_run u x names \<Longrightarrow> index_fits (indexName u x fid name) \<Longrightarrow> names fid = None \<Longrightarrow>
    index_run u (indexName u x fid name) (names(fid \<mapsto> name))"
| run_rename: "index_run u x names \<Longrightarrow> index_fits (renameFile u x fid old name) \<Longrightarrow> names fid = Some old \<Longrightarrow>
    index_run u (renameFile u x fid old name) (names(fid \<mapsto> name))"
| run_remove: "index_run u x names \<Longrightarrow> names fid = Some old \<Longrightarrow> index_run u (removeFile u x old) (names(fid := None))"
| run_purge: "index_run u x names \<Longrightarrow> \<forall>fid. names fid \<noteq> None \<longrightarrow> \<not> dead fid \<Longrightarrow> index_run u (purge dead x) names"

lemma index_run_covers: "index_run u x names \<Longrightarrow> \<exists>n. directory.covers u x names n"
proof (induction rule: index_run.induct)
  case run_new
  then show ?case using directory.covers_new by blast
next
  case (run_index x names fid name)
  then obtain n where "directory.covers u x names n" by blast
  then have "directory.covers u (indexName u x fid name) (names(fid \<mapsto> name)) (max n (Suc fid))"
    by (rule directory.covers_index) (use run_index in simp_all)
  then show ?case by blast
next
  case (run_rename x names fid old name)
  then obtain n where "directory.covers u x names n" by blast
  then have "directory.covers u x names (max n (Suc fid))" by (rule directory.covers_cong) simp_all
  then have "directory.covers u (renameFile u x fid old name) (names(fid \<mapsto> name)) (max n (Suc fid))"
    by (rule directory.covers_rename) (use run_rename in simp_all)
  then show ?case by blast
next
  case (run_remove x names fid old)
  then show ?case using directory.covers_remove by blast
next
  case (run_purge x names dead)
  then obtain n where "directory.covers u x names n" by blast
  then have "directory.covers u (purge dead x) names n" by (rule directory.covers_purge) (use run_purge(2) in auto)
  then show ?case by blast
qed

text \<open>The files that a search answers with, among the files of a table.\<close>

definition found :: "ucd \<Rightarrow> search_expr \<Rightarrow> (nat \<Rightarrow> storage_file option) \<Rightarrow> nat \<Rightarrow> bool" where
  "found u expr files fid = (case files fid of None \<Rightarrow> False | Some f \<Rightarrow> MatchSearchExpr u expr f)"

definition lists_hashes :: "hashLookup \<Rightarrow> (nat \<Rightarrow> storage_file option) \<Rightarrow> bool" where
  "lists_hashes byHash files \<longleftrightarrow>
     (\<forall>hash sz ids fid f. byHash hash sz = Some ids \<longrightarrow> files fid = Some f \<longrightarrow> matchHashLeaf hash sz f \<longrightarrow> fid \<in> set ids)"

lemma candidates_found:
  assumes "index_run u x (\<lambda>fid. map_option f_Name (files fid))" "lists_hashes byHash files"
    "candidates u x expr limit (Some byHash) = Some (ids, False)" "found u expr files fid"
  shows "fid \<in> set ids"
proof -
  obtain n where c: "directory.covers u x (\<lambda>fid. map_option f_Name (files fid)) n" using index_run_covers [OF assms(1)] by blast
  then have ok: "index_ok x" by (simp add: directory.covers_def)
  obtain f where f: "files fid = Some f" "MatchSearchExpr u expr f" using assms(4) by (auto simp: found_def split: option.splits)
  have "findable u x (Some byHash) fid f"
    using c f(1) assms(2) by (auto simp: findable_def directory.covers_def lists_hashes_def)
  from candidates_cover [OF ok this assms(3)] f(2) show ?thesis
    by (auto simp: covers_match_def MatchSearchExpr_eval)
qed

lemma candidates_asc:
  assumes "index_ok x" "candidates u x e limit byHash = Some (ids, False)"
  shows "asc ids"
  using assms(2)
proof (induction e arbitrary: ids)
  case (SearchAnd a b)
  then show ?case by (auto simp: bind_eq_Some_conv intersectSorted_inter split: if_splits)
next
  case (SearchOr a b)
  then show ?case by (auto simp: bind_eq_Some_conv asc_unionSorted split: if_splits)
next
  case (SearchHash h sz)
  then show ?case by (auto simp: bind_eq_Some_conv asc_compact_sort split: option.splits)
qed (auto intro: textCandidates_cover(1) [OF assms(1)] split: if_splits)

lemma filter_asc_unique:
  fixes xs ys :: "nat list"
  assumes "asc xs" "asc ys" "\<forall>i. P i \<longrightarrow> (i \<in> set xs \<longleftrightarrow> i \<in> set ys)"
  shows "filter P xs = filter P ys"
proof (rule sorted_distinct_set_unique)
  show "sorted (filter P xs)" "distinct (filter P xs)" "sorted (filter P ys)" "distinct (filter P ys)"
    using assms(1,2) by (simp_all add: strict_sorted_iff sorted_filter [of id, simplified])
qed (use assms(3) in auto)

text \<open>C3: Whatever files were indexed, renamed, removed and purged before, a search that the index
  narrows to candidates finds, among them and in the same order, the files that a scan over all
  records finds.
\<close>

theorem indexed_search_complete:
  assumes "index_run u x (\<lambda>fid. map_option f_Name (files fid))" "lists_hashes byHash files"
    and "candidates u x expr limit (Some byHash) = Some (ids, False)" "\<forall>fid \<ge> n. files fid = None"
  shows "filter (found u expr files) ids = filter (found u expr files) [0..<n]"
proof (rule filter_asc_unique)
  show "asc ids" using candidates_asc [OF _ assms(3)] index_run_covers [OF assms(1)] by (auto simp: directory.covers_def)
  show "asc [0..<n]" by (simp add: sorted_wrt_upt)
  show "\<forall>i. found u expr files i \<longrightarrow> (i \<in> set ids \<longleftrightarrow> i \<in> set [0..<n])"
    using candidates_found [OF assms(1-3)] assms(4) by (auto simp: found_def not_le [symmetric] split: option.splits)
qed

definition ascii_tables :: ucd where
  "ascii_tables = \<lparr>u_letter = \<lambda>_. False, u_digit = \<lambda>_. False, u_lower = \<lambda>r. r, u_fold = \<lambda>_ _. False\<rparr>"

definition cabin_hashes :: hashLookup where
  "cabin_hashes = (\<lambda>hash sz. Some (if hash = [] then [0] else []))"

definition cabin_index :: nameIndex where
  "cabin_index = indexName ascii_tables newNameIndex 0 (str ''Old Cabin'')"

lemma cabin_words: "nameWords ascii_tables (str ''Old Cabin'') = [str ''cabin'', str ''old'']"
  by code_simp

lemma cabin_trigrams: "trigrams (str ''cabin'') = [0x636162, 0x616269, 0x62696e]" "trigrams (str ''old'') = [0x6f6c64]" "trigrams (str ''bin'') = [0x62696e]"
  by code_simp+

lemma bin_runs: "splitTerms (str ''BIN'') = [str ''BIN'']" "alnumRuns ascii_tables (ToLower ascii_tables (str ''BIN'')) = [str ''bin'']"
  by code_simp+

lemma cabin_contains: "Contains (str ''cabin'') (str ''bin'')" "str ''cabin'' \<noteq> str ''old''" "length (str ''bin'') = 3"
  by code_simp+

lemma cabin_value: "cabin_index = 
  \<lparr>ni_vocab = [(str ''cabin'', 0), (str ''old'', 1)], ni_words = [str ''cabin'', str ''old''], ni_post = [[0], [0]], ni_tails = [],
   ni_grams = [(0x636162, [0]), (0x616269, [0]), (0x62696e, [0]), (0x6f6c64, [1])], ni_entries = 2, ni_live = 2\<rparr>"
  using cabin_contains(2)
  by (simp add: cabin_index_def indexName_def cabin_words indexWord_def newNameIndex_def wordID_def add_posting_def BinarySearch_def bsearch.simps
    cabin_trigrams addGram_def map_get_def wrap32_def Let_def)

lemma cabin_candidates: "candidates ascii_tables cabin_index (SearchText (str ''BIN'')) 10 (Some cabin_hashes) = Some ([0], False)"
  by (simp add: cabin_value textCandidates_def bin_runs cabin_contains wordsContaining_def cabin_trigrams map_get_def sortBy_def postingLen_def collect_def Let_def)

definition cabin_files :: "nat \<Rightarrow> storage_file option" where
  "cabin_files = (\<lambda>fid. if fid = 0 then Some (zero_file\<lparr>f_Name := str ''Old Cabin''\<rparr>) else None)"

lemma cabin_run: "index_run ascii_tables cabin_index (\<lambda>fid. map_option f_Name (cabin_files fid))"
proof -
  have "index_fits cabin_index" by (simp add: cabin_value index_fits_def)
  then have "index_run ascii_tables cabin_index ((\<lambda>_. None)(0 \<mapsto> str ''Old Cabin''))"
    unfolding cabin_index_def by (intro run_index run_new) simp_all
  moreover have "(\<lambda>_. None)(0 \<mapsto> str ''Old Cabin'') = (\<lambda>fid. map_option f_Name (cabin_files fid))"
    by (auto simp: cabin_files_def)
  ultimately show ?thesis by simp
qed

theorem indexed_search_complete_witness:
  "candidates ascii_tables cabin_index (SearchText (str ''BIN'')) 10 (Some cabin_hashes) = Some ([0], False) \<and>
   filter (found ascii_tables (SearchText (str ''BIN'')) cabin_files) [0] = filter (found ascii_tables (SearchText (str ''BIN'')) cabin_files) [0..<1]"
proof
  show "filter (found ascii_tables (SearchText (str ''BIN'')) cabin_files) [0] = filter (found ascii_tables (SearchText (str ''BIN'')) cabin_files) [0..<1]"
  proof (rule indexed_search_complete [OF cabin_run _ cabin_candidates])
    show "lists_hashes cabin_hashes cabin_files"
      by (auto simp: lists_hashes_def cabin_hashes_def cabin_files_def matchHashLeaf_def zero_file_def split: if_splits)
  qed (simp add: cabin_files_def)
qed (rule cabin_candidates)

end
