(* ===== verification/Search_Rank.thy ===== *)
theory Search_Rank
  imports Name_Index "HOL-Library.Product_Lexorder"
begin

unbundle bit_operations_syntax

section \<open>Ranking the answer to a search (storage/memory_rank.go)\<close>

text \<open>
  A search of the memory engine collects its matches in a ranker. Up to \<open>MaxSearchResults\<close> matches
  are kept as they come; past that the ranker keeps the best ones in a binary heap with the worst
  on top, and stops the search after \<open>searchRankScan\<close> matches. The copy of a hash into memory of
  the answer's own, which changes no value, is left out.
\<close>

subsection \<open>Rank of a file\<close>

definition MaxSearchResults :: nat where "MaxSearchResults = 1000"
definition searchRankScan :: nat where "searchRankScan = 20000"

record rankEntry =
  re_sources :: u32
  re_id :: nat
  re_tie :: u64
  re_idx :: nat

definition below :: "rankEntry \<Rightarrow> rankEntry \<Rightarrow> bool" where
  "below a b \<longleftrightarrow>
     (if re_sources a \<noteq> re_sources b then re_sources a < re_sources b
      else if re_tie a \<noteq> re_tie b then re_tie a < re_tie b
      else re_id a > re_id b)"

definition rankTie :: "u64 \<Rightarrow> storage_file \<Rightarrow> u64" where
  "rankTie seed f =
     (let h = take 8 (f_Hash f @ replicate 8 0);
          z = seed XOR le_get h XOR f_Size f * 0x9e3779b97f4a7c15;
          z = (z XOR drop_bit 30 z) * 0xbf58476d1ce4e5b9;
          z = (z XOR drop_bit 27 z) * 0x94d049bb133111eb
      in z XOR drop_bit 31 z)"

definition fnv64a :: "bytes \<Rightarrow> u64" where
  "fnv64a bs = foldl (\<lambda>h b. (h XOR ucast b) * 0x100000001b3) 0xcbf29ce484222325 bs"

text \<open>The bytes that one node of a query adds to the hash; \<open>kind\<close> is its kind plus one.\<close>

definition seedNode :: "u8 \<Rightarrow> u32 \<Rightarrow> u64 \<Rightarrow> bytes \<Rightarrow> bytes \<Rightarrow> bytes" where
  "seedNode kind tagType valueUint text valueString =
     [kind] @ le_put 4 tagType @ le_put 8 valueUint @ text @ [0] @ valueString @ [0]"

fun seedWalk :: "search_expr \<Rightarrow> bytes" where
  "seedWalk NilExpr = [0]"
| "seedWalk (SearchText t) = seedNode 1 0 0 t [] @ [0, 0]"
| "seedWalk (SearchAnd l r) = seedNode 2 0 0 [] [] @ seedWalk l @ seedWalk r"
| "seedWalk (SearchOr l r) = seedNode 3 0 0 [] [] @ seedWalk l @ seedWalk r"
| "seedWalk (SearchAndNot l r) = seedNode 4 0 0 [] [] @ seedWalk l @ seedWalk r"
| "seedWalk (SearchString tagType v) = seedNode 5 tagType 0 [] v @ [0, 0]"
| "seedWalk (SearchUInt32 tagType v) = seedNode 6 tagType v [] [] @ [0, 0]"
| "seedWalk (SearchUInt64 tagType v) = seedNode 7 tagType v [] [] @ [0, 0]"
| "seedWalk (SearchHash hash v) = seedNode 8 0 v [] hash @ [0, 0]"
| "seedWalk (SearchRelated seeds) = seedNode 9 0 0 [] [] @ [0, 0]"

definition searchSeed :: "search_expr \<Rightarrow> u64" where
  "searchSeed expr = fnv64a (seedWalk expr)"

subsection \<open>The heap\<close>

definition least_child :: "rankEntry list \<Rightarrow> nat \<Rightarrow> nat" where
  "least_child h i =
     (let least = i;
          least = (if 2 * i + 1 < length h \<and> below (h ! (2 * i + 1)) (h ! least) then 2 * i + 1 else least);
          least = (if 2 * i + 2 < length h \<and> below (h ! (2 * i + 2)) (h ! least) then 2 * i + 2 else least)
      in least)"

lemma least_child_cases:
  "least_child h i = i \<or> least_child h i = 2 * i + 1 \<and> 2 * i + 1 < length h \<or> least_child h i = 2 * i + 2 \<and> 2 * i + 2 < length h"
  by (simp add: least_child_def Let_def)

function siftDown :: "rankEntry list \<Rightarrow> nat \<Rightarrow> rankEntry list" where
  "siftDown h i =
     (let least = least_child h i
      in if least = i then h else siftDown (h[i := h ! least, least := h ! i]) least)"
  by pat_completeness auto
termination
proof (relation "measure (\<lambda>(h, i). length h - i)", goal_cases)
  case (2 h i x)
  then show ?case using least_child_cases [of h i] by auto
qed simp

declare siftDown.simps [simp del]

subsection \<open>The ranker\<close>

record searchRanker =
  sr_expr :: search_expr
  sr_out :: "storage_file list"
  sr_ids :: "nat list"
  sr_heap :: "rankEntry list option"
  sr_seed :: u64
  sr_matches :: nat

definition newRanker :: "search_expr \<Rightarrow> searchRanker" where
  "newRanker expr = \<lparr>sr_expr = expr, sr_out = [], sr_ids = [], sr_heap = None, sr_seed = 0, sr_matches = 0\<rparr>"

definition rank_entry :: "u64 \<Rightarrow> nat \<Rightarrow> storage_file \<Rightarrow> nat \<Rightarrow> rankEntry" where
  "rank_entry seed fid f idx = \<lparr>re_sources = f_Sources f, re_id = fid, re_tie = rankTie seed f, re_idx = idx\<rparr>"

text \<open>The first match past the limit makes a heap of the files kept so far.\<close>

definition overflow :: "searchRanker \<Rightarrow> searchRanker" where
  "overflow r =
     (case sr_heap r of
        Some _ \<Rightarrow> r
      | None \<Rightarrow>
          (let seed = searchSeed (sr_expr r);
               heap = map (\<lambda>i. rank_entry seed (sr_ids r ! i) (sr_out r ! i) i) [0..<length (sr_out r)];
               heap = fold (\<lambda>i h. siftDown h i) (rev [0..<length heap div 2]) heap
           in r\<lparr>sr_seed := seed, sr_heap := Some heap, sr_ids := []\<rparr>))"

definition add_match :: "searchRanker \<Rightarrow> nat \<Rightarrow> storage_file \<Rightarrow> bool \<times> searchRanker" where
  "add_match r fid f =
     (let r = r\<lparr>sr_matches := sr_matches r + 1\<rparr>
      in if length (sr_out r) < MaxSearchResults then (True, r\<lparr>sr_out := sr_out r @ [f], sr_ids := sr_ids r @ [fid]\<rparr>)
         else let r = overflow r; heap = the (sr_heap r); e = rank_entry (sr_seed r) fid f (re_idx (heap ! 0));
                  r = (if below (heap ! 0) e
                       then r\<lparr>sr_out := (sr_out r)[re_idx e := f], sr_heap := Some (siftDown (heap[0 := e]) 0)\<rparr>
                       else r)
              in (sr_matches r < searchRankScan, r))"

definition rank_result :: "searchRanker \<Rightarrow> storage_file list" where
  "rank_result r =
     (case sr_heap r of
        None \<Rightarrow> sr_out r
      | Some heap \<Rightarrow> map (\<lambda>e. sr_out r ! re_idx e) (sortBy (\<lambda>a b. below b a) heap))"

text \<open>A search feeds its matches to the ranker until the ranker has seen enough.\<close>

fun feed :: "searchRanker \<Rightarrow> (nat \<times> storage_file) list \<Rightarrow> searchRanker" where
  "feed r [] = r"
| "feed r ((fid, f) # ms) = (case add_match r fid f of (go, r) \<Rightarrow> if go then feed r ms else r)"

subsection \<open>The order\<close>

text \<open>The rank as a number triple, smallest first.\<close>

definition rank_key :: "rankEntry \<Rightarrow> int \<times> int \<times> int" where
  "rank_key e = (- uint (re_sources e), - uint (re_tie e), int (re_id e))"

lemma below_key: "below a b \<longleftrightarrow> rank_key b < rank_key a"
  by (auto simp: below_def rank_key_def less_prod_def word_less_def word_uint_eq_iff)

definition rank_of :: "u64 \<Rightarrow> nat \<times> storage_file \<Rightarrow> int \<times> int \<times> int" where
  "rank_of seed m = (- uint (f_Sources (snd m)), - uint (rankTie seed (snd m)), int (fst m))"

lemma rank_key_entry [simp]: "rank_key (rank_entry seed fid f idx) = rank_of seed (fid, f)"
  by (simp add: rank_key_def rank_entry_def rank_of_def)

lemma sorted_insertBy:
  fixes k :: "'a \<Rightarrow> 'k :: linorder"
  shows "sorted (map k xs) \<Longrightarrow> sorted (map k (insertBy (\<lambda>a b. k a < k b) x xs))"
proof (induction xs)
  case (Cons y ys)
  have "set (insertBy lt x zs) = insert x (set zs)" for lt zs by (induction zs) auto
  then show ?case using Cons by auto
qed simp

lemma sorted_sortBy:
  fixes k :: "'a \<Rightarrow> 'k :: linorder"
  shows "sorted (map k (sortBy (\<lambda>a b. k a < k b) xs))"
proof -
  have "sorted (map k ys) \<Longrightarrow> sorted (map k (fold (insertBy (\<lambda>a b. k a < k b)) xs ys))" for ys
    by (induction xs arbitrary: ys) (simp_all add: sorted_insertBy)
  then show ?thesis by (simp add: sortBy_def)
qed

subsection \<open>Heap order\<close>

text \<open>Node \<open>i\<close> ranks no higher than its children: the worst file is on top.\<close>

definition heap_node :: "rankEntry list \<Rightarrow> nat \<Rightarrow> bool" where
  "heap_node h i \<longleftrightarrow> (\<forall>c \<in> {2 * i + 1, 2 * i + 2}. c < length h \<longrightarrow> rank_key (h ! c) \<le> rank_key (h ! i))"

lemma least_child_least:
  assumes "c \<in> {2 * i + 1, 2 * i + 2}" "c < length h"
  shows "rank_key (h ! c) \<le> rank_key (h ! least_child h i)"
  using assms by (auto simp: least_child_def Let_def below_key)

lemma least_child_below: "least_child h i \<noteq> i \<Longrightarrow> rank_key (h ! i) < rank_key (h ! least_child h i)"
  by (auto simp: least_child_def Let_def below_key split: if_splits)

lemma least_child_root: "least_child h i = i \<Longrightarrow> heap_node h i"
  using least_child_least [of _ i h] by (auto simp: heap_node_def)

text \<open>What holds while an entry sinks from \<open>i\<close>, having reached \<open>p\<close>.\<close>

definition sinking :: "rankEntry list \<Rightarrow> nat \<Rightarrow> nat \<Rightarrow> bool" where
  "sinking h i p \<longleftrightarrow> i \<le> p \<and> (\<forall>j \<ge> i. j \<noteq> p \<longrightarrow> heap_node h j) \<and>
     (\<forall>q \<ge> i. p \<in> {2 * q + 1, 2 * q + 2} \<longrightarrow> (\<forall>c \<in> {2 * p + 1, 2 * p + 2}. c < length h \<longrightarrow> rank_key (h ! c) \<le> rank_key (h ! q)))"

lemma sinking_step:
  assumes s: "sinking h i p" and l: "l = least_child h p" "l \<noteq> p" and p: "p < length h"
  shows "sinking (h[p := h ! l, l := h ! p]) i l"
proof -
  let ?h = "h[p := h ! l, l := h ! p]"
  have lc: "l \<in> {2 * p + 1, 2 * p + 2}" "l < length h" using least_child_cases [of h p] l by auto
  have pl: "p < l" using lc(1) by auto
  have v: "?h ! j = (if j = l then h ! p else if j = p then h ! l else h ! j)" if "j < length h" for j
    using that lc(2) p by (simp add: nth_list_update)
  have node: "heap_node ?h j" if j: "i \<le> j" "j \<noteq> l" for j
    unfolding heap_node_def
  proof (intro ballI impI)
    fix c
    assume c: "c \<in> {2 * j + 1, 2 * j + 2}" "c < length ?h"
    then have cj: "j < c" "c < length h" by auto
    show "rank_key (?h ! c) \<le> rank_key (?h ! j)"
    proof (cases "j = p")
      case True
      then have "rank_key (h ! c) \<le> rank_key (h ! l)" using least_child_least [of c p h] c l(1) by simp
      moreover have "rank_key (h ! p) < rank_key (h ! l)" using least_child_below [of h p] l by simp
      ultimately show ?thesis using True pl cj v [of c] v [of j] p by (cases "c = l") auto
    next
      case False
      then have old: "rank_key (h ! c) \<le> rank_key (h ! j)" using s j c by (auto simp: sinking_def heap_node_def)
      have "c \<noteq> l" using c(1) lc(1) False by auto
      show ?thesis
      proof (cases "c = p")
        case True
        then have "rank_key (h ! l) \<le> rank_key (h ! j)" using s j(1) c(1) lc unfolding sinking_def by blast
        then show ?thesis using True False j(2) \<open>c \<noteq> l\<close> v [of c] v [of j] cj by auto
      qed (use old False j(2) \<open>c \<noteq> l\<close> v [of c] v [of j] cj in auto)
    qed
  qed
  have "rank_key (?h ! c) \<le> rank_key (?h ! q)"
    if "i \<le> q" "l \<in> {2 * q + 1, 2 * q + 2}" "c \<in> {2 * l + 1, 2 * l + 2}" "c < length ?h" for q c
  proof -
    have q: "q = p" using that(2) lc(1) by auto
    have "heap_node h l" using s pl by (auto simp: sinking_def)
    then have "rank_key (h ! c) \<le> rank_key (h ! l)" using that(3,4) by (auto simp: heap_node_def)
    moreover have "c \<noteq> l" "c \<noteq> p" using that(3) pl by auto
    ultimately show ?thesis using q pl that(4) v [of c] v [of p] p by auto
  qed
  then show ?thesis using node s pl unfolding sinking_def by (meson le_less_trans less_imp_le)
qed

lemma siftDown_heap:
  assumes "sinking h i p" "p < length h"
  shows "mset (siftDown h p) = mset h \<and> (\<forall>j \<ge> i. heap_node (siftDown h p) j)"
  using assms
proof (induction h p rule: siftDown.induct)
  case (1 h p)
  show ?case
  proof (cases "least_child h p = p")
    case True
    then have "siftDown h p = h" using siftDown.simps [of h p] by simp
    then show ?thesis using 1(2) least_child_root [OF True] by (auto simp: sinking_def)
  next
    case False
    define l where "l = least_child h p"
    have lc: "l < length h" using least_child_cases [of h p] False by (auto simp: l_def)
    let ?h = "h[p := h ! l, l := h ! p]"
    have eq: "siftDown h p = siftDown ?h l" using siftDown.simps [of h p] False by (simp add: l_def Let_def)
    have "mset ?h = mset h" using mset_swap [OF lc 1(3)] by (simp add: list_update_swap)
    moreover have "sinking ?h i l" using sinking_step [OF 1(2) l_def] False 1(3) by (simp add: l_def)
    ultimately show ?thesis using 1(1) [OF l_def] False lc unfolding eq by (simp add: l_def)
  qed
qed

lemma siftDown_from:
  assumes "\<forall>j > i. heap_node h j" "i < length h"
  shows "mset (siftDown h i) = mset h" "\<forall>j \<ge> i. heap_node (siftDown h i) j"
proof -
  have "sinking h i i" using assms(1) by (auto simp: sinking_def)
  from siftDown_heap [OF this assms(2)] show "mset (siftDown h i) = mset h" "\<forall>j \<ge> i. heap_node (siftDown h i) j" by blast+
qed

lemma build_heap:
  assumes "k \<le> length h" "\<forall>j \<ge> k. heap_node h j"
  shows "mset (fold (\<lambda>i h. siftDown h i) (rev [0..<k]) h) = mset h \<and> (\<forall>j. heap_node (fold (\<lambda>i h. siftDown h i) (rev [0..<k]) h) j)"
  using assms
proof (induction k arbitrary: h)
  case (Suc k)
  note s = siftDown_from [of k h]
  have "length (siftDown h k) = length h" using s(1) Suc.prems mset_eq_length by (metis Suc_le_eq)
  then show ?case using Suc.IH [of "siftDown h k"] s Suc.prems by (auto simp: Suc_le_eq)
qed simp

lemma leaf_nodes: "length h div 2 \<le> j \<Longrightarrow> heap_node h j"
  by (auto simp: heap_node_def)

lemma heap_root:
  assumes "\<forall>j. heap_node h j" "i < length h"
  shows "rank_key (h ! i) \<le> rank_key (h ! 0)"
  using assms(2)
proof (induction i rule: less_induct)
  case (less i)
  show ?case
  proof (cases "i = 0")
    case False
    define q where "q = (i - 1) div 2"
    have "q < i" "i \<in> {2 * q + 1, 2 * q + 2}" using False by (auto simp: q_def)
    then show ?thesis using less.IH [of q] less.prems assms(1) unfolding heap_node_def by (meson order_trans less_trans)
  qed simp
qed

subsection \<open>The ranker keeps the best\<close>

text \<open>The files that an overflown ranker keeps, with their ids.\<close>

definition kept :: "searchRanker \<Rightarrow> (nat \<times> storage_file) multiset" where
  "kept r = image_mset (\<lambda>e. (re_id e, sr_out r ! re_idx e)) (mset (the (sr_heap r)))"

definition rank_ok :: "searchRanker \<Rightarrow> (nat \<times> storage_file) list \<Rightarrow> bool" where
  "rank_ok r ms \<longleftrightarrow> sr_matches r = length ms \<and>
     (case sr_heap r of
        None \<Rightarrow> length ms \<le> MaxSearchResults \<and> sr_out r = map snd ms \<and> sr_ids r = map fst ms
      | Some h \<Rightarrow> sr_seed r = searchSeed (sr_expr r) \<and> length (sr_out r) = MaxSearchResults \<and>
          mset (map re_idx h) = mset [0..<MaxSearchResults] \<and> (\<forall>j. heap_node h j) \<and>
          (\<forall>e \<in> set h. e = rank_entry (sr_seed r) (re_id e) (sr_out r ! re_idx e) (re_idx e)) \<and>
          (\<exists>D. kept r + D = mset ms \<and> (\<forall>k \<in># kept r. \<forall>d \<in># D. rank_of (sr_seed r) k \<le> rank_of (sr_seed r) d)))"

lemma rank_okI:
  assumes "sr_heap r = Some h" "sr_matches r = length ms" "sr_seed r = searchSeed (sr_expr r)" "length (sr_out r) = MaxSearchResults"
    "mset (map re_idx h) = mset [0..<MaxSearchResults]" "\<forall>j. heap_node h j"
    "\<forall>e \<in> set h. e = rank_entry (sr_seed r) (re_id e) (sr_out r ! re_idx e) (re_idx e)"
    "kept r + D = mset ms" "\<forall>k \<in># kept r. \<forall>d \<in># D. rank_of (sr_seed r) k \<le> rank_of (sr_seed r) d"
  shows "rank_ok r ms"
  unfolding rank_ok_def assms(1) option.case using assms(2-9) by blast

lemma rank_okE:
  assumes "rank_ok r ms" "sr_heap r = Some h"
  obtains D where "sr_matches r = length ms" "sr_seed r = searchSeed (sr_expr r)" "length (sr_out r) = MaxSearchResults"
    "mset (map re_idx h) = mset [0..<MaxSearchResults]" "\<forall>j. heap_node h j"
    "\<forall>e \<in> set h. e = rank_entry (sr_seed r) (re_id e) (sr_out r ! re_idx e) (re_idx e)"
    "kept r + D = mset ms" "\<forall>k \<in># kept r. \<forall>d \<in># D. rank_of (sr_seed r) k \<le> rank_of (sr_seed r) d"
  using assms(1) unfolding rank_ok_def assms(2) option.case by blast

lemma rank_ok_new: "rank_ok (newRanker expr) []"
  by (simp add: rank_ok_def newRanker_def)

lemma MaxSearchResults_pos: "0 < MaxSearchResults"
  by (simp add: MaxSearchResults_def)

lemma heap_length: "mset (map re_idx h) = mset [0..<n] \<Longrightarrow> length h = n"
  by (metis length_map length_upt minus_nat.diff_0 mset_eq_length)

lemma overflow_ok:
  assumes ok: "rank_ok r ms" and full: "length (sr_out r) = MaxSearchResults"
  shows "rank_ok (overflow r) ms" "sr_heap (overflow r) \<noteq> None" "sr_expr (overflow r) = sr_expr r" "sr_out (overflow r) = sr_out r"
    "sr_matches (overflow r) = sr_matches r"
proof -
  show "sr_heap (overflow r) \<noteq> None" "sr_expr (overflow r) = sr_expr r" "sr_out (overflow r) = sr_out r" "sr_matches (overflow r) = sr_matches r"
    by (simp_all add: overflow_def Let_def split: option.split)
  show "rank_ok (overflow r) ms"
  proof (cases "sr_heap r")
    case None
    let ?s = "searchSeed (sr_expr r)"
    define h0 where "h0 = map (\<lambda>i. rank_entry ?s (sr_ids r ! i) (sr_out r ! i) i) [0..<length (sr_out r)]"
    define h where "h = fold (\<lambda>i h. siftDown h i) (rev [0..<length h0 div 2]) h0"
    have r': "overflow r = r\<lparr>sr_seed := ?s, sr_heap := Some h, sr_ids := []\<rparr>"
      using None by (simp add: overflow_def Let_def h_def h0_def)
    have b: "mset h = mset h0" "\<forall>j. heap_node h j"
      using build_heap [of "length h0 div 2" h0] leaf_nodes [of h0] by (auto simp: h_def)
    have len: "length ms = MaxSearchResults" "sr_out r = map snd ms" "sr_ids r = map fst ms"
      using ok full None by (auto simp: rank_ok_def)
    have e0: "\<forall>e \<in> set h0. e = rank_entry ?s (re_id e) (sr_out r ! re_idx e) (re_idx e)"
      by (auto simp: h0_def rank_entry_def)
    have "map re_idx h0 = [0..<MaxSearchResults]" using len by (simp add: h0_def comp_def rank_entry_def)
    then have idx: "mset (map re_idx h) = mset [0..<MaxSearchResults]" using b(1) by (metis mset_map)
    have "image_mset (\<lambda>e. (re_id e, sr_out r ! re_idx e)) (mset h) = mset (map (\<lambda>e. (re_id e, sr_out r ! re_idx e)) h0)"
      using b(1) by simp
    also have "map (\<lambda>e. (re_id e, sr_out r ! re_idx e)) h0 = ms"
      using len by (intro nth_equalityI) (auto simp: h0_def rank_entry_def)
    finally have "kept (overflow r) = mset ms" by (simp add: kept_def r')
    then show ?thesis using ok b idx e0 full mset_eq_setD [OF b(1)]
      by (simp add: rank_ok_def r' None)
  qed (use ok in \<open>simp add: overflow_def\<close>)
qed

lemma worst_key:
  assumes ok: "rank_ok r ms" and h: "sr_heap r = Some (a # t)" and k: "k \<in># kept r"
  shows "rank_of (sr_seed r) k \<le> rank_key a"
proof -
  let ?pair = "\<lambda>e. (re_id e, sr_out r ! re_idx e)"
  have nodes: "\<forall>j. heap_node (a # t) j" and ent: "\<forall>b \<in> set (a # t). b = rank_entry (sr_seed r) (re_id b) (sr_out r ! re_idx b) (re_idx b)"
    using ok h by (auto simp: rank_ok_def)
  have "k \<in> ?pair ` set (a # t)" using k by (simp add: kept_def h)
  then obtain b where b: "b \<in> set (a # t)" "k = ?pair b" by blast
  obtain i where "i < length (a # t)" "(a # t) ! i = b" using b(1) by (metis in_set_conv_nth)
  then have "rank_key b \<le> rank_key a" using heap_root [OF nodes, of i] by simp
  then show ?thesis using ent b by (metis rank_key_entry)
qed

text \<open>The worst kept file \<open>a\<close> makes place for \<open>x\<close>.\<close>

lemma replace_worst:
  assumes ok: "rank_ok r ms" and h: "sr_heap r = Some (a # t)" and x: "e = rank_entry (sr_seed r) fid f (re_idx a)" "below a e"
  shows "rank_ok (r\<lparr>sr_matches := Suc (sr_matches r), sr_out := (sr_out r)[re_idx e := f], sr_heap := Some (siftDown (e # t) 0)\<rparr>) (ms @ [(fid, f)])"
proof -
  let ?r = "r\<lparr>sr_matches := Suc (sr_matches r), sr_out := (sr_out r)[re_idx e := f], sr_heap := Some (siftDown (e # t) 0)\<rparr>"
  let ?pair = "\<lambda>r e. (re_id e, sr_out r ! re_idx e)" and ?R = "rank_of (sr_seed r)"
  obtain D where n: "sr_matches r = length ms" and seed: "sr_seed r = searchSeed (sr_expr r)" and len: "length (sr_out r) = MaxSearchResults"
    and idx: "mset (map re_idx (a # t)) = mset [0..<MaxSearchResults]" and nodes: "\<forall>j. heap_node (a # t) j"
    and ent: "\<forall>b \<in> set (a # t). b = rank_entry (sr_seed r) (re_id b) (sr_out r ! re_idx b) (re_idx b)"
    and D: "kept r + D = mset ms" "\<forall>k \<in># kept r. \<forall>d \<in># D. ?R k \<le> ?R d"
    using ok h by (rule rank_okE)
  have dist: "re_idx a \<notin> re_idx ` set t" "re_idx a < MaxSearchResults"
    using mset_eq_imp_distinct_iff [OF idx] mset_eq_setD [OF idx] by auto
  have ei: "re_idx e = re_idx a" "re_id e = fid" by (simp_all add: x rank_entry_def)
  have "\<forall>j > 0. heap_node (e # t) j"
    using nodes by (auto simp: heap_node_def nth_Cons')
  note sd = siftDown_from [OF this]
  have m: "mset (siftDown (e # t) 0) = mset (e # t)" and new: "\<forall>j. heap_node (siftDown (e # t) 0) j" using sd by auto
  have out: "sr_out ?r ! re_idx b = (if b = e then f else sr_out r ! re_idx b)" if "b \<in> set (e # t)" for b
    using that dist len ei by (auto simp: nth_list_update)
  have te: "e \<notin> set t" using dist ei by (metis imageI)
  have kold: "kept r = add_mset (?pair r a) (image_mset (?pair r) (mset t))" by (simp add: kept_def h)
  have "image_mset (?pair ?r) (mset t) = image_mset (?pair r) (mset t)"
    using out te by (intro image_mset_cong) auto
  then have knew: "kept ?r = add_mset (fid, f) (image_mset (?pair r) (mset t))"
    using out [of e] ei by (simp add: kept_def m)
  have a: "rank_key a = ?R (?pair r a)" using ent by (metis list.set_intros(1) rank_key_entry)
  have worst: "?R k \<le> ?R (?pair r a)" if "k \<in># kept r" for k using worst_key [OF ok h that] a by simp
  have xa: "?R (fid, f) < ?R (?pair r a)" using x(2) a by (simp add: below_key x(1))
  have all: "kept ?r + add_mset (?pair r a) D = mset (ms @ [(fid, f)])" using D(1) by (simp add: knew kold)
  have best: "\<forall>k \<in># kept ?r. \<forall>d \<in># add_mset (?pair r a) D. ?R k \<le> ?R d"
  proof (intro ballI)
    fix k d
    assume k: "k \<in># kept ?r" and d: "d \<in># add_mset (?pair r a) D"
    have "?R k \<le> ?R (?pair r a)" using k worst xa by (auto simp: knew kold)
    moreover have "?R (?pair r a) \<le> ?R d" if "d \<in># D" using that D(2) by (simp add: kold)
    moreover have "?R k \<le> ?R d" if "d \<in># D" "k \<noteq> (fid, f)" using that D(2) k by (auto simp: kold knew)
    ultimately show "?R k \<le> ?R d" using d xa by force
  qed
  have "mset (map re_idx (siftDown (e # t) 0)) = mset [0..<MaxSearchResults]"
    using m idx ei by (metis (no_types, lifting) list.simps(9) mset_map)
  moreover have "\<forall>b \<in> set (siftDown (e # t) 0). b = rank_entry (sr_seed r) (re_id b) (sr_out ?r ! re_idx b) (re_idx b)"
    using ent out mset_eq_setD [OF m] x(1) ei by auto
  ultimately show ?thesis
    using n seed len new all best by (intro rank_okI [where h = "siftDown (e # t) 0" and D = "add_mset (?pair r a) D"]) simp_all
qed

lemma add_match_ok:
  assumes ok: "rank_ok r ms" and add: "add_match r fid f = (go, r')"
  shows "rank_ok r' (ms @ [(fid, f)])" "sr_expr r' = sr_expr r" "go \<longleftrightarrow> length ms < MaxSearchResults \<or> Suc (length ms) < searchRankScan"
proof -
  let ?r = "r\<lparr>sr_matches := Suc (sr_matches r)\<rparr>"
  have "rank_ok r' (ms @ [(fid, f)]) \<and> sr_expr r' = sr_expr r \<and> (go \<longleftrightarrow> length ms < MaxSearchResults \<or> Suc (length ms) < searchRankScan)"
  proof (cases "length (sr_out r) < MaxSearchResults")
    case True
    then have r': "go" "r' = ?r\<lparr>sr_out := sr_out r @ [f], sr_ids := sr_ids r @ [fid]\<rparr>"
      using add by (auto simp: add_match_def Let_def)
    then show ?thesis using ok True by (auto simp: rank_ok_def split: option.splits)
  next
    case False
    then have full: "length (sr_out r) = MaxSearchResults" using ok by (auto simp: rank_ok_def split: option.splits)
    have n: "MaxSearchResults \<le> length ms"
    proof (cases "sr_heap r")
      case (Some h)
      then obtain D where "kept r + D = mset ms" using ok by (auto simp: rank_ok_def)
      then have "size (kept r) \<le> length ms" by (metis le_add1 size_mset size_union)
      moreover have "size (kept r) = MaxSearchResults" using ok Some heap_length by (auto simp: rank_ok_def kept_def)
      ultimately show ?thesis by simp
    qed (use ok full in \<open>auto simp: rank_ok_def\<close>)
    note o = overflow_ok [OF ok full]
    have comm: "overflow ?r = (overflow r)\<lparr>sr_matches := Suc (sr_matches r)\<rparr>"
      by (simp add: overflow_def Let_def split: option.split)
    obtain h where h: "sr_heap (overflow r) = Some h" using o(2) by blast
    then have "length h = MaxSearchResults" using o(1) heap_length by (auto simp: rank_ok_def)
    then obtain a t where at: "h = a # t" using MaxSearchResults_pos by (cases h) auto
    let ?e = "rank_entry (sr_seed (overflow r)) fid f (re_idx a)"
    show ?thesis
    proof (cases "below a ?e")
      case True
      have r': "r' = (overflow r)\<lparr>sr_matches := Suc (sr_matches r), sr_out := (sr_out (overflow r))[re_idx ?e := f], sr_heap := Some (siftDown (?e # t) 0)\<rparr>"
        "go \<longleftrightarrow> Suc (sr_matches r) < searchRankScan"
        using add full True h at by (auto simp: add_match_def Let_def comm)
      have "rank_ok r' (ms @ [(fid, f)])" using replace_worst [OF o(1) h [unfolded at] refl True] o(5) by (simp add: r'(1))
      then show ?thesis using o(3) n ok by (simp add: r' rank_ok_def [of r])
    next
      case False
      have r': "r' = (overflow r)\<lparr>sr_matches := Suc (sr_matches r)\<rparr>" "go \<longleftrightarrow> Suc (sr_matches r) < searchRankScan"
        using add full False h at by (auto simp: add_match_def Let_def comm)
      let ?R = "rank_of (sr_seed (overflow r))"
      obtain D where seed: "sr_seed (overflow r) = searchSeed (sr_expr (overflow r))" and len: "length (sr_out (overflow r)) = MaxSearchResults"
        and idx: "mset (map re_idx h) = mset [0..<MaxSearchResults]" and nodes: "\<forall>j. heap_node h j"
        and ent: "\<forall>b \<in> set h. b = rank_entry (sr_seed (overflow r)) (re_id b) (sr_out (overflow r) ! re_idx b) (re_idx b)"
        and D: "kept (overflow r) + D = mset ms" "\<forall>k \<in># kept (overflow r). \<forall>d \<in># D. ?R k \<le> ?R d"
        using o(1) h by (rule rank_okE)
      have x: "?R k \<le> ?R (fid, f)" if "k \<in># kept (overflow r)" for k
        using worst_key [OF o(1) h [unfolded at] that] False by (simp add: below_key)
      have k: "kept r' = kept (overflow r)" by (simp add: r' kept_def)
      have n': "sr_matches r = length ms" using ok by (simp add: rank_ok_def)
      have "rank_ok r' (ms @ [(fid, f)])"
        by (rule rank_okI [where h = h and D = "add_mset (fid, f) D"]) (use seed len idx nodes ent D x k h n' in \<open>simp_all add: r'(1)\<close>)
      then show ?thesis using o(3) n n' by (simp add: r')
    qed
  qed
  then show "rank_ok r' (ms @ [(fid, f)])" "sr_expr r' = sr_expr r" "go \<longleftrightarrow> length ms < MaxSearchResults \<or> Suc (length ms) < searchRankScan"
    by blast+
qed

definition rank_inv :: "searchRanker \<Rightarrow> (nat \<times> storage_file) list \<Rightarrow> bool" where
  "rank_inv r ms \<longleftrightarrow> rank_ok r ms \<and> (sr_heap r = None \<longleftrightarrow> length ms \<le> MaxSearchResults)"

lemma scan_more: "MaxSearchResults < searchRankScan"
  by (simp add: MaxSearchResults_def searchRankScan_def)

lemma add_match_inv:
  assumes inv: "rank_inv r ms" and add: "add_match r fid f = (go, r')" and n: "length ms < searchRankScan"
  shows "rank_inv r' (ms @ [(fid, f)])" "sr_expr r' = sr_expr r" "go \<longleftrightarrow> Suc (length ms) < searchRankScan"
proof -
  have ok: "rank_ok r ms" using inv by (simp add: rank_inv_def)
  note a = add_match_ok [OF ok add]
  show "sr_expr r' = sr_expr r" by (rule a(2))
  show "go \<longleftrightarrow> Suc (length ms) < searchRankScan" using a(3) n scan_more by auto
  have "sr_heap r' = None \<longleftrightarrow> length (sr_out r) < MaxSearchResults \<and> sr_heap r = None"
  proof (cases "length (sr_out r) < MaxSearchResults")
    case True
    then have "sr_heap r = None" using ok by (auto simp: rank_ok_def split: option.splits)
    then show ?thesis using True add by (auto simp: add_match_def Let_def)
  next
    case False
    have "sr_heap (overflow s) \<noteq> None" for s by (simp add: overflow_def Let_def split: option.split)
    then show ?thesis using False add by (auto simp: add_match_def Let_def split: if_splits)
  qed
  moreover have "length (sr_out r) < MaxSearchResults \<and> sr_heap r = None \<longleftrightarrow> length ms < MaxSearchResults"
    using inv by (auto simp: rank_inv_def rank_ok_def split: option.splits)
  ultimately show "rank_inv r' (ms @ [(fid, f)])" using a(1) by (simp add: rank_inv_def Suc_le_eq)
qed

lemma feed_inv:
  assumes "rank_inv r ms" "length ms < searchRankScan"
  shows "rank_inv (feed r ns) (ms @ take (searchRankScan - length ms) ns) \<and> sr_expr (feed r ns) = sr_expr r"
  using assms
proof (induction ns arbitrary: r ms)
  case (Cons m ns)
  obtain fid f where m: "m = (fid, f)" by fastforce
  obtain go r' where a: "add_match r fid f = (go, r')" by fastforce
  note A = add_match_inv [OF Cons.prems(1) a Cons.prems(2)]
  show ?case
  proof (cases go)
    case True
    then show ?thesis using Cons.IH [OF A(1)] A(2,3) m a
      by (simp add: take_Cons' Suc_diff_Suc flip: diff_Suc_1)
  next
    case False
    then have "searchRankScan - length ms = 1" using A(3) Cons.prems(2) by simp
    then show ?thesis using False A(1,2) m a by simp
  qed
qed (simp add: rank_inv_def)

lemma rank_of_inj: "distinct (map fst ms) \<Longrightarrow> inj_on (rank_of seed) (set ms)"
  by (auto simp: inj_on_def rank_of_def) (metis eq_key_imp_eq_value)

lemma rank_result_best:
  assumes ok: "rank_ok r ms" and h: "sr_heap r = Some h" and d: "distinct (map fst ms)"
  shows "rank_result r = map snd (take MaxSearchResults (sort_key (rank_of (sr_seed r)) ms))"
proof -
  let ?R = "rank_of (sr_seed r)" and ?pair = "\<lambda>e. (re_id e, sr_out r ! re_idx e)"
  obtain D where idx: "mset (map re_idx h) = mset [0..<MaxSearchResults]"
    and ent: "\<forall>e \<in> set h. e = rank_entry (sr_seed r) (re_id e) (sr_out r ! re_idx e) (re_idx e)"
    and D: "kept r + D = mset ms" "\<forall>k \<in># kept r. \<forall>d \<in># D. ?R k \<le> ?R d"
    using ok h by (rule rank_okE)
  define S where "S = sortBy (\<lambda>a b. below b a) h"
  define L where "L = map ?pair S"
  have sS: "set S = set h" "length S = MaxSearchResults" using heap_length [OF idx] by (simp_all add: S_def)
  have "\<forall>e \<in> set S. ?R (?pair e) = rank_key e" using ent sS by (metis rank_key_entry)
  then have RL: "map ?R L = map rank_key S" by (simp add: L_def)
  have "S = sortBy (\<lambda>a b. rank_key a < rank_key b) h" by (simp add: S_def below_key)
  then have sL: "sorted (map ?R L)" unfolding RL using sorted_sortBy by metis
  obtain Dl where Dl: "mset Dl = D" by (metis ex_mset)
  have mL: "mset L = kept r" by (simp add: L_def S_def kept_def h)
  have m: "mset (L @ sort_key ?R Dl) = mset ms" using mL Dl D(1) by simp
  have "\<forall>x \<in> set L. \<forall>y \<in> set Dl. ?R x \<le> ?R y" using D(2) mL Dl by (metis set_mset_mset)
  then have s: "sorted (map ?R (L @ sort_key ?R Dl))" using sL by (auto simp: sorted_append)
  have inj: "inj_on ?R (set ms)" by (rule rank_of_inj [OF d])
  have dm: "distinct ms" using d distinct_map by blast
  have "distinct (map ?R ms)" using dm inj by (simp add: distinct_map)
  moreover have "mset (map ?R (L @ sort_key ?R Dl)) = mset (map ?R ms)" using m by (metis mset_map)
  ultimately have "distinct (map ?R (L @ sort_key ?R Dl))" using mset_eq_imp_distinct_iff by blast
  moreover have "distinct (map ?R (sort_key ?R ms))" using dm inj by (simp add: distinct_map)
  ultimately have "L @ sort_key ?R Dl = sort_key ?R ms"
    using map_sorted_distinct_set_unique [of ?R "L @ sort_key ?R Dl" "sort_key ?R ms"] inj s mset_eq_setD [OF m] by simp
  moreover have "length L = MaxSearchResults" by (simp add: L_def sS)
  ultimately have "take MaxSearchResults (sort_key ?R ms) = L" by (metis append_eq_conv_conj)
  then show ?thesis by (simp add: rank_result_def h L_def S_def comp_def)
qed

lemma ranked:
  assumes "distinct (map fst ms)"
  shows "rank_result (feed (newRanker expr) ms) =
    (if length ms \<le> MaxSearchResults then map snd ms
     else map snd (take MaxSearchResults (sort_key (rank_of (searchSeed expr)) (take searchRankScan ms))))"
proof -
  define ns where "ns = take searchRankScan ms"
  define r where "r = feed (newRanker expr) ms"
  have "rank_inv (newRanker expr) []" by (simp add: rank_inv_def rank_ok_new) (simp add: newRanker_def)
  moreover have "0 < searchRankScan" using scan_more by simp
  ultimately have inv: "rank_inv r ns" "sr_expr r = expr"
    using feed_inv [of "newRanker expr" "[]" ms] by (simp_all add: ns_def r_def) (simp add: newRanker_def)
  have len: "length ns \<le> MaxSearchResults \<longleftrightarrow> length ms \<le> MaxSearchResults" using scan_more by (auto simp: ns_def)
  have d: "distinct (map fst ns)" using assms by (simp add: ns_def take_map [symmetric] distinct_take)
  show ?thesis
  proof (cases "sr_heap r")
    case None
    then have "length ms \<le> MaxSearchResults" "ns = ms" using inv len scan_more by (auto simp: rank_inv_def ns_def)
    then show ?thesis using None inv by (simp add: rank_inv_def rank_ok_def rank_result_def r_def)
  next
    case (Some h)
    then have n: "\<not> length ms \<le> MaxSearchResults" using inv len by (auto simp: rank_inv_def)
    have ok: "rank_ok r ns" using inv by (simp add: rank_inv_def)
    have "sr_seed r = searchSeed expr" using ok Some inv(2) by (simp add: rank_ok_def)
    then show ?thesis using rank_result_best [OF ok Some d] n by (simp add: r_def ns_def)
  qed
qed

text \<open>C6: A search that feeds its matches to a ranker gets them all, in the order they came, when
  there are at most 1000. When there are more it gets the best 1000 of the first 20000, best
  first: most sources, then the larger tie-break of query and file, then the smaller record id.
\<close>

theorem ranker_keeps_best:
  assumes "distinct (map fst ms)"
  shows "rank_result (feed (newRanker expr) ms) =
    (if length ms \<le> MaxSearchResults then map snd ms
     else map snd (take MaxSearchResults (sort_key (rank_of (searchSeed expr)) (take searchRankScan ms))))"
  by (rule ranked [OF assms])

theorem ranker_keeps_best_witness:
  "rank_result (feed (newRanker (SearchText (str ''film''))) [(7, zero_file), (3, zero_file\<lparr>f_Sources := 2\<rparr>)]) =
    [zero_file, zero_file\<lparr>f_Sources := 2\<rparr>]"
  by (subst ranker_keeps_best) (simp_all add: MaxSearchResults_def)

end
