(* ===== verification/Spec2Isabelle.thy ===== *)
theory Spec2Isabelle
  imports Packets Net_Address Tcp_Operations Tcp_Framing Ip_Filter Search_Parse LowId_Clients Tcp_Crypt Search_Rank
begin

text \<open>
  \<^bold>\<open>A verification library for eNode-go\<close>

  eNode is an eD2K (eMule) server. Clients connect over TCP, plainly or obfuscated, log in,
  publish the files they share and ask for files and for the sources of a file; over UDP
  they and other servers ask the same questions without a session. This library models the
  parts that decide what the server answers and proves what makes them correct.

  \<^bold>\<open>The parts and how they interact.\<close> Bytes of a connection pass the obfuscation layer
  (\<^verbatim>\<open>ed2k/tcpcrypt.go\<close>), are cut into packets (\<^verbatim>\<open>ed2k/packet.go\<close>, \<^verbatim>\<open>processPacketData\<close> of
  \<^verbatim>\<open>ed2k/server_runtime.go\<close>), pass the login gate and reach a handler, which decodes the
  payload (\<^verbatim>\<open>ed2k/buffer.go\<close>, \<^verbatim>\<open>ed2k/search.go\<close>), asks the storage
  (\<^verbatim>\<open>storage/search.go\<close>, \<^verbatim>\<open>storage/memory_index.go\<close>, \<^verbatim>\<open>storage/memory_rank.go\<close>) and builds an answer
  (\<^verbatim>\<open>ed2k/tcpoperations.go\<close>). Addresses are filtered first (\<^verbatim>\<open>netfilter\<close>), and firewalled
  clients get an identifier from the allocator of \<^verbatim>\<open>ed2k/lowidclients.go\<close>.

  \<^bold>\<open>Conventions.\<close> A Go struct is a record, its methods are functions on the record; \<open>uint8\<close> to
  \<open>uint64\<close> are words of that width, \<open>int\<close> is \<open>int\<close> or, where it counts, \<open>nat\<close>; a byte slice and
  a string are \<open>bytes\<close>, a list of 8-bit words. A function that can fail returns \<open>res\<close>: \<open>Ok\<close>,
  \<open>Err\<close> with the Go error, or \<open>Panic\<close> for what would be a run-time fault. Readers and
  writers of a buffer are of type \<open>io\<close>. Definitions keep the names of the source; a prefix is
  added where two parts use the same name. Random draws, Unicode tables, the country
  database, zlib and the SQL servers are arguments. Time, locks and logging are left out.

  \<^bold>\<open>The theories.\<close>
    \<^item> \<open>Wire_Prelude\<close>: the result type, words and little-endian bytes, the collections of rules
      the other theories add to (\<open>safe_intros\<close>, \<open>reads_intros\<close>, \<open>emits_intros\<close>).
    \<^item> \<open>Wire_Constants\<close>: the opcodes, tags and flags of \<^verbatim>\<open>ed2k/constants.go\<close>.
    \<^item> \<open>Wire_Buffer\<close>: the byte buffer of \<^verbatim>\<open>ed2k/buffer.go\<close>; what it means that an operation
      is safe, reads given bytes or emits them; the codec interface \<open>wire_codec\<close>, interpreted
      on every number, string, hash and tag format.
    \<^item> \<open>Wire_Tags\<close>: tags, file records and file lists of \<^verbatim>\<open>ed2k/buffer.go\<close>. The decoders never
      fault on any bytes, the count check refuses nothing decodable, tags read back.
    \<^item> \<open>Packets\<close>: \<^verbatim>\<open>ed2k/packet.go\<close>, framing, packet building and compression.
    \<^item> \<open>Net_Address\<close>: \<^verbatim>\<open>ed2k/address.go\<close> and the address helpers of \<^verbatim>\<open>ed2k/misc.go\<close>, with the Go
      library's address parser.
    \<^item> \<open>Tcp_Operations\<close>: the answers of \<^verbatim>\<open>ed2k/tcpoperations.go\<close> and \<^verbatim>\<open>ed2k/ipv6sources.go\<close>; what a
      client reads from them.
    \<^item> \<open>Tcp_Framing\<close>: \<open>processPacketData\<close>, the dispatch and the login gate of
      \<^verbatim>\<open>ed2k/server_runtime.go\<close>. How TCP cuts the stream does not matter; before login no
      other handler matters; what a session buffers is bounded.
    \<^item> \<open>Crypt\<close>: RC4, MD5, modular powers and obfuscated datagrams of \<^verbatim>\<open>ed2k/crypt.go\<close> and
      \<^verbatim>\<open>ed2k/udpcrypt.go\<close>.
    \<^item> \<open>Tcp_Crypt\<close>: the obfuscation handshake of \<^verbatim>\<open>ed2k/tcpcrypt.go\<close> with \<open>handleBytes\<close> and
      \<open>writeRaw\<close> in front of the framing. An obfuscating client is served like a plain one.
    \<^item> \<open>LowId_Clients\<close>: the identifier allocator of \<^verbatim>\<open>ed2k/lowidclients.go\<close>.
    \<^item> \<open>Go_Strings\<close>: the functions of Go's \<open>strings\<close>, \<open>strconv\<close>, \<open>hex\<close> and \<open>utf8\<close> packages the
      source uses, over a record of Unicode tables.
    \<^item> \<open>Ip_Filter\<close>: the range filter and country filter of \<^verbatim>\<open>netfilter\<close>.
    \<^item> \<open>Search_Match\<close>: \<^verbatim>\<open>storage/search.go\<close> and \<^verbatim>\<open>storage/search_hash.go\<close>, the search tree, its
      per-file test, its SQL clause and its scan guard.
    \<^item> \<open>Search_Parse\<close>: the reader of a client's search tree, \<^verbatim>\<open>ed2k/search.go\<close>.
    \<^item> \<open>Utf8\<close>: encoding and decoding of UTF-8 are inverse, and a valid text occurs in another
      only between characters.
    \<^item> \<open>Name_Index\<close>: the inverted index over file names and the record slab of
      \<^verbatim>\<open>storage/memory_index.go\<close>. Its invariant, the contract \<open>name_directory\<close> with the engine,
      and that a search narrowed by the index finds what a full scan finds.
    \<^item> \<open>Search_Rank\<close>: the ranker of \<^verbatim>\<open>storage/memory_rank.go\<close>, a bounded binary heap. It keeps
      the best matches, in order.

  \<^bold>\<open>Bounds and recursion.\<close> Every loop of the source that is modelled is a total function; no
  fuel is used. The search parser recurses on the nesting levels that are left (24), the
  identifier probe on the probes that are left, the framing on the bytes that are left, and
  counted loops on their count. The draws of \<open>randClientSocketMarker\<close>, the one loop without a
  bound, are a list; it returns \<open>None\<close> when the list has no usable draw.

  \<^bold>\<open>Not modelled.\<close> The records, sessions and source lists of the memory engine
  (\<^verbatim>\<open>storage/storage.go\<close>) around its index and its ranker. The SQL and MongoDB engines, the Manticore search, the admin pages, the
  account and payment pages, configuration loading, logging, the process handover and the
  command line are input and output around external services. The NAT traversal, the gossip
  between servers, the spam and content filters, the meta search and the ed3k protocol
  (whose QUIC and TLS stacks under \<^verbatim>\<open>internal/ed3k\<close> are copies of third-party libraries and
  generated code) are separate services that none of the modelled parts calls.
\<close>

end
